(* ===== verification/Prelude.thy ===== *)
theory Prelude
  imports Main "HOL-Library.Word" "HOL-Library.Sublist"
begin

text \<open>
  Vocabulary shared by every component of the development: the Go types the
  sources use (bytes, 64 bit integers), the result type of fallible operations,
  the errors the modelled packages return, and generic facts on lists.

  A Go \<^verbatim>\<open>string\<close> is a sequence of bytes, as is the HOL type \<^typ>\<open>string\<close> (a
  \<^typ>\<open>char\<close> is eight bits wide), so indices and lengths agree with Go's \<^verbatim>\<open>len\<close>.
\<close>

section \<open>Collections of facts\<close>

named_theorems go_simps \<open>unfolding rules of the Go library functions\<close>
named_theorems acl_simps \<open>unfolding rules of the access control operations\<close>
named_theorems ring_simps \<open>unfolding rules of the ring buffer operations\<close>

section \<open>Types\<close>

type_synonym byte = "8 word"
type_synonym bytes = "byte list"
type_synonym u64 = "64 word"

datatype go_error =
    NotFoundError           \<comment> \<open>utils.NotFoundError, wraps os.ErrNotExist\<close>
  | InvalidArgError
  | MemoryError
  | EOF                     \<comment> \<open>io.EOF\<close>
  | IOError                 \<comment> \<open>an error of the underlying reader or writer\<close>
  | Errorf string           \<comment> \<open>errors.New or fmt.Errorf with this format\<close>
  | Panic string            \<comment> \<open>a run time panic: nil dereference, index out of range\<close>

type_synonym 'a result = "go_error + 'a"

abbreviation (input) Err :: "go_error \<Rightarrow> 'a result" where
  "Err \<equiv> Inl"

abbreviation (input) Ok :: "'a \<Rightarrow> 'a result" where
  "Ok \<equiv> Inr"

section \<open>Lists\<close>

lemma take_prefix_append [simp]: "take (length xs) (xs @ ys) = xs"
  by simp

lemma butlast_append_last: "xs \<noteq> [] \<Longrightarrow> butlast xs @ [last xs] = xs"
  by simp

lemma takeWhile_all: "(\<And>x. x \<in> set xs \<Longrightarrow> P x) \<Longrightarrow> takeWhile P xs = xs"
  by (induction xs) auto

lemma filter_neq_idem [simp]: "x \<notin> set xs \<Longrightarrow> filter (\<lambda>y. y \<noteq> x) xs = xs"
  by (induction xs) auto

lemma sum_list_map_append [simp]:
  "sum_list (map f (xs @ ys)) = sum_list (map f xs) + (sum_list (map f ys) :: nat)"
  by simp

lemma sum_list_take_drop:
  "sum_list (map f (take n xs)) + sum_list (map f (drop n xs)) = (sum_list (map f xs) :: nat)"
  by (metis append_take_drop_id map_append sum_list_append)

lemma list_all_set: "list_all P xs \<longleftrightarrow> (\<forall>x \<in> set xs. P x)"
  by (simp add: list_all_iff)

lemma list_all2_map_inverse:
  "list_all2 P xs ys \<Longrightarrow> (\<And>x y. x \<in> set xs \<Longrightarrow> P x y \<Longrightarrow> f y = x) \<Longrightarrow> map f ys = xs"
  by (induction rule: list_all2_induct) auto

lemma list_all2_inj:
  "list_all2 P xs zs \<Longrightarrow> list_all2 P ys zs \<Longrightarrow>
   (\<And>x y z. x \<in> set xs \<Longrightarrow> y \<in> set ys \<Longrightarrow> P x z \<Longrightarrow> P y z \<Longrightarrow> x = y) \<Longrightarrow> xs = ys"
  by (induction zs arbitrary: xs ys) (auto simp: list_all2_Cons2)

lemma list_all2_fun:
  "list_all2 P xs ys \<Longrightarrow> list_all2 P xs zs \<Longrightarrow>
   (\<And>x y z. P x y \<Longrightarrow> P x z \<Longrightarrow> y = z) \<Longrightarrow> ys = zs"
  by (induction xs arbitrary: ys zs) (auto simp: list_all2_Cons1)

section \<open>Words\<close>

lemma of_nat_of_unat [simp]: "(of_nat (unat w) :: 'a::len word) = w"
proof (rule unsigned_word_eqI)
  show "unat (of_nat (unat w) :: 'a word) = unat w"
    using unsigned_less [of w] by (simp add: unat_of_nat)
qed

lemma unat_of_nat_u64: "n < 2 ^ 64 \<Longrightarrow> unat (of_nat n :: u64) = n"
  by (simp add: unat_of_nat)

lemma unat_inc_u64: "Suc n < 2 ^ 64 \<Longrightarrow> unat (i :: u64) = n \<Longrightarrow> unat (i + 1) = Suc n"
  by (simp add: unat_plus_if')

section \<open>64 bit arithmetic\<close>

text \<open>\<open>i64\<close> is the value of a Go \<^verbatim>\<open>int64\<close> expression whose exact value is the argument:
  two's complement wrap-around. \<open>i64_of_u64\<close> and \<open>u64_of_i64\<close> are the conversions
  between \<^verbatim>\<open>int64\<close> and \<^verbatim>\<open>uint64\<close>, the latter as a natural number below \<open>2^64\<close>.\<close>

definition i64 :: "int \<Rightarrow> int" where
  "i64 x = (x + 2 ^ 63) mod 2 ^ 64 - 2 ^ 63"

definition u64_of_i64 :: "int \<Rightarrow> nat" where
  "u64_of_i64 x = nat (x mod 2 ^ 64)"

definition i64_of_u64 :: "nat \<Rightarrow> int" where
  "i64_of_u64 n = i64 (int n)"

definition in_i64 :: "int \<Rightarrow> bool" where
  "in_i64 x \<longleftrightarrow> - (2 ^ 63) \<le> x \<and> x < 2 ^ 63"

lemma i64_id [simp]: "in_i64 x \<Longrightarrow> i64 x = x"
  by (simp add: i64_def in_i64_def)

lemma in_i64_i64 [simp]: "in_i64 (i64 x)"
proof -
  have "0 \<le> (x + 2 ^ 63) mod 2 ^ 64" "(x + 2 ^ 63) mod 2 ^ 64 < (2 :: int) ^ 64"
    by simp_all
  then show ?thesis
    by (simp add: in_i64_def i64_def)
qed

lemma i64_u64_roundtrip [simp]: "in_i64 x \<Longrightarrow> i64_of_u64 (u64_of_i64 x) = x"
  by (simp add: i64_of_u64_def u64_of_i64_def i64_def in_i64_def mod_simps)

lemma i64_high:
  assumes "2 ^ 63 \<le> x" and "x < 2 ^ 64"
  shows "i64 x = x - 2 ^ 64"
proof -
  have "(x + 2 ^ 63) mod 2 ^ 64 = (x + 2 ^ 63 - 2 ^ 64) mod 2 ^ 64"
    by (simp only: minus_mod_self2)
  also have "\<dots> = x + 2 ^ 63 - 2 ^ 64"
    using assms by (intro mod_pos_pos_trivial) auto
  finally show ?thesis
    by (simp add: i64_def)
qed

lemma u64_of_i64_less: "u64_of_i64 x < 2 ^ 64"
proof -
  have "x mod 2 ^ 64 < 2 ^ 64" and "0 \<le> x mod 2 ^ 64"
    by simp_all
  then show ?thesis
    by (simp add: u64_of_i64_def nat_less_iff)
qed

end
