(* ===== verification/Slices.thy ===== *)
theory Slices
  imports Go_Strings
begin

text \<open>
  \<^verbatim>\<open>utils/slice.go\<close> and the slice helpers of \<^verbatim>\<open>utils/string.go\<close>: membership,
  deduplication, filtering and comparison of string slices.
\<close>

section \<open>Operations\<close>

fun InString :: "string list \<Rightarrow> string \<Rightarrow> bool" where
  "InString [] needle = False"
| "InString (x # hay) needle = (if x = needle then True else InString hay needle)"

text \<open>The loop of \<^verbatim>\<open>DeduplicateStringSlice\<close>; \<open>out\<close> is its accumulator.\<close>

fun dedup_loop :: "string list \<Rightarrow> string list \<Rightarrow> string list" where
  "dedup_loop out [] = out"
| "dedup_loop out (i # rest) =
     (if \<not> InString out i then dedup_loop (out @ [i]) rest else dedup_loop out rest)"

definition DeduplicateStringSlice :: "string list \<Rightarrow> string list" where
  "DeduplicateStringSlice xs = dedup_loop [] xs"

fun FilterSlice :: "string list \<Rightarrow> string \<Rightarrow> string list" where
  "FilterSlice [] needle = []"
| "FilterSlice (i # a) needle =
     (if i \<noteq> needle then i # FilterSlice a needle else FilterSlice a needle)"

text \<open>The element loop of \<^verbatim>\<open>StringSliceEq\<close> starts at index \<open>i\<close> of slices of equal length.\<close>

function slice_eq_loop :: "string list \<Rightarrow> string list \<Rightarrow> nat \<Rightarrow> bool" where
  "slice_eq_loop a b i =
     (if i < length a then (if a ! i \<noteq> b ! i then False else slice_eq_loop a b (Suc i))
      else True)"
  by pat_completeness auto
termination
  by (relation "measure (\<lambda>(a, b, i). length a - i)") auto

declare slice_eq_loop.simps [simp del]

definition StringSliceEq :: "string list \<Rightarrow> string list \<Rightarrow> bool" where
  "StringSliceEq a b = (if length a \<noteq> length b then False else slice_eq_loop a b 0)"

definition SlicePrefixMatch :: "string list \<Rightarrow> string list \<Rightarrow> bool" where
  "SlicePrefixMatch s prefx =
     (if length s < length prefx then False
      else StringSliceEq prefx (take (length prefx) s))"

text \<open>\<^verbatim>\<open>Uniquify\<close> keeps the set of strings seen so far in a map.\<close>

fun uniquify_loop :: "(string \<rightharpoonup> bool) \<Rightarrow> string list \<Rightarrow> string list" where
  "uniquify_loop seen [] = []"
| "uniquify_loop seen (i # rest) =
     (case seen i of
        Some _ \<Rightarrow> uniquify_loop seen rest
      | None \<Rightarrow> i # uniquify_loop (seen(i \<mapsto> True)) rest)"

definition Uniquify :: "string list \<Rightarrow> string list" where
  "Uniquify xs = uniquify_loop Map.empty xs"

section \<open>What they compute\<close>

lemma InString_iff [simp]: "InString hay x \<longleftrightarrow> x \<in> set hay"
  by (induction hay) auto

lemma FilterSlice_filter [simp]: "FilterSlice xs x = filter (\<lambda>y. y \<noteq> x) xs"
  by (induction xs) auto

lemma set_dedup_loop: "set (dedup_loop out xs) = set out \<union> set xs"
  by (induction xs arbitrary: out) auto

lemma distinct_dedup_loop: "distinct out \<Longrightarrow> distinct (dedup_loop out xs)"
  by (induction xs arbitrary: out) auto

lemma prefix_dedup_loop: "prefix out (dedup_loop out xs)"
proof (induction xs arbitrary: out)
  case Nil
  then show ?case by simp
next
  case (Cons i rest)
  then show ?case
    using append_prefixD by fastforce
qed

lemma set_DeduplicateStringSlice [simp]: "set (DeduplicateStringSlice xs) = set xs"
  by (simp add: DeduplicateStringSlice_def set_dedup_loop)

lemma distinct_DeduplicateStringSlice [simp]: "distinct (DeduplicateStringSlice xs)"
  by (simp add: DeduplicateStringSlice_def distinct_dedup_loop)

lemma dedup_loop_distinct:
  "distinct (out @ xs) \<Longrightarrow> dedup_loop out xs = out @ xs"
  by (induction xs arbitrary: out) auto

lemma DeduplicateStringSlice_id: "distinct xs \<Longrightarrow> DeduplicateStringSlice xs = xs"
  by (simp add: DeduplicateStringSlice_def dedup_loop_distinct)

lemma dedup_loop_uniquify:
  "dom seen = set out \<Longrightarrow> dedup_loop out xs = out @ uniquify_loop seen xs"
proof (induction xs arbitrary: out seen)
  case (Cons i rest)
  show ?case
  proof (cases "seen i")
    case None
    with Cons.prems have "i \<notin> set out"
      by (metis domIff)
    have "dom (seen(i \<mapsto> True)) = set (out @ [i])"
      using Cons.prems by simp
    from Cons.IH [OF this] None \<open>i \<notin> set out\<close> show ?thesis
      by (simp add: fun_upd_def)
  next
    case (Some y)
    with Cons.prems have "i \<in> set out"
      by (metis domI)
    with Some Cons.IH [OF Cons.prems] show ?thesis
      by simp
  qed
qed simp

lemma Uniquify_Deduplicate: "Uniquify xs = DeduplicateStringSlice xs"
  using dedup_loop_uniquify [of Map.empty "[]" xs]
  by (simp add: Uniquify_def DeduplicateStringSlice_def)

lemma slice_eq_loop_iff:
  "length a = length b \<Longrightarrow> slice_eq_loop a b i \<longleftrightarrow> drop i a = drop i b"
proof (induction a b i rule: slice_eq_loop.induct)
  case (1 a b i)
  show ?case
  proof (cases "i < length a")
    case True
    with 1 have "slice_eq_loop a b i \<longleftrightarrow> a ! i = b ! i \<and> drop (Suc i) a = drop (Suc i) b"
      by (simp add: slice_eq_loop.simps [of a b i])
    also have "\<dots> \<longleftrightarrow> drop i a = drop i b"
      using True 1 by (metis Cons_nth_drop_Suc list.inject)
    finally show ?thesis .
  next
    case False
    with 1 show ?thesis
      by (simp add: slice_eq_loop.simps [of a b i])
  qed
qed

lemma StringSliceEq_iff [simp]: "StringSliceEq a b \<longleftrightarrow> a = b"
  by (auto simp: StringSliceEq_def slice_eq_loop_iff)

lemma SlicePrefixMatch_iff [simp]: "SlicePrefixMatch s p \<longleftrightarrow> prefix p s"
proof -
  have "prefix p s \<longleftrightarrow> length p \<le> length s \<and> p = take (length p) s"
    by (metis prefix_length_le prefix_def append_eq_conv_conj take_is_prefix)
  then show ?thesis
    by (auto simp: SlicePrefixMatch_def)
qed

end
