(* ===== verification/Ids.thy ===== *)
theory Ids
  imports Slices
begin

text \<open>
  Identifiers and the parts of the server configuration the modelled code reads:
  \<^verbatim>\<open>utils/orgs.go\<close> (organisations and client ids), \<^verbatim>\<open>utils/users.go\<close> (the name of the
  server principal), \<^verbatim>\<open>utils/flows.go\<close> and \<^verbatim>\<open>utils/hunts.go\<close> (flow, session and hunt
  ids).
\<close>

section \<open>Configuration\<close>

record ClientConfig =
  PinnedServerName :: string

record Config =
  OrgId :: string
  Client :: "ClientConfig option"
  Datastore :: bool  \<comment> \<open>whether a datastore is configured\<close>

definition GetSuperuserName :: "Config option \<Rightarrow> string" where
  "GetSuperuserName config_obj =
     (case config_obj of
        None \<Rightarrow> ''VelociraptorServer''
      | Some c \<Rightarrow>
          (case Client c of
             None \<Rightarrow> ''VelociraptorServer''
           | Some cl \<Rightarrow>
               if PinnedServerName cl = '''' then ''VelociraptorServer''
               else PinnedServerName cl))"

section \<open>Organisations and client ids\<close>

definition IsRootOrg :: "string \<Rightarrow> bool" where
  "IsRootOrg org_id \<longleftrightarrow> org_id = '''' \<or> org_id = ''root''"

definition NormalizedOrgId :: "string \<Rightarrow> string" where
  "NormalizedOrgId org_id = (if IsRootOrg org_id then ''root'' else org_id)"

definition CompareOrgIds :: "string \<Rightarrow> string \<Rightarrow> bool" where
  "CompareOrgIds a b = (if IsRootOrg a \<and> IsRootOrg b then True else a = b)"

fun OrgIdInList :: "string \<Rightarrow> string list \<Rightarrow> bool" where
  "OrgIdInList org_id [] = False"
| "OrgIdInList org_id (i # list) =
     (if CompareOrgIds org_id i then True else OrgIdInList org_id list)"

definition ClientIdFromConfigObj :: "string \<Rightarrow> Config \<Rightarrow> string" where
  "ClientIdFromConfigObj source config_obj =
     (case Client config_obj of
        Some _ \<Rightarrow>
          (let org_id = OrgId config_obj
           in if IsRootOrg org_id then source else source @ ''-'' @ org_id)
      | None \<Rightarrow> source)"

definition ClientIdFromSource :: "string \<Rightarrow> string" where
  "ClientIdFromSource client_id = hd (split_on (CHR ''-'') client_id)"

definition ClientIdFromSourceAndOrg :: "string \<Rightarrow> string \<Rightarrow> string" where
  "ClientIdFromSourceAndOrg source org_id =
     (let source = ClientIdFromSource source
      in if IsRootOrg org_id then source else source @ ''-'' @ org_id)"

definition OrgIdFromClientId :: "string \<Rightarrow> string" where
  "OrgIdFromClientId client_id =
     (let parts = split_first (CHR ''-'') client_id
      in if length parts > 1 then parts ! 1 else '''')"

section \<open>Sessions, flows and hunts\<close>

definition SplitSessionIdToParentAndChild :: "string \<Rightarrow> string \<times> string" where
  "SplitSessionIdToParentAndChild sesion_id =
     (let parts = split_first (CHR ''/'') sesion_id
      in if length parts < 2 then (parts ! 0, '''') else (parts ! 0, parts ! 1))"

definition ExtractHuntId :: "string \<Rightarrow> string \<times> bool" where
  "ExtractHuntId flow_id =
     (let parts = split_on (CHR ''.'') flow_id
      in if length parts < 3 \<or> parts ! 2 \<noteq> ''H'' then ('''', False)
         else (''H.'' @ parts ! 1, True))"

definition CreateFlowIdFromHuntId :: "string \<Rightarrow> string" where
  "CreateFlowIdFromHuntId hunt_id =
     (let parts = split_first (CHR ''.'') hunt_id
      in if length parts \<noteq> 2 then ''F.'' @ hunt_id
         else ''F.'' @ parts ! 1 @ ''.H'')"

section \<open>Facts\<close>

lemma split_first_at [simp]:
  "c \<notin> set a \<Longrightarrow> split_first c (a @ c # b) = [a, b]"
proof -
  assume "c \<notin> set a"
  then have "takeWhile (\<lambda>x. x \<noteq> c) (a @ c # b) = a"
    by (induction a) auto
  then show ?thesis
    by (simp add: Let_def)
qed

lemma split_first_none [simp]: "c \<notin> set s \<Longrightarrow> split_first c s = [s]"
  by simp

declare split_first.simps [simp del]

lemma ClientIdFromSource_no_dash: "CHR ''-'' \<notin> set (ClientIdFromSource s)"
  by (auto simp: ClientIdFromSource_def hd_split_on dest: set_takeWhileD)

lemma ClientIdFromSource_id: "CHR ''-'' \<notin> set s \<Longrightarrow> ClientIdFromSource s = s"
  by (simp add: ClientIdFromSource_def split_on_no_sep)

lemma ClientIdFromSource_append:
  "CHR ''-'' \<notin> set s \<Longrightarrow> ClientIdFromSource (s @ CHR ''-'' # r) = s"
  by (simp add: ClientIdFromSource_def split_on_append)

lemma client_id_parts:
  "ClientIdFromSource (ClientIdFromSourceAndOrg s o_id) = ClientIdFromSource s"
  "OrgIdFromClientId (ClientIdFromSourceAndOrg s o_id) = (if IsRootOrg o_id then '''' else o_id)"
  using ClientIdFromSource_no_dash [of s]
  by (simp_all add: ClientIdFromSourceAndOrg_def ClientIdFromSource_append ClientIdFromSource_id
      OrgIdFromClientId_def Let_def)

lemma CompareOrgIds_normalized: "CompareOrgIds a b \<longleftrightarrow> NormalizedOrgId a = NormalizedOrgId b"
  by (auto simp: CompareOrgIds_def NormalizedOrgId_def IsRootOrg_def)

lemma OrgIdInList_iff: "OrgIdInList x xs \<longleftrightarrow> NormalizedOrgId x \<in> NormalizedOrgId ` set xs"
  by (induction xs) (auto simp: CompareOrgIds_normalized)

lemma ExtractHuntId_flow:
  "CHR ''.'' \<notin> set x \<Longrightarrow> ExtractHuntId (''F.'' @ x @ ''.H'') = (''H.'' @ x, True)"
  by (simp add: ExtractHuntId_def split_on_append Let_def numeral_2_eq_2)

lemma CreateFlowIdFromHuntId_hunt: "CreateFlowIdFromHuntId (''H.'' @ x) = ''F.'' @ x @ ''.H''"
  using split_first_at [of "CHR ''.''" "''H''" x] by (simp add: CreateFlowIdFromHuntId_def)

end
