(* ===== verification/Acls.thy ===== *)
theory Acls
  imports Ids "HOL-Library.List_Lexorder" "HOL-Library.Char_ord"
begin

text \<open>
  Access control tokens: the packages \<^verbatim>\<open>acls\<close> (\<^verbatim>\<open>acls.go\<close>, \<^verbatim>\<open>roles.go\<close>, \<^verbatim>\<open>policy.go\<close>,
  \<^verbatim>\<open>utils.go\<close>) and the token check of \<^verbatim>\<open>services/acl_manager.go\<close>. A token is the
  protobuf message \<^verbatim>\<open>ApiClientACL\<close>: one flag per permission, the list of roles and the
  publish queues. The lemmas relate the operations through the set of permissions a
  token grants (\<open>perms\<close>).
\<close>

section \<open>Permissions\<close>

text \<open>\<open>UNKNOWN_PERMISSION\<close> stands for the values of the Go integer type outside the
  constant block.\<close>

datatype ACL_PERMISSION =
    NO_PERMISSIONS
  | ANY_QUERY
  | PUBLISH
  | READ_RESULTS
  | LABEL_CLIENT
  | COLLECT_CLIENT
  | COLLECT_BASIC
  | START_HUNT
  | COLLECT_SERVER
  | ARTIFACT_WRITER
  | SERVER_ARTIFACT_WRITER
  | EXECVE
  | NOTEBOOK_EDITOR
  | SERVER_ADMIN
  | ORG_ADMIN
  | IMPERSONATION
  | FILESYSTEM_READ
  | FILESYSTEM_WRITE
  | NETWORK
  | MACHINE_STATE
  | PREPARE_RESULTS
  | DELETE_RESULTS
  | DATASTORE_ACCESS
  | UNKNOWN_PERMISSION int

fun permission_String :: "ACL_PERMISSION \<Rightarrow> string" where
  "permission_String NO_PERMISSIONS = ''NO_PERMISSIONS''"
| "permission_String ANY_QUERY = ''ANY_QUERY''"
| "permission_String PUBLISH = ''PUBLISH''"
| "permission_String READ_RESULTS = ''READ_RESULTS''"
| "permission_String LABEL_CLIENT = ''LABEL_CLIENT''"
| "permission_String COLLECT_CLIENT = ''COLLECT_CLIENT''"
| "permission_String COLLECT_BASIC = ''COLLECT_BASIC''"
| "permission_String START_HUNT = ''START_HUNT''"
| "permission_String COLLECT_SERVER = ''COLLECT_SERVER''"
| "permission_String ARTIFACT_WRITER = ''ARTIFACT_WRITER''"
| "permission_String SERVER_ARTIFACT_WRITER = ''SERVER_ARTIFACT_WRITER''"
| "permission_String EXECVE = ''EXECVE''"
| "permission_String NOTEBOOK_EDITOR = ''NOTEBOOK_EDITOR''"
| "permission_String SERVER_ADMIN = ''SERVER_ADMIN''"
| "permission_String ORG_ADMIN = ''ORG_ADMIN''"
| "permission_String IMPERSONATION = ''IMPERSONATION''"
| "permission_String FILESYSTEM_READ = ''FILESYSTEM_READ''"
| "permission_String FILESYSTEM_WRITE = ''FILESYSTEM_WRITE''"
| "permission_String NETWORK = ''NETWORK''"
| "permission_String MACHINE_STATE = ''MACHINE_STATE''"
| "permission_String PREPARE_RESULTS = ''PREPARE_RESULTS''"
| "permission_String DELETE_RESULTS = ''DELETE_RESULTS''"
| "permission_String DATASTORE_ACCESS = ''DATASTORE_ACCESS''"
| "permission_String (UNKNOWN_PERMISSION n) = show_int n"

definition GetPermission :: "(string \<Rightarrow> string) \<Rightarrow> string \<Rightarrow> ACL_PERMISSION" where
  "GetPermission u s =
     (let name = ToUpper u s in
      if name = ''NO_PERMISSIONS'' then NO_PERMISSIONS
      else if name = ''ANY_QUERY'' then ANY_QUERY
      else if name = ''PUBLISH'' then PUBLISH
      else if name = ''READ_RESULTS'' then READ_RESULTS
      else if name = ''LABEL_CLIENT'' then LABEL_CLIENT
      else if name = ''COLLECT_CLIENT'' then COLLECT_CLIENT
      else if name = ''COLLECT_BASIC'' then COLLECT_BASIC
      else if name = ''START_HUNT'' then START_HUNT
      else if name = ''COLLECT_SERVER'' then COLLECT_SERVER
      else if name = ''ARTIFACT_WRITER'' then ARTIFACT_WRITER
      else if name = ''SERVER_ARTIFACT_WRITER'' then SERVER_ARTIFACT_WRITER
      else if name = ''EXECVE'' then EXECVE
      else if name = ''NOTEBOOK_EDITOR'' then NOTEBOOK_EDITOR
      else if name = ''SERVER_ADMIN'' then SERVER_ADMIN
      else if name = ''ORG_ADMIN'' then ORG_ADMIN
      else if name = ''IMPERSONATION'' then IMPERSONATION
      else if name = ''FILESYSTEM_READ'' then FILESYSTEM_READ
      else if name = ''FILESYSTEM_WRITE'' then FILESYSTEM_WRITE
      else if name = ''NETWORK'' then NETWORK
      else if name = ''MACHINE_STATE'' then MACHINE_STATE
      else if name = ''PREPARE_RESULTS'' then PREPARE_RESULTS
      else if name = ''DELETE_RESULTS'' then DELETE_RESULTS
      else if name = ''DATASTORE_ACCESS'' then DATASTORE_ACCESS
      else NO_PERMISSIONS)"

section \<open>Tokens\<close>

record ApiClientACL =
  SuperUser :: bool
  AllQuery :: bool
  AnyQuery :: bool
  PublishQueues :: "string list"
  ReadResults :: bool
  LabelClients :: bool
  CollectClient :: bool
  CollectBasic :: bool
  StartHunt :: bool
  CollectServer :: bool
  ArtifactWriter :: bool
  ServerArtifactWriter :: bool
  Execve :: bool
  NotebookEditor :: bool
  OrgAdmin :: bool
  Impersonation :: bool
  ServerAdmin :: bool
  FilesystemRead :: bool
  FilesystemWrite :: bool
  Network :: bool
  MachineState :: bool
  PrepareResults :: bool
  DeleteResults :: bool
  DatastoreAccess :: bool
  Roles :: "string list"

text \<open>\<^verbatim>\<open>&acl_proto.ApiClientACL{}\<close>: the zero value.\<close>

definition empty_acl :: ApiClientACL where
  "empty_acl =
     \<lparr>SuperUser = False,
      AllQuery = False,
      AnyQuery = False,
      PublishQueues = [],
      ReadResults = False,
      LabelClients = False,
      CollectClient = False,
      CollectBasic = False,
      StartHunt = False,
      CollectServer = False,
      ArtifactWriter = False,
      ServerArtifactWriter = False,
      Execve = False,
      NotebookEditor = False,
      OrgAdmin = False,
      Impersonation = False,
      ServerAdmin = False,
      FilesystemRead = False,
      FilesystemWrite = False,
      Network = False,
      MachineState = False,
      PrepareResults = False,
      DeleteResults = False,
      DatastoreAccess = False,
      Roles = []\<rparr>"

definition ALL_ROLES :: "string list" where
  "ALL_ROLES = [''org_admin'', ''administrator'', ''reader'', ''analyst'', ''investigator'',
     ''artifact_writer'', ''api'']"

definition ALL_PERMISSIONS :: "string list" where
  "ALL_PERMISSIONS =
     [''ANY_QUERY'',
      ''READ_RESULTS'',
      ''LABEL_CLIENT'',
      ''COLLECT_CLIENT'',
      ''COLLECT_BASIC'',
      ''START_HUNT'',
      ''COLLECT_SERVER'',
      ''ARTIFACT_WRITER'',
      ''SERVER_ARTIFACT_WRITER'',
      ''EXECVE'',
      ''NOTEBOOK_EDITOR'',
      ''SERVER_ADMIN'',
      ''ORG_ADMIN'',
      ''IMPERSONATION'',
      ''FILESYSTEM_READ'',
      ''FILESYSTEM_WRITE'',
      ''NETWORK'',
      ''MACHINE_STATE'',
      ''PREPARE_RESULTS'',
      ''DELETE_RESULTS'',
      ''DATASTORE_ACCESS'']"

definition ValidateRole :: "string \<Rightarrow> bool" where
  "ValidateRole role = InString ALL_ROLES role"

definition DescribePermissions :: "ApiClientACL \<Rightarrow> string list" where
  "DescribePermissions token =
     (if AnyQuery token then [''ANY_QUERY''] else []) @
     (if ReadResults token then [''READ_RESULTS''] else []) @
     (if LabelClients token then [''LABEL_CLIENT''] else []) @
     (if CollectClient token then [''COLLECT_CLIENT''] else []) @
     (if CollectBasic token then [''COLLECT_BASIC''] else []) @
     (if StartHunt token then [''START_HUNT''] else []) @
     (if CollectServer token then [''COLLECT_SERVER''] else []) @
     (if ArtifactWriter token then [''ARTIFACT_WRITER''] else []) @
     (if ServerArtifactWriter token then [''SERVER_ARTIFACT_WRITER''] else []) @
     (if Execve token then [''EXECVE''] else []) @
     (if NotebookEditor token then [''NOTEBOOK_EDITOR''] else []) @
     (if ServerAdmin token then [''SERVER_ADMIN''] else []) @
     (if OrgAdmin token then [''ORG_ADMIN''] else []) @
     (if Impersonation token then [''IMPERSONATION''] else []) @
     (if FilesystemRead token then [''FILESYSTEM_READ''] else []) @
     (if FilesystemWrite token then [''FILESYSTEM_WRITE''] else []) @
     (if Network token then [''NETWORK''] else []) @
     (if MachineState token then [''MACHINE_STATE''] else []) @
     (if PrepareResults token then [''PREPARE_RESULTS''] else []) @
     (if DeleteResults token then [''DELETE_RESULTS''] else []) @
     (if DatastoreAccess token then [''DATASTORE_ACCESS''] else [])"

text \<open>The \<^verbatim>\<open>switch\<close> of \<^verbatim>\<open>SetTokenPermission\<close> on the upper case name; \<open>None\<close> is its
  \<^verbatim>\<open>default\<close> branch.\<close>

definition set_permission :: "string \<Rightarrow> ApiClientACL \<Rightarrow> ApiClientACL option" where
  "set_permission perm token =
     (if perm = ''ANY_QUERY'' then Some (token\<lparr>AnyQuery := True\<rparr>)
      else if perm = ''READ_RESULTS'' then Some (token\<lparr>ReadResults := True\<rparr>)
      else if perm = ''LABEL_CLIENT'' then Some (token\<lparr>LabelClients := True\<rparr>)
      else if perm = ''COLLECT_CLIENT'' then Some (token\<lparr>CollectClient := True\<rparr>)
      else if perm = ''COLLECT_BASIC'' then Some (token\<lparr>CollectBasic := True\<rparr>)
      else if perm = ''START_HUNT'' then Some (token\<lparr>StartHunt := True\<rparr>)
      else if perm = ''COLLECT_SERVER'' then Some (token\<lparr>CollectServer := True\<rparr>)
      else if perm = ''ARTIFACT_WRITER'' then Some (token\<lparr>ArtifactWriter := True\<rparr>)
      else if perm = ''SERVER_ARTIFACT_WRITER'' then Some (token\<lparr>ServerArtifactWriter := True\<rparr>)
      else if perm = ''EXECVE'' then Some (token\<lparr>Execve := True\<rparr>)
      else if perm = ''NOTEBOOK_EDITOR'' then Some (token\<lparr>NotebookEditor := True\<rparr>)
      else if perm = ''SERVER_ADMIN'' then Some (token\<lparr>ServerAdmin := True\<rparr>)
      else if perm = ''ORG_ADMIN'' then Some (token\<lparr>OrgAdmin := True\<rparr>)
      else if perm = ''IMPERSONATION'' then Some (token\<lparr>Impersonation := True\<rparr>)
      else if perm = ''FILESYSTEM_READ'' then Some (token\<lparr>FilesystemRead := True\<rparr>)
      else if perm = ''FILESYSTEM_WRITE'' then Some (token\<lparr>FilesystemWrite := True\<rparr>)
      else if perm = ''NETWORK'' then Some (token\<lparr>Network := True\<rparr>)
      else if perm = ''MACHINE_STATE'' then Some (token\<lparr>MachineState := True\<rparr>)
      else if perm = ''PREPARE_RESULTS'' then Some (token\<lparr>PrepareResults := True\<rparr>)
      else if perm = ''DELETE_RESULTS'' then Some (token\<lparr>DeleteResults := True\<rparr>)
      else if perm = ''DATASTORE_ACCESS'' then Some (token\<lparr>DatastoreAccess := True\<rparr>)
      else None)"

text \<open>The loop returns at the first unknown name; the token keeps what was set so far.\<close>

fun SetTokenPermission ::
  "(string \<Rightarrow> string) \<Rightarrow> ApiClientACL \<Rightarrow> string list \<Rightarrow> ApiClientACL \<times> go_error option" where
  "SetTokenPermission u token [] = (token, None)"
| "SetTokenPermission u token (perm # permissions) =
     (case set_permission (ToUpper u perm) token of
        Some t \<Rightarrow> SetTokenPermission u t permissions
      | None \<Rightarrow> (token, Some (Errorf ''Unknown permission'')))"

section \<open>Roles\<close>

text \<open>The body of the loop of \<^verbatim>\<open>GetRolePermissions\<close>; \<open>None\<close> for an unknown role.\<close>

definition role_permissions ::
  "Config option \<Rightarrow> string \<Rightarrow> ApiClientACL \<Rightarrow> ApiClientACL option" where
  "role_permissions config_obj role result =
     (if role = ''org_admin'' then Some (result\<lparr>OrgAdmin := True\<rparr>)
      else if role = ''administrator'' then
        (let r = result
           \<lparr>AnyQuery := True, ReadResults := True, Impersonation := True, LabelClients := True,
            CollectClient := True, CollectBasic := True, StartHunt := True, CollectServer := True,
            ArtifactWriter := True, ServerArtifactWriter := True, Execve := True,
            NotebookEditor := True, ServerAdmin := True, FilesystemRead := True,
            FilesystemWrite := True, Network := True, MachineState := True,
            PrepareResults := True, DeleteResults := True\<rparr>
         in case config_obj of
              Some c \<Rightarrow> Some (if IsRootOrg (OrgId c) then r\<lparr>OrgAdmin := True\<rparr> else r)
            | None \<Rightarrow> Some r)
      else if role = ''reader'' then Some (result\<lparr>ReadResults := True\<rparr>)
      else if role = ''api'' then Some (result\<lparr>AnyQuery := True, ReadResults := True\<rparr>)
      else if role = ''analyst'' then
        Some (result\<lparr>ReadResults := True, NotebookEditor := True, LabelClients := True,
               AnyQuery := True, PrepareResults := True\<rparr>)
      else if role = ''investigator'' then
        Some (result\<lparr>ReadResults := True, NotebookEditor := True, CollectClient := True,
               StartHunt := True, LabelClients := True, AnyQuery := True,
               PrepareResults := True\<rparr>)
      else if role = ''artifact_writer'' then Some (result\<lparr>ArtifactWriter := True\<rparr>)
      else None)"

fun GetRolePermissions ::
  "Config option \<Rightarrow> string list \<Rightarrow> ApiClientACL \<Rightarrow> ApiClientACL \<times> go_error option" where
  "GetRolePermissions config_obj [] result = (result\<lparr>Roles := []\<rparr>, None)"
| "GetRolePermissions config_obj (role # roles) result =
     (case role_permissions config_obj role result of
        Some r \<Rightarrow> GetRolePermissions config_obj roles r
      | None \<Rightarrow> (result, Some (Errorf ''Unknown role'')))"

section \<open>Checking a token\<close>

text \<open>\<^verbatim>\<open>CheckAccessWithToken\<close>; its error result is nil on every branch. A permission
  without a case (among them \<open>NO_PERMISSIONS\<close>) is refused.\<close>

fun CheckAccessWithToken :: "ApiClientACL \<Rightarrow> ACL_PERMISSION \<Rightarrow> string list \<Rightarrow> bool" where
  "CheckAccessWithToken token permission args =
     (if SuperUser token then True
      else (case permission of
         ANY_QUERY \<Rightarrow> AnyQuery token
       | PUBLISH \<Rightarrow> length args = 1 \<and> InString (PublishQueues token) (args ! 0)
       | READ_RESULTS \<Rightarrow> ReadResults token
       | LABEL_CLIENT \<Rightarrow> LabelClients token
       | COLLECT_CLIENT \<Rightarrow> CollectClient token
       | COLLECT_BASIC \<Rightarrow> CollectBasic token
       | START_HUNT \<Rightarrow> StartHunt token
       | COLLECT_SERVER \<Rightarrow> CollectServer token
       | ARTIFACT_WRITER \<Rightarrow> ArtifactWriter token
       | SERVER_ARTIFACT_WRITER \<Rightarrow> ServerArtifactWriter token
       | EXECVE \<Rightarrow> Execve token
       | NOTEBOOK_EDITOR \<Rightarrow> NotebookEditor token
       | SERVER_ADMIN \<Rightarrow> ServerAdmin token
       | ORG_ADMIN \<Rightarrow> OrgAdmin token
       | IMPERSONATION \<Rightarrow> Impersonation token
       | FILESYSTEM_READ \<Rightarrow> FilesystemRead token
       | FILESYSTEM_WRITE \<Rightarrow> FilesystemWrite token
       | NETWORK \<Rightarrow> Network token
       | MACHINE_STATE \<Rightarrow> MachineState token
       | PREPARE_RESULTS \<Rightarrow> PrepareResults token
       | DELETE_RESULTS \<Rightarrow> DeleteResults token
       | DATASTORE_ACCESS \<Rightarrow> DatastoreAccess token
       | _ \<Rightarrow> False))"

section \<open>Merging and comparing\<close>

text \<open>\<^verbatim>\<open>MergeACL\<close>: roles are concatenated and deduplicated, every boolean field of the
  copy is set when it is set in \<open>new\<close>; the other fields are those of \<open>old\<close>.\<close>

definition MergeACL :: "ApiClientACL \<Rightarrow> ApiClientACL \<Rightarrow> ApiClientACL" where
  "MergeACL old new =
     old\<lparr>Roles := DeduplicateStringSlice (Roles old @ Roles new),
       SuperUser := (if \<not> SuperUser old then SuperUser new else True),
       AllQuery := (if \<not> AllQuery old then AllQuery new else True),
       AnyQuery := (if \<not> AnyQuery old then AnyQuery new else True),
       ReadResults := (if \<not> ReadResults old then ReadResults new else True),
       LabelClients := (if \<not> LabelClients old then LabelClients new else True),
       CollectClient := (if \<not> CollectClient old then CollectClient new else True),
       CollectBasic := (if \<not> CollectBasic old then CollectBasic new else True),
       StartHunt := (if \<not> StartHunt old then StartHunt new else True),
       CollectServer := (if \<not> CollectServer old then CollectServer new else True),
       ArtifactWriter := (if \<not> ArtifactWriter old then ArtifactWriter new else True),
       ServerArtifactWriter := (if \<not> ServerArtifactWriter old then ServerArtifactWriter new else True),
       Execve := (if \<not> Execve old then Execve new else True),
       NotebookEditor := (if \<not> NotebookEditor old then NotebookEditor new else True),
       OrgAdmin := (if \<not> OrgAdmin old then OrgAdmin new else True),
       Impersonation := (if \<not> Impersonation old then Impersonation new else True),
       ServerAdmin := (if \<not> ServerAdmin old then ServerAdmin new else True),
       FilesystemRead := (if \<not> FilesystemRead old then FilesystemRead new else True),
       FilesystemWrite := (if \<not> FilesystemWrite old then FilesystemWrite new else True),
       Network := (if \<not> Network old then Network new else True),
       MachineState := (if \<not> MachineState old then MachineState new else True),
       PrepareResults := (if \<not> PrepareResults old then PrepareResults new else True),
       DeleteResults := (if \<not> DeleteResults old then DeleteResults new else True),
       DatastoreAccess := (if \<not> DatastoreAccess old then DatastoreAccess new else True)\<rparr>"

text \<open>\<^verbatim>\<open>ACLEqual\<close> takes pointers, sorts the roles of both objects in place and compares
  the \<^emph>\<open>pointers\<close> (\<^verbatim>\<open>a == b\<close>). The heap of tokens is a list, a pointer an index of it.\<close>

type_synonym acl_heap = "ApiClientACL list"

definition sort_roles :: "acl_heap \<Rightarrow> nat \<Rightarrow> acl_heap" where
  "sort_roles h p = h[p := (h ! p)\<lparr>Roles := sort (Roles (h ! p))\<rparr>]"

definition ACLEqual :: "acl_heap \<Rightarrow> nat \<Rightarrow> nat \<Rightarrow> acl_heap \<times> bool" where
  "ACLEqual h a b =
     (let h1 = sort_roles h a; h2 = sort_roles h1 b
      in (h2, StringSliceEq (Roles (h2 ! a)) (Roles (h2 ! b)) \<and> a = b))"

text \<open>\<^verbatim>\<open>OidcClaimsGetter.shouldUpdateACLs\<close>: the merged token is a new object at the end of
  the heap. The result is the heap, the token to use and whether to store it.\<close>

definition shouldUpdateACLs :: "bool \<Rightarrow> acl_heap \<Rightarrow> nat \<Rightarrow> nat \<Rightarrow> acl_heap \<times> nat \<times> bool" where
  "shouldUpdateACLs OverrideAcls h new_acl existing_acls =
     (if OverrideAcls then
        (let (h', eq) = ACLEqual h new_acl existing_acls in (h', new_acl, \<not> eq))
      else
        (let merged = length h;
             (h', eq) = ACLEqual (h @ [MergeACL (h ! existing_acls) (h ! new_acl)])
                          merged existing_acls
         in (h', merged, \<not> eq)))"

section \<open>Parsing a policy\<close>

text \<open>The exported fields of the message by their JSON names, in declaration order, with
  what \<^verbatim>\<open>ParsePolicyFromDict\<close> does for each: the two lists, the ignored super user flag,
  and the boolean fields of the \<^verbatim>\<open>default\<close> case.\<close>

datatype policy_field =
    RolesField
  | PublishQueuesField
  | SuperUserField
  | BoolField "bool \<Rightarrow> ApiClientACL \<Rightarrow> ApiClientACL"

definition policy_fields :: "(string \<times> policy_field) list" where
  "policy_fields =
     [(''super_user'', SuperUserField),
      (''all_query'', BoolField (\<lambda>b. AllQuery_update (\<lambda>_. b))),
      (''any_query'', BoolField (\<lambda>b. AnyQuery_update (\<lambda>_. b))),
      (''publish_queues'', PublishQueuesField),
      (''read_results'', BoolField (\<lambda>b. ReadResults_update (\<lambda>_. b))),
      (''label_clients'', BoolField (\<lambda>b. LabelClients_update (\<lambda>_. b))),
      (''collect_client'', BoolField (\<lambda>b. CollectClient_update (\<lambda>_. b))),
      (''collect_basic'', BoolField (\<lambda>b. CollectBasic_update (\<lambda>_. b))),
      (''start_hunt'', BoolField (\<lambda>b. StartHunt_update (\<lambda>_. b))),
      (''collect_server'', BoolField (\<lambda>b. CollectServer_update (\<lambda>_. b))),
      (''artifact_writer'', BoolField (\<lambda>b. ArtifactWriter_update (\<lambda>_. b))),
      (''server_artifact_writer'', BoolField (\<lambda>b. ServerArtifactWriter_update (\<lambda>_. b))),
      (''execve'', BoolField (\<lambda>b. Execve_update (\<lambda>_. b))),
      (''notebook_editor'', BoolField (\<lambda>b. NotebookEditor_update (\<lambda>_. b))),
      (''org_admin'', BoolField (\<lambda>b. OrgAdmin_update (\<lambda>_. b))),
      (''impersonation'', BoolField (\<lambda>b. Impersonation_update (\<lambda>_. b))),
      (''server_admin'', BoolField (\<lambda>b. ServerAdmin_update (\<lambda>_. b))),
      (''filesystem_read'', BoolField (\<lambda>b. FilesystemRead_update (\<lambda>_. b))),
      (''filesystem_write'', BoolField (\<lambda>b. FilesystemWrite_update (\<lambda>_. b))),
      (''network'', BoolField (\<lambda>b. Network_update (\<lambda>_. b))),
      (''machine_state'', BoolField (\<lambda>b. MachineState_update (\<lambda>_. b))),
      (''prepare_results'', BoolField (\<lambda>b. PrepareResults_update (\<lambda>_. b))),
      (''delete_results'', BoolField (\<lambda>b. DeleteResults_update (\<lambda>_. b))),
      (''datastore_access'', BoolField (\<lambda>b. DatastoreAccess_update (\<lambda>_. b))),
      (''roles'', RolesField)]"

text \<open>One iteration of the field loop. \<open>get_strings\<close> is \<^verbatim>\<open>Dict.GetStrings\<close> on the value of
  the field (if present) and \<open>scope_bool\<close> is \<^verbatim>\<open>scope.Bool\<close>, both of third party packages.
  The state is the message under construction and the keys of \<^verbatim>\<open>policy_map\<close> left over.\<close>

definition parse_policy_field ::
  "('v option \<Rightarrow> string list) \<Rightarrow> ('v \<Rightarrow> bool) \<Rightarrow> (string \<times> 'v) list \<Rightarrow>
   string \<times> policy_field \<Rightarrow> ApiClientACL \<times> string list \<Rightarrow> ApiClientACL \<times> string list" where
  "parse_policy_field get_strings scope_bool d f st =
     (let (field_name, kind) = f; (result, policy_map) = st; value = map_of d field_name;
          rest = FilterSlice policy_map field_name
      in case kind of
           RolesField \<Rightarrow> (result\<lparr>Roles := get_strings value\<rparr>, rest)
         | PublishQueuesField \<Rightarrow> (result\<lparr>PublishQueues := get_strings value\<rparr>, rest)
         | SuperUserField \<Rightarrow> (result, rest)
         | BoolField upd \<Rightarrow>
             (case value of
                None \<Rightarrow> (result, policy_map)
              | Some v \<Rightarrow> (upd (scope_bool v) result, rest)))"

definition ParsePolicyFromDict ::
  "('v option \<Rightarrow> string list) \<Rightarrow> ('v \<Rightarrow> bool) \<Rightarrow> (string \<times> 'v) list \<Rightarrow> ApiClientACL result" where
  "ParsePolicyFromDict get_strings scope_bool d =
     (let (result, policy_map) =
        fold (parse_policy_field get_strings scope_bool d) policy_fields (empty_acl, map fst d)
      in if policy_map \<noteq> [] then Err InvalidArgError else Ok result)"

section \<open>The permissions of a token\<close>

definition perms :: "ApiClientACL \<Rightarrow> ACL_PERMISSION set" where
  "perms t = {p. CheckAccessWithToken t p []}"

definition role_perms :: "Config option \<Rightarrow> string \<Rightarrow> ACL_PERMISSION set" where
  "role_perms config_obj role =
     (case role_permissions config_obj role empty_acl of Some t \<Rightarrow> perms t | None \<Rightarrow> {})"

text \<open>Permissions that only the administrator role confers (or a direct grant).\<close>

definition admin_only :: "ACL_PERMISSION set" where
  "admin_only = {COLLECT_BASIC, COLLECT_SERVER, SERVER_ARTIFACT_WRITER, EXECVE, SERVER_ADMIN,
     IMPERSONATION, FILESYSTEM_READ, FILESYSTEM_WRITE, NETWORK, MACHINE_STATE, DELETE_RESULTS,
     DATASTORE_ACCESS}"

section \<open>Facts\<close>

declare CheckAccessWithToken.simps [simp del]

lemmas token_simps [acl_simps] = perms_def CheckAccessWithToken.simps

lemma perms_SuperUser: "SuperUser t \<Longrightarrow> perms t = UNIV"
  by (simp add: acl_simps)

lemma perms_empty [simp]: "perms empty_acl = {}"
  by (rule set_eqI, rename_tac p, case_tac p; simp add: acl_simps empty_acl_def)

lemma SuperUser_empty [simp]: "\<not> SuperUser empty_acl"
  by (simp add: empty_acl_def)

lemma perms_Roles_update [simp]: "perms (t\<lparr>Roles := rs\<rparr>) = perms t"
  by (rule set_eqI, rename_tac p, case_tac p; simp add: acl_simps)

lemma not_granted [simp]:
  "\<not> SuperUser t \<Longrightarrow> NO_PERMISSIONS \<notin> perms t"
  "\<not> SuperUser t \<Longrightarrow> PUBLISH \<notin> perms t"
  "\<not> SuperUser t \<Longrightarrow> UNKNOWN_PERMISSION n \<notin> perms t"
  by (simp_all add: acl_simps)

lemma perms_field_updates:
  assumes "\<not> SuperUser t"
  shows "perms (t\<lparr>AnyQuery := True\<rparr>) = insert ANY_QUERY (perms t)"
    "perms (t\<lparr>ReadResults := True\<rparr>) = insert READ_RESULTS (perms t)"
    "perms (t\<lparr>LabelClients := True\<rparr>) = insert LABEL_CLIENT (perms t)"
    "perms (t\<lparr>CollectClient := True\<rparr>) = insert COLLECT_CLIENT (perms t)"
    "perms (t\<lparr>CollectBasic := True\<rparr>) = insert COLLECT_BASIC (perms t)"
    "perms (t\<lparr>StartHunt := True\<rparr>) = insert START_HUNT (perms t)"
    "perms (t\<lparr>CollectServer := True\<rparr>) = insert COLLECT_SERVER (perms t)"
    "perms (t\<lparr>ArtifactWriter := True\<rparr>) = insert ARTIFACT_WRITER (perms t)"
    "perms (t\<lparr>ServerArtifactWriter := True\<rparr>) = insert SERVER_ARTIFACT_WRITER (perms t)"
    "perms (t\<lparr>Execve := True\<rparr>) = insert EXECVE (perms t)"
    "perms (t\<lparr>NotebookEditor := True\<rparr>) = insert NOTEBOOK_EDITOR (perms t)"
    "perms (t\<lparr>ServerAdmin := True\<rparr>) = insert SERVER_ADMIN (perms t)"
    "perms (t\<lparr>OrgAdmin := True\<rparr>) = insert ORG_ADMIN (perms t)"
    "perms (t\<lparr>Impersonation := True\<rparr>) = insert IMPERSONATION (perms t)"
    "perms (t\<lparr>FilesystemRead := True\<rparr>) = insert FILESYSTEM_READ (perms t)"
    "perms (t\<lparr>FilesystemWrite := True\<rparr>) = insert FILESYSTEM_WRITE (perms t)"
    "perms (t\<lparr>Network := True\<rparr>) = insert NETWORK (perms t)"
    "perms (t\<lparr>MachineState := True\<rparr>) = insert MACHINE_STATE (perms t)"
    "perms (t\<lparr>PrepareResults := True\<rparr>) = insert PREPARE_RESULTS (perms t)"
    "perms (t\<lparr>DeleteResults := True\<rparr>) = insert DELETE_RESULTS (perms t)"
    "perms (t\<lparr>DatastoreAccess := True\<rparr>) = insert DATASTORE_ACCESS (perms t)"
  by (rule set_eqI, rename_tac p, case_tac p; simp add: acl_simps assms)+

subsection \<open>Setting single permissions\<close>

lemma set_permission_SuperUser:
  "set_permission n t = Some t' \<Longrightarrow> SuperUser t' = SuperUser t"
  by (auto simp: set_permission_def split: if_splits)

lemma set_permission_perms:
  assumes "set_permission n t = Some t'" and "\<not> SuperUser t"
  shows "\<exists>p. permission_String p = n \<and> perms t' = insert p (perms t)"
  using assms
  unfolding set_permission_def
  by (simp add: perms_field_updates split: if_splits)
    (metis permission_String.simps perms_field_updates)+

subsection \<open>Roles\<close>

lemma role_permissions_SuperUser:
  "role_permissions c r t = Some t' \<Longrightarrow> SuperUser t' = SuperUser t"
  by (auto simp: role_permissions_def Let_def split: if_splits option.splits)

lemma role_permissions_perms:
  assumes "role_permissions c r t = Some t'" and "\<not> SuperUser t"
  shows "perms t' = perms t \<union> role_perms c r"
  using assms
  by (auto simp: role_permissions_def role_perms_def Let_def perms_field_updates
      split: if_splits option.splits)

lemma role_permissions_ValidateRole: "role_permissions c r t = None \<longleftrightarrow> \<not> ValidateRole r"
  by (auto simp: role_permissions_def ValidateRole_def ALL_ROLES_def Let_def
      split: if_splits option.splits)

lemma GetRolePermissions_perms:
  assumes "GetRolePermissions c rs t = (t', None)" and "\<not> SuperUser t"
  shows "perms t' = perms t \<union> (\<Union>r \<in> set rs. role_perms c r) \<and> \<not> SuperUser t' \<and> Roles t' = []"
  using assms
proof (induction c rs t rule: GetRolePermissions.induct)
  case (1 c t)
  then show ?case by auto
next
  case (2 c r rs t)
  from "2.prems" obtain t1 where t1: "role_permissions c r t = Some t1"
    and rest: "GetRolePermissions c rs t1 = (t', None)"
    by (auto split: option.splits)
  from role_permissions_SuperUser [OF t1] role_permissions_perms [OF t1] "2.prems"(2)
  show ?case
    using "2.IH" [OF t1 rest] by auto
qed

lemma GetRolePermissions_ok:
  "snd (GetRolePermissions c rs t) = None \<longleftrightarrow> (\<forall>r \<in> set rs. ValidateRole r)"
proof (induction c rs t rule: GetRolePermissions.induct)
  case (2 c r rs t)
  then show ?case
    using role_permissions_ValidateRole [of c r t] by (cases "role_permissions c r t") auto
qed simp

lemma GetRolePermissions_error:
  "snd (GetRolePermissions c rs t) \<in> {None, Some (Errorf ''Unknown role'')}"
  by (induction c rs t rule: GetRolePermissions.induct) (auto split: option.splits)

lemma role_perms_simps:
  "role_perms c ''org_admin'' = {ORG_ADMIN}"
  "role_perms c ''reader'' = {READ_RESULTS}"
  "role_perms c ''api'' = {ANY_QUERY, READ_RESULTS}"
  "role_perms c ''analyst'' =
     {READ_RESULTS, NOTEBOOK_EDITOR, LABEL_CLIENT, ANY_QUERY, PREPARE_RESULTS}"
  "role_perms c ''investigator'' =
     {READ_RESULTS, NOTEBOOK_EDITOR, COLLECT_CLIENT, START_HUNT, LABEL_CLIENT, ANY_QUERY,
      PREPARE_RESULTS}"
  "role_perms c ''artifact_writer'' = {ARTIFACT_WRITER}"
  by (auto simp: role_perms_def role_permissions_def perms_field_updates)

lemma role_perms_invalid: "\<not> ValidateRole r \<Longrightarrow> role_perms c r = {}"
  using role_permissions_ValidateRole [of c r empty_acl] by (simp add: role_perms_def)

lemma role_perms_admin_only:
  assumes "r \<noteq> ''administrator''"
  shows "role_perms c r \<inter> admin_only = {}"
proof (cases "ValidateRole r")
  case True
  with assms have "r \<in> {''org_admin'', ''reader'', ''analyst'', ''investigator'',
     ''artifact_writer'', ''api''}"
    by (auto simp: ValidateRole_def ALL_ROLES_def)
  then show ?thesis
    by (auto simp: role_perms_simps admin_only_def)
qed (simp add: role_perms_invalid)

lemma role_perms_no_datastore: "DATASTORE_ACCESS \<notin> role_perms c r"
proof (cases "r = ''administrator''")
  case True
  then show ?thesis
    by (auto simp: role_perms_def role_permissions_def perms_field_updates Let_def
        split: option.splits)
next
  case False
  then show ?thesis
    using role_perms_admin_only [of r c] by (auto simp: admin_only_def)
qed



subsection \<open>Names\<close>

lemma GetPermission_String:
  "p \<notin> range UNKNOWN_PERMISSION \<Longrightarrow> GetPermission u (permission_String p) = p"
  by (cases p) (simp_all add: GetPermission_def go_simps)

lemma set_permission_ALL_PERMISSIONS:
  "set_permission n t = None \<longleftrightarrow> n \<notin> set ALL_PERMISSIONS"
  by (auto simp: set_permission_def ALL_PERMISSIONS_def split: if_splits)

lemma SetTokenPermission_ok:
  "snd (SetTokenPermission u t ns) = None \<longleftrightarrow> (\<forall>n \<in> set ns. ToUpper u n \<in> set ALL_PERMISSIONS)"
proof (induction u t ns rule: SetTokenPermission.induct)
  case (2 u t n ns)
  then show ?case
    using set_permission_ALL_PERMISSIONS [of "ToUpper u n" t]
    by (cases "set_permission (ToUpper u n) t") auto
qed simp

text \<open>One lemma per segment of the description: setting it again restores the flag.\<close>

lemma SetTokenPermission_segments:
  "SetTokenPermission u t ((if b then [''ANY_QUERY''] else []) @ ys) =
     SetTokenPermission u (AnyQuery_update (\<lambda>x. x \<or> b) t) ys"
  "SetTokenPermission u t ((if b then [''READ_RESULTS''] else []) @ ys) =
     SetTokenPermission u (ReadResults_update (\<lambda>x. x \<or> b) t) ys"
  "SetTokenPermission u t ((if b then [''LABEL_CLIENT''] else []) @ ys) =
     SetTokenPermission u (LabelClients_update (\<lambda>x. x \<or> b) t) ys"
  "SetTokenPermission u t ((if b then [''COLLECT_CLIENT''] else []) @ ys) =
     SetTokenPermission u (CollectClient_update (\<lambda>x. x \<or> b) t) ys"
  "SetTokenPermission u t ((if b then [''COLLECT_BASIC''] else []) @ ys) =
     SetTokenPermission u (CollectBasic_update (\<lambda>x. x \<or> b) t) ys"
  "SetTokenPermission u t ((if b then [''START_HUNT''] else []) @ ys) =
     SetTokenPermission u (StartHunt_update (\<lambda>x. x \<or> b) t) ys"
  "SetTokenPermission u t ((if b then [''COLLECT_SERVER''] else []) @ ys) =
     SetTokenPermission u (CollectServer_update (\<lambda>x. x \<or> b) t) ys"
  "SetTokenPermission u t ((if b then [''ARTIFACT_WRITER''] else []) @ ys) =
     SetTokenPermission u (ArtifactWriter_update (\<lambda>x. x \<or> b) t) ys"
  "SetTokenPermission u t ((if b then [''SERVER_ARTIFACT_WRITER''] else []) @ ys) =
     SetTokenPermission u (ServerArtifactWriter_update (\<lambda>x. x \<or> b) t) ys"
  "SetTokenPermission u t ((if b then [''EXECVE''] else []) @ ys) =
     SetTokenPermission u (Execve_update (\<lambda>x. x \<or> b) t) ys"
  "SetTokenPermission u t ((if b then [''NOTEBOOK_EDITOR''] else []) @ ys) =
     SetTokenPermission u (NotebookEditor_update (\<lambda>x. x \<or> b) t) ys"
  "SetTokenPermission u t ((if b then [''SERVER_ADMIN''] else []) @ ys) =
     SetTokenPermission u (ServerAdmin_update (\<lambda>x. x \<or> b) t) ys"
  "SetTokenPermission u t ((if b then [''ORG_ADMIN''] else []) @ ys) =
     SetTokenPermission u (OrgAdmin_update (\<lambda>x. x \<or> b) t) ys"
  "SetTokenPermission u t ((if b then [''IMPERSONATION''] else []) @ ys) =
     SetTokenPermission u (Impersonation_update (\<lambda>x. x \<or> b) t) ys"
  "SetTokenPermission u t ((if b then [''FILESYSTEM_READ''] else []) @ ys) =
     SetTokenPermission u (FilesystemRead_update (\<lambda>x. x \<or> b) t) ys"
  "SetTokenPermission u t ((if b then [''FILESYSTEM_WRITE''] else []) @ ys) =
     SetTokenPermission u (FilesystemWrite_update (\<lambda>x. x \<or> b) t) ys"
  "SetTokenPermission u t ((if b then [''NETWORK''] else []) @ ys) =
     SetTokenPermission u (Network_update (\<lambda>x. x \<or> b) t) ys"
  "SetTokenPermission u t ((if b then [''MACHINE_STATE''] else []) @ ys) =
     SetTokenPermission u (MachineState_update (\<lambda>x. x \<or> b) t) ys"
  "SetTokenPermission u t ((if b then [''PREPARE_RESULTS''] else []) @ ys) =
     SetTokenPermission u (PrepareResults_update (\<lambda>x. x \<or> b) t) ys"
  "SetTokenPermission u t ((if b then [''DELETE_RESULTS''] else []) @ ys) =
     SetTokenPermission u (DeleteResults_update (\<lambda>x. x \<or> b) t) ys"
  "SetTokenPermission u t ((if b then [''DATASTORE_ACCESS''] else []) @ ys) =
     SetTokenPermission u (DatastoreAccess_update (\<lambda>x. x \<or> b) t) ys"
  by (cases t; simp add: set_permission_def go_simps)+


text \<open>Describing a token and granting the described permissions to an empty token
  gives back every permission flag of the token; only the super user flag, the legacy
  \<^verbatim>\<open>all_query\<close> flag, the queues and the roles, which have no permission name, are lost.
  In particular every name that the description produces is accepted.\<close>

theorem describe_set_roundtrip:
  "SetTokenPermission u empty_acl (DescribePermissions t) =
     (t\<lparr>SuperUser := False, AllQuery := False, PublishQueues := [], Roles := []\<rparr>, None)"
proof -
  have last: "SetTokenPermission u t' (if b then [''DATASTORE_ACCESS''] else []) =
     (DatastoreAccess_update (\<lambda>x. x \<or> b) t', None)" for t' b
    using SetTokenPermission_segments(21) [of u t' b "[]"] by simp
  show ?thesis
    unfolding DescribePermissions_def
    by (simp only: append_assoc SetTokenPermission_segments last) (cases t, simp add: empty_acl_def)
qed

subsection \<open>Merging and comparing\<close>

lemma MergeACL_sel [simp]:
  "SuperUser (MergeACL old new) \<longleftrightarrow> SuperUser old \<or> SuperUser new"
  "AllQuery (MergeACL old new) \<longleftrightarrow> AllQuery old \<or> AllQuery new"
  "AnyQuery (MergeACL old new) \<longleftrightarrow> AnyQuery old \<or> AnyQuery new"
  "ReadResults (MergeACL old new) \<longleftrightarrow> ReadResults old \<or> ReadResults new"
  "LabelClients (MergeACL old new) \<longleftrightarrow> LabelClients old \<or> LabelClients new"
  "CollectClient (MergeACL old new) \<longleftrightarrow> CollectClient old \<or> CollectClient new"
  "CollectBasic (MergeACL old new) \<longleftrightarrow> CollectBasic old \<or> CollectBasic new"
  "StartHunt (MergeACL old new) \<longleftrightarrow> StartHunt old \<or> StartHunt new"
  "CollectServer (MergeACL old new) \<longleftrightarrow> CollectServer old \<or> CollectServer new"
  "ArtifactWriter (MergeACL old new) \<longleftrightarrow> ArtifactWriter old \<or> ArtifactWriter new"
  "ServerArtifactWriter (MergeACL old new) \<longleftrightarrow> ServerArtifactWriter old \<or> ServerArtifactWriter new"
  "Execve (MergeACL old new) \<longleftrightarrow> Execve old \<or> Execve new"
  "NotebookEditor (MergeACL old new) \<longleftrightarrow> NotebookEditor old \<or> NotebookEditor new"
  "OrgAdmin (MergeACL old new) \<longleftrightarrow> OrgAdmin old \<or> OrgAdmin new"
  "Impersonation (MergeACL old new) \<longleftrightarrow> Impersonation old \<or> Impersonation new"
  "ServerAdmin (MergeACL old new) \<longleftrightarrow> ServerAdmin old \<or> ServerAdmin new"
  "FilesystemRead (MergeACL old new) \<longleftrightarrow> FilesystemRead old \<or> FilesystemRead new"
  "FilesystemWrite (MergeACL old new) \<longleftrightarrow> FilesystemWrite old \<or> FilesystemWrite new"
  "Network (MergeACL old new) \<longleftrightarrow> Network old \<or> Network new"
  "MachineState (MergeACL old new) \<longleftrightarrow> MachineState old \<or> MachineState new"
  "PrepareResults (MergeACL old new) \<longleftrightarrow> PrepareResults old \<or> PrepareResults new"
  "DeleteResults (MergeACL old new) \<longleftrightarrow> DeleteResults old \<or> DeleteResults new"
  "DatastoreAccess (MergeACL old new) \<longleftrightarrow> DatastoreAccess old \<or> DatastoreAccess new"
  "Roles (MergeACL old new) = DeduplicateStringSlice (Roles old @ Roles new)"
  "PublishQueues (MergeACL old new) = PublishQueues old"
  by (simp_all add: MergeACL_def)

text \<open>Merging two tokens grants exactly the permissions of either, and the merged role
  list is duplicate free and holds exactly the roles of both.\<close>

theorem MergeACL_union:
  "perms (MergeACL old new) = perms old \<union> perms new \<and>
   distinct (Roles (MergeACL old new)) \<and>
   set (Roles (MergeACL old new)) = set (Roles old) \<union> set (Roles new)"
proof -
  have "p \<in> perms (MergeACL old new) \<longleftrightarrow> p \<in> perms old \<union> perms new" for p
    by (cases p) (auto simp: acl_simps)
  then show ?thesis
    by auto
qed

lemma ACLEqual_distinct: "a \<noteq> b \<Longrightarrow> snd (ACLEqual h a b) = False"
  by (simp add: ACLEqual_def Let_def)

text \<open>The comparison that decides whether an OIDC login has to store the access token of
  a user compares object addresses: whenever the claim's token and the stored token are
  different objects, the answer is that the token must be stored, even when all their fields
  are equal.\<close>

theorem shouldUpdateACLs_always:
  assumes "new_acl < length h" and "existing_acls < length h" and "new_acl \<noteq> existing_acls"
  shows "snd (snd (shouldUpdateACLs override h new_acl existing_acls)) = True"
proof -
  have "length h \<noteq> existing_acls"
    using assms(2) by simp
  with assms(3) show ?thesis
    using ACLEqual_distinct [of new_acl existing_acls h]
      ACLEqual_distinct [of "length h" existing_acls
        "h @ [MergeACL (h ! existing_acls) (h ! new_acl)]"]
    by (auto simp: shouldUpdateACLs_def Let_def split: prod.splits)
qed

subsection \<open>Parsing\<close>

lemma parse_policy_field_SuperUser:
  assumes "f \<in> set policy_fields"
  shows "SuperUser (fst (parse_policy_field gs sb d f st)) = SuperUser (fst st)"
  using assms
  by (auto simp: policy_fields_def parse_policy_field_def split: prod.splits option.splits)

lemma fold_parse_SuperUser:
  "set fs \<subseteq> set policy_fields \<Longrightarrow>
   SuperUser (fst (fold (parse_policy_field gs sb d) fs st)) = SuperUser (fst st)"
  by (induction fs arbitrary: st) (auto simp: parse_policy_field_SuperUser)

lemma parse_policy_field_keys:
  assumes "set (snd st) \<subseteq> fst ` set d"
  shows "set (snd (parse_policy_field gs sb d f st)) = set (snd st) - {fst f}"
proof -
  have "fst f \<notin> set (snd st)" if "map_of d (fst f) = None"
    using that assms by (auto simp: map_of_eq_None_iff)
  then show ?thesis
    by (auto simp: parse_policy_field_def Let_def split: prod.splits option.splits policy_field.splits)
qed

lemma fold_parse_keys:
  "set (snd st) \<subseteq> fst ` set d \<Longrightarrow>
   set (snd (fold (parse_policy_field gs sb d) fs st)) = set (snd st) - fst ` set fs"
proof (induction fs arbitrary: st)
  case (Cons f fs)
  have "set (snd (parse_policy_field gs sb d f st)) = set (snd st) - {fst f}"
    using Cons.prems by (rule parse_policy_field_keys)
  moreover have "set (snd (fold (parse_policy_field gs sb d) fs (parse_policy_field gs sb d f st)))
      = set (snd (parse_policy_field gs sb d f st)) - fst ` set fs"
    using Cons.prems calculation by (intro Cons.IH) auto
  ultimately show ?case
    by auto
qed simp

text \<open>C40: A policy given as a dictionary is accepted exactly when every key is a field name
  of the token, and then the super user flag is never set, whatever the dictionary says.\<close>

theorem ParsePolicyFromDict_safe:
  "case ParsePolicyFromDict gs sb d of
     Inl err \<Rightarrow> err = InvalidArgError \<and> \<not> fst ` set d \<subseteq> fst ` set policy_fields
   | Inr r \<Rightarrow> fst ` set d \<subseteq> fst ` set policy_fields \<and> \<not> SuperUser r"
proof -
  let ?st = "fold (parse_policy_field gs sb d) policy_fields (empty_acl, map fst d)"
  have "snd ?st = [] \<longleftrightarrow> fst ` set d \<subseteq> fst ` set policy_fields"
    using fold_parse_keys [of "(empty_acl, map fst d)" d gs sb policy_fields]
    by (metis Diff_eq_empty_iff fst_conv image_set order_refl set_empty snd_conv)
  moreover have "\<not> SuperUser (fst ?st)"
    using fold_parse_SuperUser [of policy_fields gs sb d "(empty_acl, map fst d)"] by simp
  ultimately show ?thesis
    by (auto simp: ParsePolicyFromDict_def Let_def split: prod.splits)
qed

end
