(* ===== verification/Acl_Manager.thy ===== *)
theory Acl_Manager
  imports Acls
begin

text \<open>
  The access control manager, \<^verbatim>\<open>services/acl_manager/acl_manager.go\<close>, with the lockdown
  token of \<^verbatim>\<open>acls/lockdown.go\<close>. The manager caches one policy per principal under the
  lower case name; the datastore holds the policy under the name with its original
  casing. The Unicode case mapping is the parameter \<open>u\<close>.
\<close>

section \<open>State\<close>

record CachedACLObject =
  policy :: ApiClientACL
  username :: string

text \<open>\<open>allocated\<close> distinguishes an empty map from the nil map of a manager whose cache was
  never loaded; writing to the latter panics.\<close>

record ACLManager =
  cache :: "string \<rightharpoonup> CachedACLObject"
  allocated :: bool

text \<open>The datastore's directory of policies: user name to policy.\<close>

type_synonym acl_files = "string \<rightharpoonup> ApiClientACL"

text \<open>A child of \<^verbatim>\<open>paths.ACL_ROOT\<close> as the datastore lists it, with the outcome of reading
  it (\<open>None\<close> when \<^verbatim>\<open>GetSubject\<close> fails).\<close>

record ACLChild =
  Base :: string
  IsDir :: bool
  subject :: "ApiClientACL option"

definition notLockedDownError :: go_error where
  "notLockedDownError = Errorf ''PERMISSION_DENIED: Server locked down''"

section \<open>Operations\<close>

text \<open>The loop of \<^verbatim>\<open>reloadCache\<close> over the children.\<close>

fun reload_loop ::
  "(string \<Rightarrow> string) \<Rightarrow> ACLChild list \<Rightarrow> (string \<rightharpoonup> CachedACLObject) \<Rightarrow>
   (string \<rightharpoonup> CachedACLObject)" where
  "reload_loop u [] c = c"
| "reload_loop u (child # children) c =
     (if IsDir child then reload_loop u children c
      else (case subject child of
        None \<Rightarrow> reload_loop u children c
      | Some p \<Rightarrow>
          (let lower_user_name = ToLower u (Base child) in
           case c lower_user_name of
             Some old_record \<Rightarrow>
               if username old_record \<noteq> Base child then reload_loop u children c
               else reload_loop u children
                      (c(lower_user_name \<mapsto> \<lparr>policy = p, username = Base child\<rparr>))
           | None \<Rightarrow> reload_loop u children
                      (c(lower_user_name \<mapsto> \<lparr>policy = p, username = Base child\<rparr>)))))"

text \<open>\<open>children\<close> is the outcome of opening the datastore and listing the directory.\<close>

definition reloadCache ::
  "(string \<Rightarrow> string) \<Rightarrow> Config \<Rightarrow> ACLChild list result \<Rightarrow> ACLManager \<Rightarrow>
   ACLManager \<times> go_error option" where
  "reloadCache u config_obj children self =
     (if \<not> Datastore config_obj then (self, None)
      else (case children of
        Inl err \<Rightarrow> (self, Some err)
      | Inr cs \<Rightarrow> (self\<lparr>cache := reload_loop u cs Map.empty, allocated := True\<rparr>, None)))"

text \<open>The construction of a manager: the first load of the cache; the background refresh
  and the registration with the backup service are left out.\<close>

definition NewACLManager ::
  "(string \<Rightarrow> string) \<Rightarrow> Config \<Rightarrow> ACLChild list result \<Rightarrow> ACLManager result" where
  "NewACLManager u config_obj children =
     (case reloadCache u config_obj children \<lparr>cache = Map.empty, allocated = False\<rparr> of
        (_, Some err) \<Rightarrow> Err err
      | (self, None) \<Rightarrow> Ok self)"

definition GetPolicy :: "(string \<Rightarrow> string) \<Rightarrow> ACLManager \<Rightarrow> string \<Rightarrow> ApiClientACL result" where
  "GetPolicy u self prin =
     (case cache self (ToLower u prin) of
        Some c \<Rightarrow> Ok (policy c)
      | None \<Rightarrow> Err NotFoundError)"

definition GetEffectivePolicy ::
  "(string \<Rightarrow> string) \<Rightarrow> Config \<Rightarrow> ACLManager \<Rightarrow> string \<Rightarrow> ApiClientACL result" where
  "GetEffectivePolicy u config_obj self prin =
     (if prin = GetSuperuserName (Some config_obj) then Ok (empty_acl\<lparr>SuperUser := True\<rparr>)
      else (case GetPolicy u self prin of
        Inl err \<Rightarrow> Err err
      | Inr p \<Rightarrow>
          (case GetRolePermissions (Some config_obj) (Roles p) p of
             (_, Some err) \<Rightarrow> Err err
           | (p1, None) \<Rightarrow>
               (let p2 = p1\<lparr>SuperUser := False\<rparr>
                in Ok (if \<not> IsRootOrg (OrgId config_obj) then p2\<lparr>OrgAdmin := False\<rparr> else p2)))))"

text \<open>The change \<^verbatim>\<open>SetPolicy\<close> makes to a policy before it is stored.\<close>

definition normalize_policy :: "Config \<Rightarrow> ApiClientACL \<Rightarrow> ApiClientACL" where
  "normalize_policy config_obj acl_obj =
     (if \<not> IsRootOrg (OrgId config_obj)
      then acl_obj\<lparr>OrgAdmin := False, Roles := FilterSlice (Roles acl_obj) ''org_admin''\<rparr>
      else acl_obj)"

text \<open>\<open>db\<close> is the outcome of opening the datastore (\<open>Some\<close> its error), \<open>wr\<close> that of
  writing the subject. The cache is updated before either can fail.\<close>

definition SetPolicy ::
  "(string \<Rightarrow> string) \<Rightarrow> Config \<Rightarrow> go_error option \<Rightarrow> go_error option \<Rightarrow>
   ACLManager \<times> acl_files \<Rightarrow> string \<Rightarrow> ApiClientACL \<Rightarrow>
   (ACLManager \<times> acl_files) \<times> go_error option" where
  "SetPolicy u config_obj db wr st prin acl_obj =
     (let (self, files) = st;
          acl_obj = normalize_policy config_obj acl_obj;
          lower_user_name = ToLower u prin;
          prin = (case cache self lower_user_name of
                         Some c \<Rightarrow> username c | None \<Rightarrow> prin);
          self = self\<lparr>cache := (cache self)
                   (lower_user_name \<mapsto> \<lparr>policy = acl_obj, username = prin\<rparr>)\<rparr>
      in if \<not> allocated (fst st) then (st, Some (Panic ''assignment to entry in nil map''))
         else (case db of
           Some err \<Rightarrow> ((self, files), Some err)
         | None \<Rightarrow>
             (case wr of
                Some err \<Rightarrow> ((self, files), Some err)
              | None \<Rightarrow> ((self, files(prin \<mapsto> acl_obj)), None))))"

fun lockdown_loop :: "ApiClientACL \<Rightarrow> ACL_PERMISSION list \<Rightarrow> bool \<times> go_error option" where
  "lockdown_loop token [] = (False, None)"
| "lockdown_loop token (perm # permissions) =
     (if CheckAccessWithToken token perm [] then (False, Some notLockedDownError)
      else lockdown_loop token permissions)"

definition handleLockdown ::
  "ApiClientACL option \<Rightarrow> ACL_PERMISSION list \<Rightarrow> bool \<times> go_error option" where
  "handleLockdown lockdown_token permissions =
     (case lockdown_token of
        None \<Rightarrow> (False, None)
      | Some token \<Rightarrow> lockdown_loop token permissions)"

fun check_loop :: "ApiClientACL \<Rightarrow> ACL_PERMISSION list \<Rightarrow> bool \<times> go_error option" where
  "check_loop acl_obj [] = (True, None)"
| "check_loop acl_obj (permission # permissions) =
     (if \<not> CheckAccessWithToken acl_obj permission [] then (False, None)
      else check_loop acl_obj permissions)"

definition CheckAccess ::
  "(string \<Rightarrow> string) \<Rightarrow> Config \<Rightarrow> ApiClientACL option \<Rightarrow> ACLManager \<Rightarrow> string \<Rightarrow>
   ACL_PERMISSION list \<Rightarrow> bool \<times> go_error option" where
  "CheckAccess u config_obj lockdown_token self prin permissions =
     (case handleLockdown lockdown_token permissions of
        (ok, Some err) \<Rightarrow> (ok, Some err)
      | (_, None) \<Rightarrow>
          if prin = GetSuperuserName (Some config_obj) then (True, None)
          else if prin = '''' then (False, None)
          else (case GetEffectivePolicy u config_obj self prin of
                  Inl err \<Rightarrow>
                    if err = NotFoundError then (False, None) else (False, Some err)
                | Inr acl_obj \<Rightarrow> check_loop acl_obj permissions))"

text \<open>The loop of \<^verbatim>\<open>GrantRoles\<close> that collects the roles of the new policy.\<close>

fun grant_loop :: "string list \<Rightarrow> string list \<Rightarrow> string list result" where
  "grant_loop acc [] = Ok acc"
| "grant_loop acc (role # roles) =
     (if \<not> InString acc role then
        (if \<not> ValidateRole role then Err (Errorf ''Invalid role %v'')
         else grant_loop (acc @ [role]) roles)
      else grant_loop acc roles)"

definition GrantRoles ::
  "(string \<Rightarrow> string) \<Rightarrow> Config \<Rightarrow> go_error option \<Rightarrow> go_error option \<Rightarrow>
   ACLManager \<times> acl_files \<Rightarrow> string \<Rightarrow> string list \<Rightarrow>
   (ACLManager \<times> acl_files) \<times> go_error option" where
  "GrantRoles u config_obj db wr st prin roles =
     (case grant_loop [] roles of
        Inl err \<Rightarrow> (st, Some err)
      | Inr rs \<Rightarrow> SetPolicy u config_obj db wr st prin (empty_acl\<lparr>Roles := rs\<rparr>))"

section \<open>The interface of a policy store\<close>

text \<open>What the clients of the manager rely on: a lookup after an update sees the update
  under every spelling of the principal, and nothing else changes.\<close>

locale policy_store =
  fixes key :: "'p \<Rightarrow> 'k"
    and norm :: "'a \<Rightarrow> 'a"
    and invar :: "'s \<Rightarrow> bool"
    and get :: "'s \<Rightarrow> 'p \<Rightarrow> 'a option"
    and put :: "'s \<Rightarrow> 'p \<Rightarrow> 'a \<Rightarrow> 's"
  assumes norm_norm: "norm (norm a) = norm a"
    and invar_put: "invar s \<Longrightarrow> invar (put s p a)"
    and get_put: "invar s \<Longrightarrow>
      get (put s p a) q = (if key q = key p then Some (norm a) else get s q)"
begin

lemma get_put_same: "invar s \<Longrightarrow> get (put s p a) p = Some (norm a)"
  by (simp add: get_put)

lemma get_put_twice:
  "invar s \<Longrightarrow> get (put (put s p a) p b) q = get (put s p b) q"
  by (simp add: get_put invar_put)

lemma get_put_commute:
  "invar s \<Longrightarrow> key p \<noteq> key r \<Longrightarrow> get (put (put s p a) r b) q = get (put (put s r b) p a) q"
  by (simp add: get_put invar_put)



end

section \<open>Specification of the effective permissions and of the stored state\<close>

text \<open>What a stored policy confers in an organisation: its own flags and those of its roles;
  the super user flag of a stored policy has no effect, and organisations other than the
  root organisation have no organisation administrators.\<close>

definition granted :: "Config \<Rightarrow> ApiClientACL \<Rightarrow> ACL_PERMISSION set" where
  "granted c pol =
     (perms (pol\<lparr>SuperUser := False\<rparr>) \<union> (\<Union>r \<in> set (Roles pol). role_perms (Some c) r)) -
     (if IsRootOrg (OrgId c) then {} else {ORG_ADMIN})"

text \<open>The cache and the datastore describe the same policies: every cached record is the
  stored one, and no two stored names differ in case only.\<close>

definition acl_inv :: "(string \<Rightarrow> string) \<Rightarrow> ACLManager \<times> acl_files \<Rightarrow> bool" where
  "acl_inv u st \<longleftrightarrow> allocated (fst st) \<and>
     (\<forall>k c. cache (fst st) k = Some c \<longrightarrow>
        ToLower u (username c) = k \<and> snd st (username c) = Some (policy c)) \<and>
     (\<forall>n p. snd st n = Some p \<longrightarrow>
        cache (fst st) (ToLower u n) = Some \<lparr>policy = p, username = n\<rparr>)"

text \<open>A listing of the stored policies in some order.\<close>

definition listing :: "acl_files \<Rightarrow> string list \<Rightarrow> ACLChild list" where
  "listing files names = map (\<lambda>n. \<lparr>Base = n, IsDir = False, subject = files n\<rparr>) names"

text \<open>The states the manager goes through: it is created over stored policies whose names do
  not differ in case only, policies are set (successfully), and the cache is reloaded at
  any time.\<close>

inductive acl_reachable :: "(string \<Rightarrow> string) \<Rightarrow> Config \<Rightarrow> ACLManager \<times> acl_files \<Rightarrow> bool"
  for u c where
  start: "inj_on (ToLower u) (dom files) \<Longrightarrow> set names = dom files \<Longrightarrow> Datastore c \<Longrightarrow>
    NewACLManager u c (Inr (listing files names)) = Inr m \<Longrightarrow> acl_reachable u c (m, files)"
| set_policy: "acl_reachable u c st \<Longrightarrow> SetPolicy u c None None st prin a = (st', None) \<Longrightarrow>
    acl_reachable u c st'"
| reload: "acl_reachable u c (m, files) \<Longrightarrow> set names = dom files \<Longrightarrow>
    reloadCache u c (Inr (listing files names)) m = (m', None) \<Longrightarrow> acl_reachable u c (m', files)"

section \<open>Facts\<close>

lemma lockdown_loop_iff:
  "snd (lockdown_loop t ps) = (if \<exists>p \<in> set ps. p \<in> perms t then Some notLockedDownError else None)"
  by (induction ps) (auto simp: perms_def)

lemma check_loop_iff: "check_loop t ps = (set ps \<subseteq> perms t, None)"
  by (induction ps) (auto simp: perms_def)

lemma handleLockdown_fst [simp]: "fst (handleLockdown l ps) = False"
proof -
  have "fst (lockdown_loop t ps) = False" for t
    by (induction ps) auto
  then show ?thesis
    by (auto simp: handleLockdown_def split: option.splits)
qed

lemma perms_SuperUser_update:
  "\<not> SuperUser t \<Longrightarrow> perms (t\<lparr>SuperUser := False\<rparr>) = perms t"
  by (cases t) simp

lemma perms_OrgAdmin_update:
  "\<not> SuperUser t \<Longrightarrow> perms (t\<lparr>OrgAdmin := False\<rparr>) = perms t - {ORG_ADMIN}"
  by (rule set_eqI, rename_tac p, case_tac p; simp add: acl_simps)

text \<open>The effective policy of a principal other than the server, when it exists.\<close>

lemma GetEffectivePolicy_Ok:
  assumes "GetEffectivePolicy u c m p = Ok t" and "p \<noteq> GetSuperuserName (Some c)"
  shows "\<exists>pol t1. GetPolicy u m p = Ok pol \<and> GetRolePermissions (Some c) (Roles pol) pol = (t1, None) \<and>
     t = (if IsRootOrg (OrgId c) then t1\<lparr>SuperUser := False\<rparr>
          else t1\<lparr>SuperUser := False, OrgAdmin := False\<rparr>)"
  using assms
  by (auto simp: GetEffectivePolicy_def Let_def split: sum.splits prod.splits option.splits if_splits)

lemma role_permissions_drop_super:
  "role_permissions c r (t\<lparr>SuperUser := False\<rparr>) =
     map_option (\<lambda>t. t\<lparr>SuperUser := False\<rparr>) (role_permissions c r t)"
  by (cases t) (auto simp: role_permissions_def Let_def split: option.splits)

lemma GetRolePermissions_drop_super:
  "GetRolePermissions c rs t = (t1, None) \<Longrightarrow>
   GetRolePermissions c rs (t\<lparr>SuperUser := False\<rparr>) = (t1\<lparr>SuperUser := False\<rparr>, None)"
proof (induction c rs t rule: GetRolePermissions.induct)
  case (1 c t)
  then show ?case by (cases t) auto
next
  case (2 c r rs t)
  then show ?case
    by (auto simp: role_permissions_drop_super split: option.splits)
qed

lemma GetEffectivePolicy_perms:
  assumes "GetEffectivePolicy u c m p = Ok t" and "p \<noteq> GetSuperuserName (Some c)"
  shows "\<exists>pol. GetPolicy u m p = Ok pol \<and> (\<forall>r \<in> set (Roles pol). ValidateRole r) \<and>
     \<not> SuperUser t \<and> perms t = granted c pol"
proof -
  obtain pol t1 where pol: "GetPolicy u m p = Ok pol"
    and t1: "GetRolePermissions (Some c) (Roles pol) pol = (t1, None)"
    and t: "t = (if IsRootOrg (OrgId c) then t1\<lparr>SuperUser := False\<rparr>
                 else t1\<lparr>SuperUser := False, OrgAdmin := False\<rparr>)"
    using GetEffectivePolicy_Ok [OF assms] by blast
  let ?t2 = "t1\<lparr>SuperUser := False\<rparr>"
  have perms2: "perms ?t2 = perms (pol\<lparr>SuperUser := False\<rparr>) \<union>
      (\<Union>r \<in> set (Roles pol). role_perms (Some c) r)"
    using GetRolePermissions_perms [OF GetRolePermissions_drop_super [OF t1]] by simp
  have valid: "\<forall>r \<in> set (Roles pol). ValidateRole r"
    using GetRolePermissions_ok [of "Some c" "Roles pol" pol] t1 by simp
  have "perms t = granted c pol"
    using perms2 perms_OrgAdmin_update [of ?t2] by (simp add: t granted_def)
  moreover have "\<not> SuperUser t"
    by (simp add: t)
  ultimately show ?thesis
    using pol valid by blast
qed

lemma GetEffectivePolicy_exists:
  assumes "GetPolicy u m p = Ok pol" and "\<forall>r \<in> set (Roles pol). ValidateRole r"
  shows "\<exists>t. GetEffectivePolicy u c m p = Ok t"
proof -
  have "snd (GetRolePermissions (Some c) (Roles pol) pol) = None"
    using assms(2) by (simp add: GetRolePermissions_ok)
  then show ?thesis
    using assms(1)
    by (cases "GetRolePermissions (Some c) (Roles pol) pol")
      (auto simp: GetEffectivePolicy_def Let_def)
qed

lemma CheckAccess_no_lockdown:
  assumes "p \<noteq> GetSuperuserName (Some c)" and "p \<noteq> ''''"
  shows "CheckAccess u c None m p ps = (True, None) \<longleftrightarrow>
     (\<exists>pol. GetPolicy u m p = Ok pol \<and> (\<forall>r \<in> set (Roles pol). ValidateRole r) \<and>
            set ps \<subseteq> granted c pol)"
proof (cases "GetEffectivePolicy u c m p")
  case (Inl e)
  then have "\<not> (\<exists>pol. GetPolicy u m p = Ok pol \<and> (\<forall>r \<in> set (Roles pol). ValidateRole r))"
    using GetEffectivePolicy_exists by (metis sum.simps(4))
  moreover have "CheckAccess u c None m p ps \<noteq> (True, None)"
    using assms Inl by (simp add: CheckAccess_def handleLockdown_def)
  ultimately show ?thesis by blast
next
  case (Inr t)
  from GetEffectivePolicy_perms [OF Inr assms(1)] obtain pol where
    "GetPolicy u m p = Ok pol" "\<forall>r \<in> set (Roles pol). ValidateRole r" "perms t = granted c pol"
    by blast
  moreover have "CheckAccess u c None m p ps = (set ps \<subseteq> perms t, None)"
    using assms Inr by (simp add: CheckAccess_def handleLockdown_def check_loop_iff)
  ultimately show ?thesis by auto
qed

lemma CheckAccess_Some_lockdown:
  "CheckAccess u c (Some token) m p ps =
     (if set ps \<inter> perms token \<noteq> {} then (False, Some notLockedDownError)
      else CheckAccess u c None m p ps)"
proof -
  have "handleLockdown (Some token) ps =
      (False, if set ps \<inter> perms token \<noteq> {} then Some notLockedDownError else None)"
    using lockdown_loop_iff [of token ps] handleLockdown_fst [of "Some token" ps]
    by (auto simp: handleLockdown_def prod_eq_iff)
  then show ?thesis
    by (simp add: CheckAccess_def handleLockdown_def [of None])
qed

lemma granted_admin_only:
  assumes "q \<in> admin_only" and "''administrator'' \<notin> set (Roles pol)"
    and "q \<notin> perms (pol\<lparr>SuperUser := False\<rparr>)"
  shows "q \<notin> granted c pol"
proof -
  have "q \<notin> role_perms (Some c) r" if "r \<in> set (Roles pol)" for r
  proof -
    have "r \<noteq> ''administrator''"
      using that assms(2) by auto
    then show ?thesis
      using role_perms_admin_only [of r "Some c"] assms(1) by blast
  qed
  with assms(3) show ?thesis by (auto simp: granted_def)
qed

lemma granted_ORG_ADMIN: "\<not> IsRootOrg (OrgId c) \<Longrightarrow> ORG_ADMIN \<notin> granted c pol"
  by (simp add: granted_def)

lemma CheckAccess_denied:
  assumes "p \<noteq> GetSuperuserName (Some c)" and "GetPolicy u m p = Ok pol"
    and "q \<notin> granted c pol" and "q \<in> set ps"
  shows "fst (CheckAccess u c l m p ps) = False"
proof -
  have no: "CheckAccess u c None m p ps \<noteq> (True, None)"
    using CheckAccess_no_lockdown [of p c u m ps] assms by (cases "p = ''''")
      (auto simp: CheckAccess_def handleLockdown_def)
  have "fst (CheckAccess u c None m p ps) = False"
    using no assms(1)
    by (auto simp: CheckAccess_def handleLockdown_def check_loop_iff split: sum.splits if_splits)
  then show ?thesis
    using CheckAccess_Some_lockdown [of u c _ m p ps] by (cases l) auto
qed

subsection \<open>The stored state\<close>

lemma acl_inv_cacheD:
  "acl_inv u (m, files) \<Longrightarrow> cache m k = Some d \<Longrightarrow>
     ToLower u (username d) = k \<and> files (username d) = Some (policy d)"
  by (simp add: acl_inv_def)

lemma acl_inv_filesD:
  "acl_inv u (m, files) \<Longrightarrow> files n = Some p \<Longrightarrow>
     cache m (ToLower u n) = Some \<lparr>policy = p, username = n\<rparr>"
  by (simp add: acl_inv_def)

lemma acl_inv_SetPolicy:
  assumes "acl_inv u st" and "SetPolicy u c None None st p a = (st', None)"
  shows "acl_inv u st'"
proof -
  obtain m files where st: "st = (m, files)"
    by fastforce
  let ?k = "ToLower u p" and ?a = "normalize_policy c a"
  let ?n = "case cache m ?k of Some c \<Rightarrow> username c | None \<Rightarrow> p"
  have st': "st' = (m\<lparr>cache := (cache m)(?k \<mapsto> \<lparr>policy = ?a, username = ?n\<rparr>)\<rparr>, files(?n \<mapsto> ?a))"
    using assms(2) by (auto simp: SetPolicy_def st Let_def split: if_splits)
  have n: "ToLower u ?n = ?k"
    using assms(1) by (auto simp: acl_inv_def st split: option.splits)
  have other: "username d \<noteq> ?n" if "cache m k = Some d" "k \<noteq> ?k" for k d
  proof
    assume "username d = ?n"
    moreover have "ToLower u (username d) = k"
      using assms(1) that(1) by (simp add: acl_inv_def st)
    ultimately show False
      using n that(2) by simp
  qed
  have stored: "files x = None" if "ToLower u x = ?k" "x \<noteq> ?n" for x
  proof (cases "files x")
    case (Some q)
    then have "cache m ?k = Some \<lparr>policy = q, username = x\<rparr>"
      using acl_inv_filesD [OF assms(1) [unfolded st] Some] that(1) by simp
    with that(2) show ?thesis by simp
  qed
  show ?thesis
    using assms(1) n other stored by (auto simp: acl_inv_def st st')
qed

lemma reload_loop_append:
  "reload_loop u (xs @ ys) c = reload_loop u ys (reload_loop u xs c)"
  by (induction xs arbitrary: c) (simp_all add: Let_def split: option.split)

lemma acl_inv_inj:
  assumes "acl_inv u (m, files)"
  shows "inj_on (ToLower u) (dom files)"
proof (rule inj_onI)
  fix x y
  assume "x \<in> dom files" "y \<in> dom files" and eq: "ToLower u x = ToLower u y"
  then obtain p q where p: "files x = Some p" and q: "files y = Some q"
    by (metis domD)
  have "Some \<lparr>policy = p, username = x\<rparr> = Some \<lparr>policy = q, username = y\<rparr>"
    unfolding acl_inv_filesD [OF assms p, symmetric] acl_inv_filesD [OF assms q, symmetric] eq ..
  then show "x = y" by simp
qed

lemma acl_inv_cache_le:
  assumes "acl_inv u (m, files)" and "acl_inv u (m', files)" and "cache m k = Some d"
  shows "cache m' k = Some d"
proof -
  from acl_inv_cacheD [OF assms(1,3)] have k: "k = ToLower u (username d)"
    and f: "files (username d) = Some (policy d)"
    by auto
  show ?thesis
    unfolding k acl_inv_filesD [OF assms(2) f] by simp
qed

lemma acl_inv_unique:
  assumes "acl_inv u (m, files)" and "acl_inv u (m', files)"
  shows "m = m'"
proof -
  have "cache m = cache m'"
  proof
    fix k
    show "cache m k = cache m' k"
      using acl_inv_cache_le [OF assms, of k] acl_inv_cache_le [OF assms(2,1), of k]
      by (cases "cache m k"; cases "cache m' k") simp_all
  qed
  then show ?thesis
    using assms by (simp add: acl_inv_def)
qed

lemma reload_loop_listing:
  assumes "inj_on (ToLower u) (dom files)" and "set names \<subseteq> dom files"
    and "\<forall>n \<in> dom files. \<forall>d. c (ToLower u n) = Some d \<longrightarrow>
           d = \<lparr>policy = the (files n), username = n\<rparr>"
  shows "(\<forall>n \<in> set names. reload_loop u (listing files names) c (ToLower u n) =
            Some \<lparr>policy = the (files n), username = n\<rparr>) \<and>
         (\<forall>k. k \<notin> ToLower u ` set names \<longrightarrow> reload_loop u (listing files names) c k = c k)"
  using assms(2,3)
proof (induction names arbitrary: c rule: rev_induct)
  case Nil
  then show ?case by (simp add: listing_def)
next
  case (snoc n names)
  let ?c = "reload_loop u (listing files names) c" and ?k = "ToLower u n"
  have n: "n \<in> dom files"
    using snoc.prems(1) by simp
  then obtain p where p: "files n = Some p"
    by auto
  have IH: "\<forall>x \<in> set names. ?c (ToLower u x) = Some \<lparr>policy = the (files x), username = x\<rparr>"
    "\<forall>k. k \<notin> ToLower u ` set names \<longrightarrow> ?c k = c k"
    using snoc by auto
  have "?c ?k = None \<or> ?c ?k = Some \<lparr>policy = p, username = n\<rparr>"
  proof (cases "?k \<in> ToLower u ` set names")
    case True
    then have "n \<in> set names"
      using assms(1) snoc.prems(1) p by (auto dest: inj_onD)
    then show ?thesis using IH(1) p by simp
  next
    case False
    then show ?thesis
      using IH(2) snoc.prems(2) [rule_format, OF n] p by (cases "c ?k") simp_all
  qed
  then have "reload_loop u (listing files (names @ [n])) c = ?c(?k \<mapsto> \<lparr>policy = p, username = n\<rparr>)"
    by (auto simp: listing_def reload_loop_append p Let_def)
  then show ?case
    using IH p assms(1) snoc.prems(1) by (auto dest: inj_onD)
qed

lemma reloadCache_inv:
  assumes "inj_on (ToLower u) (dom files)" and "set names = dom files" and "Datastore c"
    and "reloadCache u c (Inr (listing files names)) m = (m', None)"
  shows "acl_inv u (m', files)"
proof -
  let ?r = "reload_loop u (listing files names) Map.empty"
  have m': "m' = m\<lparr>cache := ?r, allocated := True\<rparr>"
    using assms(3,4) by (auto simp: reloadCache_def)
  have r: "\<forall>n \<in> dom files. ?r (ToLower u n) = Some \<lparr>policy = the (files n), username = n\<rparr>"
    "\<forall>k. k \<notin> ToLower u ` dom files \<longrightarrow> ?r k = None"
    using reload_loop_listing [OF assms(1), of names Map.empty] assms(2) by auto
  have "ToLower u (username d) = k \<and> files (username d) = Some (policy d)" if "?r k = Some d" for k d
  proof -
    obtain n where "n \<in> dom files" "k = ToLower u n"
      using r(2) \<open>?r k = Some d\<close> by (cases "k \<in> ToLower u ` dom files") auto
    with r(1) \<open>?r k = Some d\<close> show ?thesis by auto
  qed
  then show ?thesis
    using r(1) by (auto simp: acl_inv_def m' dom_def)
qed

lemma reloadCache_noop:
  assumes "acl_inv u (m, files)" and "set names = dom files"
  shows "reloadCache u c (Inr (listing files names)) m = (m, None)"
proof (cases "Datastore c")
  case True
  obtain m' where m': "reloadCache u c (Inr (listing files names)) m = (m', None)"
    using True by (simp add: reloadCache_def)
  have "acl_inv u (m', files)"
    using reloadCache_inv [OF acl_inv_inj [OF assms(1)] assms(2) True m'] .
  with m' show ?thesis
    using acl_inv_unique [OF assms(1)] by simp
next
  case False
  then show ?thesis by (simp add: reloadCache_def)
qed

lemma acl_reachable_inv: "acl_reachable u c st \<Longrightarrow> acl_inv u st"
proof (induction rule: acl_reachable.induct)
  case (start files names m)
  then show ?case
    by (auto simp: NewACLManager_def split: prod.splits option.splits intro: reloadCache_inv)
next
  case (set_policy st prin a st')
  then show ?case by (blast intro: acl_inv_SetPolicy)
next
  case (reload m files names m')
  then show ?case using reloadCache_noop by (metis prod.inject)
qed

lemma GetPolicy_SetPolicy:
  "allocated (fst st) \<Longrightarrow> GetPolicy u (fst (fst (SetPolicy u c db wr st p a))) q =
     (if ToLower u q = ToLower u p then Ok (normalize_policy c a) else GetPolicy u (fst st) q)"
  by (cases st) (auto simp: SetPolicy_def GetPolicy_def Let_def split: option.splits)

lemma normalize_policy_idem: "normalize_policy c (normalize_policy c a) = normalize_policy c a"
  by (auto simp: normalize_policy_def)

interpretation acl_store: policy_store "ToLower u" "normalize_policy c" "acl_inv u"
  "\<lambda>st p. case GetPolicy u (fst st) p of Inr a \<Rightarrow> Some a | Inl e \<Rightarrow> None"
  "\<lambda>st p a. fst (SetPolicy u c None None st p a)"
  for u c
proof unfold_locales
  fix st p a
  assume "acl_inv u st"
  then show "acl_inv u (fst (SetPolicy u c None None st p a))"
    by (rule acl_inv_SetPolicy [where c = c and p = p and a = a])
      (insert \<open>acl_inv u st\<close>, simp add: SetPolicy_def acl_inv_def Let_def split: prod.splits)
qed (simp_all add: normalize_policy_idem GetPolicy_SetPolicy acl_inv_def)

lemma grant_loop_ok:
  "grant_loop acc roles = Ok rs \<Longrightarrow>
     set rs = set acc \<union> set roles \<and> (\<forall>r \<in> set roles - set acc. ValidateRole r) \<and>
     (distinct acc \<longrightarrow> distinct rs)"
  by (induction acc roles rule: grant_loop.induct) (auto simp: InString_iff split: if_splits)

lemma grant_loop_total:
  "(\<forall>r \<in> set roles. ValidateRole r) \<Longrightarrow> \<exists>rs. grant_loop acc roles = Ok rs"
  by (induction acc roles rule: grant_loop.induct) auto

lemma granted_roles_only:
  "granted c (normalize_policy c (empty_acl\<lparr>Roles := rs\<rparr>)) =
     (\<Union>r \<in> set rs. role_perms (Some c) r) - (if IsRootOrg (OrgId c) then {} else {ORG_ADMIN})"
proof -
  have flags: "SuperUser_update (\<lambda>_. False) (empty_acl\<lparr>Roles := xs\<rparr>) = empty_acl\<lparr>Roles := xs\<rparr>"
    "(empty_acl\<lparr>Roles := rs\<rparr>)\<lparr>OrgAdmin := False, Roles := xs\<rparr> = empty_acl\<lparr>Roles := xs\<rparr>" for xs
    by (simp_all add: empty_acl_def)
  show ?thesis
    by (auto simp: granted_def normalize_policy_def flags role_perms_simps FilterSlice_filter)
qed

lemma granted_root_roles:
  "IsRootOrg (OrgId c) \<Longrightarrow>
     granted c (empty_acl\<lparr>Roles := rs\<rparr>) = (\<Union>r \<in> set rs. role_perms (Some c) r)"
  using granted_roles_only [of c rs] by (simp add: normalize_policy_def)

lemma ToLower_alice: "ToLower u ''ALICE'' = ''alice''" "ToLower u ''Alice'' = ''alice''"
  by (simp_all add: go_simps char_of_def bit_0)

lemma empty_not_super: "\<not> SuperUser empty_acl"
  by (simp add: empty_acl_def)

section \<open>Properties\<close>

text \<open>C1: Without a lockdown, \<^verbatim>\<open>CheckAccess\<close> for an ordinary principal answers yes exactly
  when the principal has a stored policy, all of whose roles exist, and every requested
  permission is among those the policy and its roles confer in the organisation.\<close>

theorem CheckAccess_iff:
  assumes "p \<noteq> GetSuperuserName (Some c)" and "p \<noteq> ''''"
  shows "CheckAccess u c None m p ps = (True, None) \<longleftrightarrow>
     (\<exists>pol. GetPolicy u m p = Ok pol \<and> (\<forall>r \<in> set (Roles pol). ValidateRole r) \<and>
            set ps \<subseteq> granted c pol)"
  using assms by (rule CheckAccess_no_lockdown)

theorem CheckAccess_iff_witness:
  "CheckAccess (\<lambda>s. s) \<lparr>OrgId = ''root'', Client = None, Datastore = True\<rparr> None
     \<lparr>cache = [''alice'' \<mapsto> \<lparr>policy = empty_acl\<lparr>Roles := [''reader'']\<rparr>, username = ''Alice''\<rparr>],
      allocated = True\<rparr> ''ALICE'' [READ_RESULTS] = (True, None)"
  by (subst CheckAccess_iff)
    (simp_all add: GetSuperuserName_def GetPolicy_def ToLower_alice granted_root_roles IsRootOrg_def
      role_perms_simps ValidateRole_def ALL_ROLES_def)

text \<open>C16: Under a lockdown, a request for any permission of the lockdown token is refused with
  the lockdown error, whoever asks, the server's own principal included; every other
  request is answered as without the lockdown.\<close>

theorem CheckAccess_lockdown:
  "CheckAccess u c (Some token) m p ps =
     (if set ps \<inter> perms token \<noteq> {} then (False, Some notLockedDownError)
      else CheckAccess u c None m p ps)"
  by (rule CheckAccess_Some_lockdown)

text \<open>C17: Least privilege: a principal other than the server whose stored policy neither has
  the administrator role nor the permission itself is refused every permission that only
  administrators hold, and outside the root organisation nobody is an organisation
  administrator, whatever policy is stored and whatever else is asked for.\<close>

theorem CheckAccess_least_privilege:
  assumes "p \<noteq> GetSuperuserName (Some c)" and "GetPolicy u m p = Ok pol" and "q \<in> set ps"
    and "q \<in> admin_only \<and> ''administrator'' \<notin> set (Roles pol) \<and> q \<notin> perms (pol\<lparr>SuperUser := False\<rparr>) \<or>
         q = ORG_ADMIN \<and> \<not> IsRootOrg (OrgId c)"
  shows "fst (CheckAccess u c l m p ps) = False"
proof -
  have "q \<notin> granted c pol"
    using assms(4) granted_admin_only [of q pol c] granted_ORG_ADMIN [of c pol] by (elim disjE) simp_all
  then show ?thesis
    by (rule CheckAccess_denied [OF assms(1,2) _ assms(3)])
qed

theorem CheckAccess_least_privilege_witness:
  "fst (CheckAccess (\<lambda>s. s) \<lparr>OrgId = ''O123'', Client = None, Datastore = True\<rparr> None
     \<lparr>cache = [''alice'' \<mapsto> \<lparr>policy = empty_acl\<lparr>Roles := [''reader'']\<rparr>, username = ''Alice''\<rparr>],
      allocated = True\<rparr> ''Alice'' [READ_RESULTS, EXECVE]) = False"
  by (rule CheckAccess_least_privilege [where q = EXECVE and pol = "empty_acl\<lparr>Roles := [''reader'']\<rparr>"])
    (simp_all add: GetSuperuserName_def GetPolicy_def ToLower_alice admin_only_def empty_not_super
      perms_SuperUser_update)



text \<open>C38: Granting roles replaces the whole policy: when every role exists, afterwards the
  principal has exactly the permissions of those roles, and every other principal is
  unaffected; an unknown role leaves the policies as they were.\<close>

theorem GrantRoles_exact:
  assumes "allocated (fst st)"
  shows "if \<exists>r \<in> set roles. \<not> ValidateRole r then
     fst (GrantRoles u c db wr st p roles) = st \<and> snd (GrantRoles u c db wr st p roles) \<noteq> None
   else (\<exists>pol. GetPolicy u (fst (fst (GrantRoles u c db wr st p roles))) p = Ok pol \<and>
           granted c pol = (\<Union>r \<in> set roles. role_perms (Some c) r) -
             (if IsRootOrg (OrgId c) then {} else {ORG_ADMIN})) \<and>
        (\<forall>q. ToLower u q = ToLower u p \<or>
           GetPolicy u (fst (fst (GrantRoles u c db wr st p roles))) q = GetPolicy u (fst st) q)"
proof (cases "grant_loop [] roles")
  case (Inl e)
  then show ?thesis
    using grant_loop_total [of roles "[]"] by (auto simp: GrantRoles_def)
next
  case (Inr rs)
  from grant_loop_ok [OF Inr] have "set rs = set roles" "\<forall>r \<in> set roles. ValidateRole r"
    by auto
  then show ?thesis
    using assms Inr by (auto simp: GrantRoles_def GetPolicy_SetPolicy granted_roles_only)
qed

theorem GrantRoles_exact_witness:
  "\<exists>pol. GetPolicy (\<lambda>s. s) (fst (fst (GrantRoles (\<lambda>s. s)
       \<lparr>OrgId = ''root'', Client = None, Datastore = True\<rparr> None None
       (\<lparr>cache = Map.empty, allocated = True\<rparr>, Map.empty) ''Bob'' [''api'', ''api'']))) ''Bob'' = Ok pol \<and>
     granted \<lparr>OrgId = ''root'', Client = None, Datastore = True\<rparr> pol = {ANY_QUERY, READ_RESULTS}"
  using GrantRoles_exact [of "(\<lparr>cache = Map.empty, allocated = True\<rparr>, Map.empty)" "[''api'', ''api'']"
      "\<lambda>s. s" "\<lparr>OrgId = ''root'', Client = None, Datastore = True\<rparr>" None None "''Bob''"]
  by (simp add: ValidateRole_def ALL_ROLES_def role_perms_simps IsRootOrg_def)

end
