(* ===== verification/Components.thy ===== *)
theory Components
  imports Go_Strings
begin

text \<open>
  Serialised paths, \<^verbatim>\<open>utils/path.go\<close>: a path is a list of components; a component that
  contains a separator or a quote is quoted, with quotes doubled. \<open>SplitComponents\<close>
  parses a serialised path and \<open>JoinComponents\<close> prints one.
\<close>

section \<open>Definitions\<close>

definition is_sep :: "char \<Rightarrow> bool" where
  "is_sep c \<longleftrightarrow> c = CHR ''/'' \<or> c = CHR 0x5C"

text \<open>The scan of a quoted component, from the byte after the opening quote. A quote that
  is followed by a byte which is neither a quote nor a separator appends that byte and
  goes on at it.\<close>

fun consume_quoted :: "string \<Rightarrow> string \<Rightarrow> string \<times> string" where
  "consume_quoted [] result = ([], result)"
| "consume_quoted [x] result = ([], if x = CHR 0x22 then result else result @ [x])"
| "consume_quoted (x # next_char # rest) result =
     (if x = CHR 0x22 then
        (if next_char = CHR 0x22 then consume_quoted rest (result @ [next_char])
         else if is_sep next_char then (next_char # rest, result)
         else consume_quoted (next_char # rest) (result @ [next_char]))
      else consume_quoted (next_char # rest) (result @ [x]))"

definition consumeComponent :: "string \<Rightarrow> string \<times> string" where
  "consumeComponent path =
     (case path of
        [] \<Rightarrow> ([], [])
      | c # rest \<Rightarrow>
          if is_sep c then (rest, [])
          else if c = CHR 0x22 then consume_quoted rest []
          else (dropWhile (\<lambda>x. \<not> is_sep x) path, takeWhile (\<lambda>x. \<not> is_sep x) path))"

lemma consume_quoted_le: "length (fst (consume_quoted p acc)) \<le> length p"
  by (induction p acc rule: consume_quoted.induct) auto

lemma consumeComponent_less:
  assumes "path \<noteq> []"
  shows "length (fst (consumeComponent path)) < length path"
proof -
  obtain c rest where p: "path = c # rest"
    using assms by (cases path) auto
  have "length (dropWhile (\<lambda>x. \<not> is_sep x) rest) \<le> length rest"
    by (rule length_dropWhile_le)
  then show ?thesis
    using consume_quoted_le [of rest "[]"] by (auto simp: p consumeComponent_def)
qed

function split_loop :: "string \<Rightarrow> string list \<Rightarrow> string list" where
  "split_loop path components =
     (if path = [] then components
      else (case consumeComponent path of
        (next_path, component) \<Rightarrow>
          split_loop next_path
            (if component \<noteq> '''' \<and> component \<noteq> ''.'' \<and> component \<noteq> ''..''
             then components @ [component] else components)))"
  by pat_completeness auto
termination
  by (relation "measure (\<lambda>(path, _). length path)")
    (auto, metis consumeComponent_less fst_conv)

declare split_loop.simps [simp del]

definition SplitComponents :: "string \<Rightarrow> string list" where
  "SplitComponents path = split_loop path []"

text \<open>The loop of \<^verbatim>\<open>escapeComponent\<close>: the output so far and \<^verbatim>\<open>hasQuotes\<close>.\<close>

fun escape_loop :: "string \<Rightarrow> string \<Rightarrow> bool \<Rightarrow> string \<times> bool" where
  "escape_loop [] result hasQuotes = (result, hasQuotes)"
| "escape_loop (c # cs) result hasQuotes =
     (if is_sep c then escape_loop cs (result @ [c]) True
      else if c = CHR 0x22 then escape_loop cs (result @ [c, CHR 0x22]) True
      else escape_loop cs (result @ [c]) hasQuotes)"

definition escapeComponent :: "string \<Rightarrow> string" where
  "escapeComponent component =
     (let (result, hasQuotes) = escape_loop component [] False
      in if hasQuotes then CHR 0x22 # result @ [CHR 0x22] else result)"

definition ascii_letter :: "char \<Rightarrow> bool" where
  "ascii_letter c \<longleftrightarrow>
     (let n = of_char c :: nat in 65 \<le> n \<and> n \<le> 90 \<or> 97 \<le> n \<and> n \<le> 122)"

text \<open>The regular expression \<^verbatim>\<open>^[a-zA-Z]:$\<close>.\<close>

definition drive_letter :: "string \<Rightarrow> bool" where
  "drive_letter s \<longleftrightarrow> (case s of [c, d] \<Rightarrow> ascii_letter c \<and> d = CHR '':'' | _ \<Rightarrow> False)"

fun join_loop :: "nat \<Rightarrow> string list \<Rightarrow> string list \<Rightarrow> string list" where
  "join_loop idx [] result = result"
| "join_loop idx (component # components) result =
     (let result = (if idx = 0 \<and> \<not> drive_letter component then result @ [''''] else result);
          result = (if component \<noteq> '''' then result @ [escapeComponent component] else result)
      in join_loop (Suc idx) components result)"

definition JoinComponents :: "string list \<Rightarrow> string \<Rightarrow> string" where
  "JoinComponents components sep =
     (if components = [] then '''' else join sep (join_loop 0 components []))"

definition PathBase :: "string \<Rightarrow> string" where
  "PathBase path =
     (let components = SplitComponents path
      in if length components > 0 then components ! (length components - 1) else '''')"

section \<open>Escaping and scanning one component\<close>

text \<open>The component with its quotes doubled, and whether it has to be quoted.\<close>

definition dbl :: "string \<Rightarrow> string" where
  "dbl s = concat (map (\<lambda>c. if c = CHR 0x22 then [c, c] else [c]) s)"

definition needs_quote :: "string \<Rightarrow> bool" where
  "needs_quote s \<longleftrightarrow> (\<exists>c \<in> set s. is_sep c \<or> c = CHR 0x22)"

lemma escape_loop_eq: "escape_loop s r q = (r @ dbl s, q \<or> needs_quote s)"
  by (induction s r q rule: escape_loop.induct) (auto simp: dbl_def needs_quote_def is_sep_def)

lemma dbl_id: "\<not> needs_quote s \<Longrightarrow> dbl s = s"
  by (induction s) (auto simp: dbl_def needs_quote_def)

lemma escapeComponent_eq:
  "escapeComponent s = (if needs_quote s then CHR 0x22 # dbl s @ [CHR 0x22] else s)"
  by (auto simp: escapeComponent_def escape_loop_eq dbl_id)

lemma escapeComponent_not_Nil: "s \<noteq> [] \<Longrightarrow> escapeComponent s \<noteq> []"
  by (simp add: escapeComponent_eq)

lemma is_sep_quote [simp]: "\<not> is_sep (CHR 0x22)"
  by (simp add: is_sep_def)

lemma consume_quoted_other:
  "x \<noteq> CHR 0x22 \<Longrightarrow> consume_quoted (x # rest) acc = consume_quoted rest (acc @ [x])"
  by (cases rest) auto

lemma consume_quoted_dbl:
  assumes "rest = [] \<or> is_sep (hd rest)"
  shows "consume_quoted (dbl s @ CHR 0x22 # rest) acc = (rest, acc @ s)"
proof (induction s arbitrary: acc)
  case Nil
  then show ?case
    using assms by (cases rest) (auto simp: dbl_def)
next
  case (Cons x s)
  have "consume_quoted (dbl (x # s) @ CHR 0x22 # rest) acc =
      consume_quoted (dbl s @ CHR 0x22 # rest) (acc @ [x])"
    by (cases "x = CHR 0x22") (auto simp: dbl_def consume_quoted_other)
  then show ?case
    by (simp add: Cons.IH)
qed

lemma consume_escaped:
  assumes "s \<noteq> []" and "rest = [] \<or> is_sep (hd rest)"
  shows "consumeComponent (escapeComponent s @ rest) = (rest, s)"
proof (cases "needs_quote s")
  case True
  then show ?thesis
    using consume_quoted_dbl [OF assms(2), of s "[]"]
    by (simp add: escapeComponent_eq consumeComponent_def)
next
  case False
  then have no_sep: "\<forall>x \<in> set s. \<not> is_sep x" and hd: "hd s \<noteq> CHR 0x22" "\<not> is_sep (hd s)"
    using assms(1) by (auto simp: needs_quote_def)
  have "takeWhile (\<lambda>x. \<not> is_sep x) (s @ rest) = s" "dropWhile (\<lambda>x. \<not> is_sep x) (s @ rest) = rest"
    using no_sep assms(2) by (cases rest; simp add: takeWhile_append2 dropWhile_append2)+
  then show ?thesis
    using assms(1) hd False by (cases s) (auto simp: escapeComponent_eq consumeComponent_def)
qed

section \<open>Splitting and joining\<close>

definition ordinary :: "string \<Rightarrow> bool" where
  "ordinary c \<longleftrightarrow> c \<noteq> '''' \<and> c \<noteq> ''.'' \<and> c \<noteq> ''..''"

lemma split_loop_ordinary:
  "list_all ordinary acc \<Longrightarrow> list_all ordinary (split_loop p acc)"
proof (induction p acc rule: split_loop.induct)
  case (1 p acc)
  obtain p' c where c: "consumeComponent p = (p', c)"
    by fastforce
  show ?case
  proof (cases "p = []")
    case False
    then have "list_all ordinary (split_loop p' (if ordinary c then acc @ [c] else acc))"
      using "1.IH" [OF False c [symmetric]] "1.prems" c by (auto simp: ordinary_def [symmetric])
    then show ?thesis
      using False c by (subst split_loop.simps) (simp add: ordinary_def)
  qed (simp add: split_loop.simps "1.prems")
qed

lemma SplitComponents_ordinary: "list_all ordinary (SplitComponents p)"
  by (simp add: SplitComponents_def split_loop_ordinary)

lemma split_loop_Nil [simp]: "split_loop [] acc = acc"
  by (simp add: split_loop.simps)

lemma split_loop_sep: "is_sep c \<Longrightarrow> split_loop (c # p) acc = split_loop p acc"
  by (subst split_loop.simps) (simp add: consumeComponent_def)

lemma split_loop_escaped:
  assumes "ordinary s" and "rest = [] \<or> is_sep (hd rest)"
  shows "split_loop (escapeComponent s @ rest) acc = split_loop rest (acc @ [s])"
proof -
  have "s \<noteq> []"
    using assms(1) by (simp add: ordinary_def)
  then show ?thesis
    using assms consume_escaped [of s rest] escapeComponent_not_Nil [of s]
    by (subst split_loop.simps) (simp add: ordinary_def)
qed

lemma split_loop_join:
  assumes "is_sep c"
  shows "list_all ordinary cs \<Longrightarrow> split_loop (join [c] (map escapeComponent cs)) acc = acc @ cs"
proof (induction cs arbitrary: acc)
  case (Cons s cs)
  show ?case
  proof (cases cs)
    case Nil
    then show ?thesis
      using split_loop_escaped [of s "[]" acc] Cons.prems by simp
  next
    case (Cons s' cs')
    then show ?thesis
      using split_loop_escaped [of s "c # join [c] (map escapeComponent cs)" acc]
        Cons.IH Cons.prems assms
      by (simp add: split_loop_sep)
  qed
qed simp

lemma join_loop_Suc:
  "list_all ordinary cs \<Longrightarrow> join_loop (Suc n) cs acc = acc @ map escapeComponent cs"
  by (induction cs arbitrary: n acc) (auto simp: Let_def ordinary_def)

lemma JoinComponents_eq:
  assumes "list_all ordinary (s # cs)"
  shows "JoinComponents (s # cs) sep =
     (if drive_letter s then '''' else sep) @ join sep (map escapeComponent (s # cs))"
proof -
  have "join_loop 0 (s # cs) [] = (if drive_letter s then [] else ['''']) @ map escapeComponent (s # cs)"
    using assms by (auto simp: Let_def ordinary_def join_loop_Suc)
  then show ?thesis
    by (simp add: JoinComponents_def join_Cons)
qed

lemma Split_Join:
  assumes "list_all ordinary cs" and "is_sep c"
  shows "SplitComponents (JoinComponents cs [c]) = cs"
proof (cases cs)
  case Nil
  then show ?thesis by (simp add: JoinComponents_def SplitComponents_def)
next
  case (Cons s cs')
  then show ?thesis
    using assms JoinComponents_eq [of s cs' "[c]"] split_loop_join [of c cs "[]"]
    by (auto simp: SplitComponents_def split_loop_sep)
qed

section \<open>The interface of a path serialisation\<close>

text \<open>What the users of a path syntax rely on: parsing always gives well formed components,
  and printing well formed components is undone by parsing.\<close>

locale path_codec =
  fixes valid :: "'c list \<Rightarrow> bool"
    and parse :: "'s \<Rightarrow> 'c list"
    and print :: "'c list \<Rightarrow> 's"
  assumes valid_parse: "valid (parse s)"
    and parse_print: "valid cs \<Longrightarrow> parse (print cs) = cs"
begin

lemma normal: "parse (print (parse s)) = parse s"
  by (simp add: valid_parse parse_print)

lemma print_inj: "valid cs \<Longrightarrow> valid ds \<Longrightarrow> print cs = print ds \<longleftrightarrow> cs = ds"
  using parse_print by metis

lemma canonical: "print (parse s) = print (parse t) \<longleftrightarrow> parse s = parse t"
  by (simp add: print_inj valid_parse)

end

interpretation slash_path: path_codec "list_all ordinary" SplitComponents
  "\<lambda>cs. JoinComponents cs ''/''"
  by unfold_locales (simp_all add: SplitComponents_ordinary Split_Join is_sep_def)

interpretation backslash_path: path_codec "list_all ordinary" SplitComponents
  "\<lambda>cs. JoinComponents cs [CHR 0x5C]"
  by unfold_locales (simp_all add: SplitComponents_ordinary Split_Join is_sep_def)

section \<open>Properties\<close>

text \<open>C35: Serialising a path and parsing it again gives the same components, for either
  separator, also when the components contain separators, quotes or a drive letter;
  only empty, \<^verbatim>\<open>.\<close> and \<^verbatim>\<open>..\<close> components are excluded.\<close>

theorem JoinComponents_roundtrip:
  assumes "list_all ordinary cs"
  shows "SplitComponents (JoinComponents cs ''/'') = cs \<and>
    SplitComponents (JoinComponents cs [CHR 0x5C]) = cs"
  using slash_path.parse_print backslash_path.parse_print assms by blast

theorem JoinComponents_roundtrip_witness:
  "SplitComponents (JoinComponents [''C:'', [CHR ''a'', CHR 0x22, CHR ''/'', CHR ''b''], ''x''] ''/'') =
     [''C:'', [CHR ''a'', CHR 0x22, CHR ''/'', CHR ''b''], ''x'']"
  using JoinComponents_roundtrip [of "[''C:'', [CHR ''a'', CHR 0x22, CHR ''/'', CHR ''b''], ''x'']"]
  by (simp add: ordinary_def)

text \<open>C36: Whatever string is parsed, no component is empty, \<^verbatim>\<open>.\<close> or \<^verbatim>\<open>..\<close>, so a parsed path
  never climbs out of its root; and printing a parsed path gives a normal form: it parses
  to the same components, and two strings have the same normal form exactly when they
  have the same components.\<close>

theorem SplitComponents_normal:
  "set (SplitComponents p) \<inter> {'''', ''.'', ''..''} = {} \<and>
   SplitComponents (JoinComponents (SplitComponents p) ''/'') = SplitComponents p \<and>
   (JoinComponents (SplitComponents p) ''/'' = JoinComponents (SplitComponents q) ''/'' \<longleftrightarrow>
    SplitComponents p = SplitComponents q)"
  using SplitComponents_ordinary [of p] slash_path.normal [of p] slash_path.canonical [of p q]
  by (auto simp: list_all_iff ordinary_def)

end
