(* ===== verification/Path_Specs.thy ===== *)
theory Path_Specs
  imports Components Slices
begin

text \<open>
  Typed paths of the datastore and the file store: \<^verbatim>\<open>file_store/api/paths.go\<close> (the path
  types), \<^verbatim>\<open>file_store/api/extensions.go\<close> (the file name extension of each type and back)
  and \<^verbatim>\<open>file_store/path_specs\<close> (the two path specification objects and the generic
  component lists exchanged with file system accessors).
\<close>

section \<open>Types and extensions\<close>

datatype PathType =
    PATH_TYPE_DATASTORE_JSON
  | PATH_TYPE_DATASTORE_PROTO
  | PATH_TYPE_DATASTORE_DIRECTORY
  | PATH_TYPE_DATASTORE_UNKNOWN
  | PATH_TYPE_FILESTORE_JSON
  | PATH_TYPE_FILESTORE_JSON_INDEX
  | PATH_TYPE_FILESTORE_JSON_TIME_INDEX
  | PATH_TYPE_FILESTORE_SPARSE_IDX
  | PATH_TYPE_FILESTORE_DOWNLOAD_ZIP
  | PATH_TYPE_FILESTORE_DOWNLOAD_REPORT
  | PATH_TYPE_FILESTORE_CHUNK_INDEX
  | PATH_TYPE_FILESTORE_TMP
  | PATH_TYPE_FILESTORE_CSV
  | PATH_TYPE_FILESTORE_YAML
  | PATH_TYPE_FILESTORE_DB
  | PATH_TYPE_FILESTORE_DB_JSON
  | PATH_TYPE_FILESTORE_ANY

fun PathType_String :: "PathType \<Rightarrow> string" where
  "PathType_String PATH_TYPE_DATASTORE_JSON = ''PATH_TYPE_DATASTORE_JSON''"
| "PathType_String PATH_TYPE_DATASTORE_PROTO = ''PATH_TYPE_DATASTORE_PROTO''"
| "PathType_String PATH_TYPE_DATASTORE_DIRECTORY = ''PATH_TYPE_DATASTORE_DIRECTORY''"
| "PathType_String PATH_TYPE_DATASTORE_UNKNOWN = ''PATH_TYPE_DATASTORE_UNKNOWN''"
| "PathType_String PATH_TYPE_FILESTORE_JSON = ''PATH_TYPE_FILESTORE_JSON''"
| "PathType_String PATH_TYPE_FILESTORE_JSON_INDEX = ''PATH_TYPE_FILESTORE_JSON_INDEX''"
| "PathType_String PATH_TYPE_FILESTORE_JSON_TIME_INDEX = ''PATH_TYPE_FILESTORE_JSON_TIME_INDEX''"
| "PathType_String PATH_TYPE_FILESTORE_SPARSE_IDX = ''PATH_TYPE_FILESTORE_SPARSE_IDX''"
| "PathType_String PATH_TYPE_FILESTORE_DOWNLOAD_ZIP = ''PATH_TYPE_FILESTORE_DOWNLOAD_ZIP''"
| "PathType_String PATH_TYPE_FILESTORE_CHUNK_INDEX = ''PATH_TYPE_FILESTORE_CHUNK_INDEX''"
| "PathType_String PATH_TYPE_FILESTORE_DOWNLOAD_REPORT = ''PATH_TYPE_FILESTORE_DOWNLOAD_REPORT''"
| "PathType_String PATH_TYPE_FILESTORE_TMP = ''PATH_TYPE_FILESTORE_TMP''"
| "PathType_String PATH_TYPE_FILESTORE_CSV = ''PATH_TYPE_FILESTORE_CSV''"
| "PathType_String PATH_TYPE_FILESTORE_YAML = ''PATH_TYPE_FILESTORE_YAML''"
| "PathType_String PATH_TYPE_FILESTORE_DB = ''PATH_TYPE_FILESTORE_DB''"
| "PathType_String PATH_TYPE_FILESTORE_DB_JSON = ''PATH_TYPE_FILESTORE_DB_JSON''"
| "PathType_String PATH_TYPE_FILESTORE_ANY = ''PATH_TYPE_FILESTORE_ANY''"

definition GetExtensionForDatastore :: "PathType \<Rightarrow> string" where
  "GetExtensionForDatastore t =
     (case t of
        PATH_TYPE_DATASTORE_PROTO \<Rightarrow> ''.db''
      | PATH_TYPE_DATASTORE_JSON \<Rightarrow> ''.json.db''
      | PATH_TYPE_DATASTORE_DIRECTORY \<Rightarrow> ''''
      | _ \<Rightarrow> ''.db'')"

definition GetExtensionForFilestore :: "PathType \<Rightarrow> string result" where
  "GetExtensionForFilestore t =
     (case t of
        PATH_TYPE_DATASTORE_PROTO \<Rightarrow> Err (Panic ''datastore path used for filestore'')
      | PATH_TYPE_DATASTORE_JSON \<Rightarrow> Err (Panic ''datastore path used for filestore'')
      | PATH_TYPE_FILESTORE_JSON \<Rightarrow> Ok ''.json''
      | PATH_TYPE_FILESTORE_JSON_INDEX \<Rightarrow> Ok ''.json.index''
      | PATH_TYPE_FILESTORE_JSON_TIME_INDEX \<Rightarrow> Ok ''.json.tidx''
      | PATH_TYPE_FILESTORE_SPARSE_IDX \<Rightarrow> Ok ''.idx''
      | PATH_TYPE_FILESTORE_DOWNLOAD_ZIP \<Rightarrow> Ok ''.zip''
      | PATH_TYPE_FILESTORE_CHUNK_INDEX \<Rightarrow> Ok ''.chunk''
      | PATH_TYPE_FILESTORE_DOWNLOAD_REPORT \<Rightarrow> Ok ''.html''
      | PATH_TYPE_FILESTORE_TMP \<Rightarrow> Ok ''.tmp''
      | PATH_TYPE_FILESTORE_CSV \<Rightarrow> Ok ''.csv''
      | PATH_TYPE_FILESTORE_YAML \<Rightarrow> Ok ''.yaml''
      | PATH_TYPE_FILESTORE_DB \<Rightarrow> Ok ''.db''
      | PATH_TYPE_FILESTORE_DB_JSON \<Rightarrow> Ok ''.json.db''
      | PATH_TYPE_FILESTORE_ANY \<Rightarrow> Ok ''''
      | _ \<Rightarrow> Ok '''')"

text \<open>The slice \<^verbatim>\<open>name[:len(name)-n]\<close>, which panics when \<open>n\<close> exceeds the length.\<close>

definition cut :: "string \<Rightarrow> nat \<Rightarrow> string result" where
  "cut name n =
     (if n \<le> length name then Ok (take (length name - n) name)
      else Err (Panic ''slice bounds out of range''))"

definition GetDataStorePathTypeFromExtension :: "string \<Rightarrow> PathType \<times> string result" where
  "GetDataStorePathTypeFromExtension name =
     (if has_suffix name ''.json.db'' then (PATH_TYPE_DATASTORE_JSON, cut name 8)
      else if has_suffix name ''.db'' then (PATH_TYPE_DATASTORE_PROTO, cut name 3)
      else (PATH_TYPE_DATASTORE_UNKNOWN, Ok name))"

definition GetFileStorePathTypeFromExtension :: "string \<Rightarrow> PathType \<times> string result" where
  "GetFileStorePathTypeFromExtension name =
     (if has_suffix name ''.json'' then (PATH_TYPE_FILESTORE_JSON, cut name 5)
      else if has_suffix name ''.json.index'' then (PATH_TYPE_FILESTORE_JSON_INDEX, cut name 11)
      else if has_suffix name ''.json.tidx'' then (PATH_TYPE_FILESTORE_JSON_TIME_INDEX, cut name 10)
      else if has_suffix name ''.json.db'' then (PATH_TYPE_FILESTORE_DB_JSON, cut name 8)
      else if has_suffix name ''.idx'' then (PATH_TYPE_FILESTORE_SPARSE_IDX, cut name 4)
      else if has_suffix name ''.zip'' then (PATH_TYPE_FILESTORE_DOWNLOAD_ZIP, cut name 4)
      else if has_suffix name ''.chunk'' then (PATH_TYPE_FILESTORE_CHUNK_INDEX, cut name 7)
      else if has_suffix name ''.html'' then (PATH_TYPE_FILESTORE_DOWNLOAD_REPORT, cut name 5)
      else if has_suffix name ''.tmp'' then (PATH_TYPE_FILESTORE_TMP, cut name 4)
      else if has_suffix name ''.csv'' then (PATH_TYPE_FILESTORE_CSV, cut name 4)
      else if has_suffix name ''.db'' then (PATH_TYPE_FILESTORE_DB, cut name 3)
      else if has_suffix name ''.yaml'' then (PATH_TYPE_FILESTORE_YAML, cut name 5)
      else (PATH_TYPE_FILESTORE_ANY, Ok name))"

section \<open>Path specifications\<close>

record DSPathSpec =
  components :: "string list"
  path_type :: PathType
  is_safe :: bool
  is_dir :: bool
  tag :: string
  cached_client_path :: "string option"

record FSPathSpec =
  DSPathSpec_of :: DSPathSpec  \<comment> \<open>the embedded struct\<close>
  fs_tag :: string
  fs_cached_client_path :: "string option"

definition DS_SetDir :: "DSPathSpec \<Rightarrow> DSPathSpec" where
  "DS_SetDir self = self\<lparr>is_dir := True, path_type := PATH_TYPE_DATASTORE_DIRECTORY\<rparr>"

definition DS_Base :: "DSPathSpec \<Rightarrow> string" where
  "DS_Base self =
     (if length (components self) = 0 then ''''
      else components self ! (length (components self) - 1))"

definition DS_SetTag :: "DSPathSpec \<Rightarrow> string \<Rightarrow> DSPathSpec" where
  "DS_SetTag self t = self\<lparr>tag := t\<rparr>"

definition DS_Dir :: "DSPathSpec \<Rightarrow> DSPathSpec" where
  "DS_Dir self =
     \<lparr>components = (if length (components self) > 0
                    then take (length (components self) - 1) (components self)
                    else components self),
      path_type = PATH_TYPE_DATASTORE_DIRECTORY, is_safe = False, is_dir = True,
      tag = '''', cached_client_path = None\<rparr>"

definition DS_AddChild :: "DSPathSpec \<Rightarrow> string list \<Rightarrow> DSPathSpec" where
  "DS_AddChild self child =
     \<lparr>components = components self @ child, path_type = path_type self, is_safe = is_safe self,
      is_dir = False, tag = '''', cached_client_path = None\<rparr>"

definition DS_AddUnsafeChild :: "DSPathSpec \<Rightarrow> string list \<Rightarrow> DSPathSpec" where
  "DS_AddUnsafeChild self child =
     \<lparr>components = components self @ child, path_type = path_type self, is_safe = False,
      is_dir = False, tag = '''', cached_client_path = None\<rparr>"

definition DS_SetType :: "DSPathSpec \<Rightarrow> PathType \<Rightarrow> DSPathSpec" where
  "DS_SetType self ext =
     \<lparr>components = components self, path_type = ext, is_safe = is_safe self,
      is_dir = False, tag = '''', cached_client_path = None\<rparr>"

text \<open>The printed path is computed once and kept in the object.\<close>

definition DS_AsClientPath :: "DSPathSpec \<Rightarrow> string \<times> DSPathSpec" where
  "DS_AsClientPath self =
     (case cached_client_path self of
        Some p \<Rightarrow> (p, self)
      | None \<Rightarrow>
          (let res = JoinComponents (components self) ''/'' @
                     GetExtensionForDatastore (path_type self)
           in (res, self\<lparr>cached_client_path := Some res\<rparr>)))"

definition DS_AsFilestorePath :: "DSPathSpec \<Rightarrow> FSPathSpec" where
  "DS_AsFilestorePath self =
     \<lparr>DSPathSpec_of =
        \<lparr>components = components self, path_type = PATH_TYPE_FILESTORE_JSON,
         is_safe = is_safe self, is_dir = False, tag = '''', cached_client_path = None\<rparr>,
      fs_tag = '''', fs_cached_client_path = None\<rparr>"

definition NewUnsafeDatastorePath :: "string list \<Rightarrow> DSPathSpec" where
  "NewUnsafeDatastorePath path_components =
     \<lparr>components = path_components, path_type = PATH_TYPE_DATASTORE_JSON, is_safe = False,
      is_dir = False, tag = '''', cached_client_path = None\<rparr>"

definition NewSafeDatastorePath :: "string list \<Rightarrow> DSPathSpec" where
  "NewSafeDatastorePath path_components =
     \<lparr>components = path_components, path_type = PATH_TYPE_DATASTORE_JSON, is_safe = True,
      is_dir = False, tag = '''', cached_client_path = None\<rparr>"

text \<open>A file store path with fresh tag and cache around a datastore path.\<close>

definition mk_fs :: "string list \<Rightarrow> PathType \<Rightarrow> bool \<Rightarrow> FSPathSpec" where
  "mk_fs cs t safe =
     \<lparr>DSPathSpec_of = \<lparr>components = cs, path_type = t, is_safe = safe, is_dir = False,
                       tag = '''', cached_client_path = None\<rparr>,
      fs_tag = '''', fs_cached_client_path = None\<rparr>"

abbreviation fs_components :: "FSPathSpec \<Rightarrow> string list" where
  "fs_components p \<equiv> components (DSPathSpec_of p)"

abbreviation fs_type :: "FSPathSpec \<Rightarrow> PathType" where
  "fs_type p \<equiv> path_type (DSPathSpec_of p)"

abbreviation fs_safe :: "FSPathSpec \<Rightarrow> bool" where
  "fs_safe p \<equiv> is_safe (DSPathSpec_of p)"

definition FS_Dir :: "FSPathSpec \<Rightarrow> FSPathSpec" where
  "FS_Dir self =
     mk_fs (if length (fs_components self) > 0
            then take (length (fs_components self) - 1) (fs_components self)
            else fs_components self) (fs_type self) False"

definition FS_SetTag :: "FSPathSpec \<Rightarrow> string \<Rightarrow> FSPathSpec" where
  "FS_SetTag self t = self\<lparr>fs_tag := t\<rparr>"

definition FS_AsDatastorePath :: "FSPathSpec \<Rightarrow> DSPathSpec" where
  "FS_AsDatastorePath self = DS_SetType (DSPathSpec_of self) PATH_TYPE_DATASTORE_JSON"

definition FS_AddChild :: "FSPathSpec \<Rightarrow> string list \<Rightarrow> FSPathSpec" where
  "FS_AddChild self child = mk_fs (fs_components self @ child) (fs_type self) (fs_safe self)"

definition FS_AddUnsafeChild :: "FSPathSpec \<Rightarrow> string list \<Rightarrow> FSPathSpec" where
  "FS_AddUnsafeChild self child = mk_fs (fs_components self @ child) (fs_type self) False"

definition FS_SetType :: "FSPathSpec \<Rightarrow> PathType \<Rightarrow> FSPathSpec" where
  "FS_SetType self ext = mk_fs (fs_components self) ext (fs_safe self)"

definition FS_AsClientPath :: "FSPathSpec \<Rightarrow> (string \<times> FSPathSpec) result" where
  "FS_AsClientPath self =
     (case fs_cached_client_path self of
        Some p \<Rightarrow> Ok (p, self)
      | None \<Rightarrow>
          map_sum id
            (\<lambda>ext. let res = JoinComponents (fs_components self) ''/'' @ ext
                   in (res, self\<lparr>fs_cached_client_path := Some res\<rparr>))
            (GetExtensionForFilestore (fs_type self)))"

definition NewUnsafeFilestorePath :: "string list \<Rightarrow> FSPathSpec" where
  "NewUnsafeFilestorePath path_components = mk_fs path_components PATH_TYPE_FILESTORE_JSON False"

definition NewSafeFilestorePath :: "string list \<Rightarrow> FSPathSpec" where
  "NewSafeFilestorePath path_components = mk_fs path_components PATH_TYPE_FILESTORE_JSON True"

section \<open>Generic component lists\<close>

fun sub_path_loop :: "string list \<Rightarrow> string list \<Rightarrow> bool" where
  "sub_path_loop [] child = True"
| "sub_path_loop (p # ps) [] = False"
| "sub_path_loop (p # ps) (c # cs) = (if p \<noteq> c then False else sub_path_loop ps cs)"

definition IsSubPath :: "FSPathSpec \<Rightarrow> FSPathSpec \<Rightarrow> bool" where
  "IsSubPath parent child =
     (if length (fs_components parent) > length (fs_components child) then False
      else sub_path_loop (fs_components parent) (fs_components child))"

definition AsGenericComponentList :: "FSPathSpec \<Rightarrow> string list result" where
  "AsGenericComponentList path =
     (let cs = fs_components path
      in if length cs > 0
         then map_sum id (\<lambda>ext. cs[length cs - 1 := (cs ! (length cs - 1)) @ ext])
                (GetExtensionForFilestore (fs_type path))
         else Ok cs)"

text \<open>The directories whose files have no type; an empty pattern component matches any.\<close>

definition anyPrefixes :: "string list list" where
  "anyPrefixes =
     [[''public''], [''backups''], [''temp''],
      [''clients'', '''', ''collections'', '''', ''uploads''],
      [''notebooks'', '''', ''attach''],
      [''notebooks'', '''', '''', ''uploads''],
      [''clients'', '''', ''collections'', '''', ''notebook'', '''', ''attach''],
      [''clients'', '''', ''collections'', '''', ''notebook'', '''', '''', ''uploads''],
      [''clients'', '''', ''monitoring_notebooks'', '''', ''attach''],
      [''clients'', '''', ''monitoring_notebooks'', '''', '''', ''uploads''],
      [''hunts'', '''', ''notebook'', '''', ''attach''],
      [''hunts'', '''', ''notebook'', '''', '''', ''uploads'']]"

fun match_prefix_loop :: "string list \<Rightarrow> string list \<Rightarrow> bool" where
  "match_prefix_loop cs [] = True"
| "match_prefix_loop [] (m # ms) = False"
| "match_prefix_loop (c # cs) (m # ms) =
     (if m \<noteq> '''' \<and> c \<noteq> m then False else match_prefix_loop cs ms)"

definition matchPrefix :: "string list \<Rightarrow> string list \<Rightarrow> bool" where
  "matchPrefix cs ms = (if length cs < length ms then False else match_prefix_loop cs ms)"

fun MatchComponentPattern :: "string list \<Rightarrow> string list list \<Rightarrow> bool" where
  "MatchComponentPattern cs [] = False"
| "MatchComponentPattern cs (pat # patterns) =
     (if matchPrefix cs pat then True else MatchComponentPattern cs patterns)"

definition IsComponentUntyped :: "string list \<Rightarrow> bool" where
  "IsComponentUntyped cs = MatchComponentPattern cs anyPrefixes"

definition getTypeFromComponents :: "string list \<Rightarrow> (string list \<times> PathType) result" where
  "getTypeFromComponents cs =
     (if length cs = 0 \<or> IsComponentUntyped cs then Ok (cs, PATH_TYPE_FILESTORE_ANY)
      else (let (t, name) = GetFileStorePathTypeFromExtension (cs ! (length cs - 1))
            in map_sum id (\<lambda>n. (take (length cs - 1) cs @ [n], t)) name))"

definition FromGenericComponentList :: "string list \<Rightarrow> FSPathSpec result" where
  "FromGenericComponentList cs =
     map_sum id (\<lambda>(cs, t). FS_SetType (NewUnsafeFilestorePath cs) t) (getTypeFromComponents cs)"

definition ToAnyType :: "FSPathSpec \<Rightarrow> FSPathSpec result" where
  "ToAnyType p =
     (if fs_type p \<noteq> PATH_TYPE_FILESTORE_ANY then
        map_sum id (\<lambda>cs. FS_SetType (NewUnsafeFilestorePath cs) PATH_TYPE_FILESTORE_ANY)
          (AsGenericComponentList p)
      else Ok p)"

section \<open>Extensions and types\<close>

lemma has_suffix_appendI: "has_suffix e s \<Longrightarrow> has_suffix (n @ e) s"
  by (auto simp: has_suffix_iff)

text \<open>A suffix no longer than the extension is a suffix of the extension.\<close>

lemma has_suffix_append_le:
  "length s \<le> length e \<Longrightarrow> has_suffix (n @ e) s \<longleftrightarrow> has_suffix e s"
  by (auto simp: has_suffix_def)

text \<open>A suffix longer than the extension fails when it differs at the end.\<close>

lemma has_suffix_append_gt:
  assumes "length e \<le> length s"
  shows "has_suffix (n @ e) s \<longleftrightarrow>
     drop (length s - length e) s = e \<and> has_suffix n (take (length s - length e) s)"
proof -
  let ?d = "length s - length e"
  have len: "length e = length (drop ?d s)"
    using assms by simp
  have eq: "n @ e = r @ s \<longleftrightarrow> n = r @ take ?d s \<and> drop ?d s = e" for r
    using append_eq_append_conv [of n "r @ take ?d s" e "drop ?d s", OF disjI2, OF len]
    unfolding append_assoc append_take_drop_id eq_commute [of e "drop ?d s"] .
  show ?thesis
    unfolding has_suffix_iff eq by (simp only: ex_simps conj_commute)
qed

lemma cut_append: "cut (n @ e) (length e) = Ok n"
  by (simp add: cut_def)

lemma cut_append_numeral:
  "length e = k \<Longrightarrow> cut (n @ e) k = Ok n"
  by (simp add: cut_def)

lemmas ext_simps = has_suffix_append_le has_suffix_append_gt cut_append_numeral

text \<open>The file store types that have an extension of their own.\<close>

definition typed :: "PathType \<Rightarrow> bool" where
  "typed t \<longleftrightarrow> t \<in> {PATH_TYPE_FILESTORE_JSON, PATH_TYPE_FILESTORE_JSON_INDEX,
     PATH_TYPE_FILESTORE_JSON_TIME_INDEX, PATH_TYPE_FILESTORE_SPARSE_IDX,
     PATH_TYPE_FILESTORE_DOWNLOAD_ZIP, PATH_TYPE_FILESTORE_DOWNLOAD_REPORT,
     PATH_TYPE_FILESTORE_TMP, PATH_TYPE_FILESTORE_CSV, PATH_TYPE_FILESTORE_YAML,
     PATH_TYPE_FILESTORE_DB, PATH_TYPE_FILESTORE_DB_JSON}"

lemma type_of_extension:
  assumes "typed t" and "t = PATH_TYPE_FILESTORE_DB \<Longrightarrow> \<not> has_suffix name ''.json''"
  shows "\<exists>ext. GetExtensionForFilestore t = Ok ext \<and>
     GetFileStorePathTypeFromExtension (name @ ext) = (t, Ok name)"
  using assms unfolding typed_def
  by (elim insertE emptyE; simp add: GetExtensionForFilestore_def
      GetFileStorePathTypeFromExtension_def ext_simps has_suffix_def [of "_ # _"])

lemma chunk_extension:
  "GetFileStorePathTypeFromExtension (name @ ''.chunk'') =
     (PATH_TYPE_FILESTORE_CHUNK_INDEX,
      if name = [] then Err (Panic ''slice bounds out of range'') else Ok (butlast name))"
  by (simp add: GetFileStorePathTypeFromExtension_def ext_simps has_suffix_def [of "_ # _"]
      cut_def butlast_conv_take Suc_le_eq)

lemma generic_list_eq:
  "fs_components p = cs @ [c] \<Longrightarrow> AsGenericComponentList p =
     map_sum id (\<lambda>ext. cs @ [c @ ext]) (GetExtensionForFilestore (fs_type p))"
  by (simp add: AsGenericComponentList_def list_update_append)

lemma getType_eq:
  "\<not> IsComponentUntyped (cs @ [c]) \<Longrightarrow> GetFileStorePathTypeFromExtension c = (t, Ok n) \<Longrightarrow>
     getTypeFromComponents (cs @ [c]) = Ok (cs @ [n], t)"
  by (simp add: getTypeFromComponents_def)

lemma sub_path_loop_prefix: "sub_path_loop ps cs \<longleftrightarrow> (\<exists>rest. cs = ps @ rest)"
  by (induction ps cs rule: sub_path_loop.induct) auto

lemma match_prefix_loop_iff:
  "length ms \<le> length cs \<Longrightarrow>
     match_prefix_loop cs ms \<longleftrightarrow> (\<forall>i < length ms. ms ! i = '''' \<or> cs ! i = ms ! i)"
  by (induction cs ms rule: match_prefix_loop.induct) (auto simp: nth_Cons split: nat.splits)

section \<open>Properties\<close>

text \<open>The type of a typed file store path survives the trip through a generic component
  list: the extension is added to the last component, and reading the list back finds the
  same components and the same type, for every type but the chunk index, outside of the
  untyped directories; a \<^verbatim>\<open>.db\<close> name must not itself end in \<^verbatim>\<open>.json\<close>.\<close>

theorem generic_list_roundtrip:
  assumes "fs_components p = cs @ [c]" and "typed (fs_type p)"
    and "fs_type p = PATH_TYPE_FILESTORE_DB \<Longrightarrow> \<not> has_suffix c ''.json''"
    and "GetExtensionForFilestore (fs_type p) = Ok ext" and "\<not> IsComponentUntyped (cs @ [c @ ext])"
  shows "AsGenericComponentList p = Ok (cs @ [c @ ext]) \<and>
    FromGenericComponentList (cs @ [c @ ext]) = Ok (mk_fs (cs @ [c]) (fs_type p) False)"
proof -
  have "GetFileStorePathTypeFromExtension (c @ ext) = (fs_type p, Ok c)"
    using type_of_extension [OF assms(2,3)] assms(4) by auto
  then show ?thesis
    using assms(1,4) getType_eq [OF assms(5)]
    by (simp add: generic_list_eq FromGenericComponentList_def FS_SetType_def
        NewUnsafeFilestorePath_def mk_fs_def)
qed

text \<open>The chunk index is the exception: reading the type back from its extension removes
  seven bytes where the extension has six, so the last byte of the name is lost, and the
  bare name \<^verbatim>\<open>.chunk\<close> panics.\<close>

theorem chunk_extension_loses_byte:
  "GetExtensionForFilestore PATH_TYPE_FILESTORE_CHUNK_INDEX = Ok ''.chunk'' \<and>
   GetFileStorePathTypeFromExtension (name @ ''.chunk'') =
     (PATH_TYPE_FILESTORE_CHUNK_INDEX,
      if name = [] then Err (Panic ''slice bounds out of range'') else Ok (butlast name))"
  by (simp add: chunk_extension GetExtensionForFilestore_def)

end
