(* ===== verification/Sanitize.thy ===== *)
theory Sanitize
  imports Components
begin

text \<open>
  Encoding of path components as file names, \<^verbatim>\<open>utils/sanitize.go\<close>: \<open>SanitizeString\<close>
  escapes the bytes a file system may not take, \<open>UnsanitizeComponent\<close> decodes. The
  encoder writes to a buffer of fixed size, so a write beyond its end is a panic of the
  model. The validation of artifact names is in the same file. The encoder for zip
  members works on UTF-8 runes and is not modelled; its decoder is.
\<close>

section \<open>Definitions\<close>

definition hexTable :: string where
  "hexTable = ''0123456789ABCDEF''"

definition alnum :: "char \<Rightarrow> bool" where
  "alnum c \<longleftrightarrow> (let n = of_char c :: nat in 65 \<le> n \<and> n \<le> 90 \<or> 97 \<le> n \<and> n \<le> 122 \<or> 48 \<le> n \<and> n \<le> 57)"

definition shouldEscape :: "char \<Rightarrow> bool" where
  "shouldEscape c = (if alnum c then False else c \<notin> set ''-_.~ $'')"

text \<open>The loop that fills the buffer of \<open>len\<close> bytes; \<open>result\<close> is what has been written.\<close>

fun sanitize_loop :: "nat \<Rightarrow> string \<Rightarrow> string \<Rightarrow> string result" where
  "sanitize_loop len result [] = Ok result"
| "sanitize_loop len result (c # cs) =
     (let piece = (if \<not> shouldEscape c then [c]
                   else [CHR ''%'', hexTable ! ((of_char c :: nat) div 16),
                         hexTable ! ((of_char c :: nat) mod 16)]);
          result' = result @ piece
      in if length result' > len then Err (Panic ''index out of range'')
         else if int (length result') > int len - 1 then Ok result'
         else sanitize_loop len result' cs)"

function SanitizeString :: "string \<Rightarrow> string result" where
  "SanitizeString component =
     (if component = [] then Ok ''''
      else if hd component = CHR ''.'' then
        map_sum id (\<lambda>s. ''%2E'' @ s) (SanitizeString (tl component))
      else if hd component = CHR ''#'' then
        map_sum id (\<lambda>s. ''%23'' @ s) (SanitizeString (tl component))
      else if last component = CHR ''.'' then
        map_sum id (\<lambda>s. s @ ''%2E'') (SanitizeString (butlast component))
      else
        (let len = length component;
             component' = (if has_suffix component ''.db'' \<or> has_suffix component ''_''
                           then component @ ''_'' else component);
             len = (if len > 1024 then 1024 else len)
         in sanitize_loop (len * 4) [] component'))"
  by pat_completeness auto
termination
  by (relation "measure length") auto

declare SanitizeString.simps [simp del]

definition unhex :: "char \<Rightarrow> nat" where
  "unhex c =
     (let n = of_char c :: nat
      in if 48 \<le> n \<and> n \<le> 57 then n - 48
         else if 97 \<le> n \<and> n \<le> 102 then n - 97 + 10
         else if 65 \<le> n \<and> n \<le> 70 then n - 65 + 10
         else 0)"

text \<open>The decoding loop. A nibble is below 16, so the shift and bitwise or of two nibbles
  is \<open>16 * a + b\<close>.\<close>

fun unsanitize_loop :: "string \<Rightarrow> string \<Rightarrow> string" where
  "unsanitize_loop result [] = result"
| "unsanitize_loop result (c # cs) =
     (if c = CHR ''%'' then
        (case cs of
           a # b # rest \<Rightarrow> unsanitize_loop (result @ [char_of (unhex a * 16 + unhex b)]) rest
         | _ \<Rightarrow> unsanitize_loop result cs)
      else unsanitize_loop (result @ [c]) cs)"

definition UnsanitizeComponent :: "string \<Rightarrow> string" where
  "UnsanitizeComponent component =
     (let result = unsanitize_loop [] component
      in if result \<noteq> [] \<and> last result = CHR ''_'' then butlast result else result)"

definition UnsanitizeComponentForZip :: "string \<Rightarrow> string" where
  "UnsanitizeComponentForZip component = unsanitize_loop [] component"

text \<open>The regular expressions \<^verbatim>\<open>^[a-zA-Z0-9_. -]+$\<close> and \<^verbatim>\<open>^[0-9]\<close>.\<close>

definition artifactNameRegex :: "string \<Rightarrow> bool" where
  "artifactNameRegex name \<longleftrightarrow> name \<noteq> [] \<and> list_all (\<lambda>c. alnum c \<or> c \<in> set ''_. -'') name"

definition artifactComponentRegex :: "string \<Rightarrow> bool" where
  "artifactComponentRegex s \<longleftrightarrow>
     (case s of [] \<Rightarrow> False | c # _ \<Rightarrow> 48 \<le> (of_char c :: nat) \<and> (of_char c :: nat) \<le> 57)"

fun artifact_parts :: "string list \<Rightarrow> go_error option" where
  "artifact_parts [] = None"
| "artifact_parts (part # parts) =
     (if artifactComponentRegex part
      then Some (Errorf ''Invalid artifact name. Name parts can not start with a number'')
      else artifact_parts parts)"

definition ValidateArtifactName :: "string \<Rightarrow> go_error option" where
  "ValidateArtifactName name =
     (if \<not> artifactNameRegex name then Some (Errorf ''Invalid artifact name'')
      else artifact_parts (split_on (CHR ''.'') name))"

definition ValidateArtifactNameAndSource :: "string \<Rightarrow> go_error option" where
  "ValidateArtifactNameAndSource name =
     (let parts = split_on (CHR ''/'') name
      in case ValidateArtifactName (parts ! 0) of
           Some err \<Rightarrow> Some err
         | None \<Rightarrow>
             if length parts = 1 then None
             else if length parts = 2 then ValidateArtifactName (parts ! 1)
             else Some (Errorf ''Artifact name can only have one source''))"

section \<open>Encoding one byte\<close>

definition enc :: "char \<Rightarrow> string" where
  "enc c = (if \<not> shouldEscape c then [c]
            else [CHR ''%'', hexTable ! ((of_char c :: nat) div 16), hexTable ! ((of_char c :: nat) mod 16)])"

abbreviation encs :: "string \<Rightarrow> string" where
  "encs s \<equiv> concat (map enc s)"

lemma length_enc: "length (enc c) \<le> 3" "0 < length (enc c)"
  by (simp_all add: enc_def)

lemma length_encs: "length (encs s) \<le> 3 * length s"
proof (induction s)
  case (Cons c s)
  then show ?case
    using length_enc [of c] by simp
qed simp

lemma sanitize_loop_fits:
  "length (result @ encs s) \<le> len \<Longrightarrow> sanitize_loop len result s = Ok (result @ encs s)"
proof (induction len result s rule: sanitize_loop.induct)
  case (2 len result c cs)
  show ?case
  proof (cases "length (result @ enc c) < len")
    case True
    then show ?thesis
      using 2 by (simp add: enc_def Let_def split: if_splits)
  next
    case False
    moreover have "length result + length (enc c) + length (encs cs) \<le> len"
      using "2.prems" by simp
    ultimately have "encs cs = []"
      unfolding length_append by (metis add_le_same_cancel1 le_trans le_zero_eq length_0_conv not_le)
    then show ?thesis
      using False "2.prems" by (auto simp: enc_def Let_def split: if_splits)
  qed
qed simp

lemma hex_digit: "n < 16 \<Longrightarrow> unhex (hexTable ! n) = n \<and> alnum (hexTable ! n)"
proof -
  have "\<forall>n \<in> set [0..<16]. unhex (hexTable ! n) = n \<and> alnum (hexTable ! n)"
    by code_simp
  then show "n < 16 \<Longrightarrow> unhex (hexTable ! n) = n \<and> alnum (hexTable ! n)"
    by simp
qed

lemma unescaped_percent: "\<not> shouldEscape c \<Longrightarrow> c \<noteq> CHR ''%''"
  by (auto simp: shouldEscape_def alnum_def Let_def)

lemma of_char_less: "(of_char c :: nat) < 256"
  using of_char_eq_iff by (simp add: of_char_def)

lemma unsanitize_enc: "unsanitize_loop r (enc c @ s) = unsanitize_loop (r @ [c]) s"
proof (cases "shouldEscape c")
  case True
  let ?n = "of_char c :: nat"
  have "?n div 16 < 16" "?n mod 16 < 16"
    using of_char_less [of c] by (simp_all add: less_mult_imp_div_less)
  then have "unhex (hexTable ! (?n div 16)) * 16 + unhex (hexTable ! (?n mod 16)) = ?n"
    using hex_digit by simp
  then show ?thesis
    using True by (simp add: enc_def del: unsanitize_loop.simps) (simp add: char_of_eq_iff)
next
  case False
  then show ?thesis
    using unescaped_percent [of c] by (simp add: enc_def)
qed

lemma unsanitize_encs: "unsanitize_loop r (encs s @ t) = unsanitize_loop (r @ s) t"
  by (induction s arbitrary: r) (simp_all add: unsanitize_enc)

lemma unsanitize_2E: "unsanitize_loop r (''%2E'' @ s) = unsanitize_loop (r @ ''.'') s"
  and unsanitize_23: "unsanitize_loop r (''%23'' @ s) = unsanitize_loop (r @ ''#'') s"
  by (simp_all add: unhex_def char_of_def bit_0)

section \<open>Encoding a component\<close>

text \<open>The component with the mark that protects the names the datastore uses itself.\<close>

definition marked :: "string \<Rightarrow> bool" where
  "marked y \<longleftrightarrow> has_suffix y ''.db'' \<or> has_suffix y ''_''"

definition mark :: "string \<Rightarrow> string" where
  "mark y = (if marked y then y @ ''_'' else y)"

text \<open>The leading bytes that are escaped one by one, and what is left of the rest once its
  trailing dots are removed.\<close>

definition leading :: "char \<Rightarrow> bool" where
  "leading c \<longleftrightarrow> c = CHR ''.'' \<or> c = CHR ''#''"

definition core :: "string \<Rightarrow> string" where
  "core x = dropWhile leading x"

definition strip_dots :: "string \<Rightarrow> string" where
  "strip_dots z = rev (dropWhile (\<lambda>c. c = CHR ''.'') (rev z))"

definition enc_lead :: "string \<Rightarrow> string" where
  "enc_lead l = concat (map (\<lambda>c. if c = CHR ''.'' then ''%2E'' else ''%23'') l)"

definition enc_dots :: "nat \<Rightarrow> string" where
  "enc_dots k = concat (replicate k ''%2E'')"

lemma Sanitize_lead:
  "\<forall>c \<in> set l. leading c \<Longrightarrow>
     SanitizeString (l @ z) = map_sum id (\<lambda>s. enc_lead l @ s) (SanitizeString z)"
proof (induction l)
  case Nil
  then show ?case
    by (cases "SanitizeString z") (simp_all add: enc_lead_def)
next
  case (Cons c l)
  have "SanitizeString (c # l @ z) = map_sum id (\<lambda>s. enc_lead [c] @ s) (SanitizeString (l @ z))"
    using Cons.prems by (subst SanitizeString.simps) (auto simp: enc_lead_def leading_def)
  then show ?case
    using Cons by (cases "SanitizeString z") (simp_all add: enc_lead_def)
qed

lemma Sanitize_core:
  assumes "y \<noteq> []" and "\<not> leading (hd y)" and "last y \<noteq> CHR ''.''" and "length y \<le> 1024"
  shows "SanitizeString y = Ok (encs (mark y))"
proof -
  have "length (encs (mark y)) \<le> length y * 4"
    using length_encs [of "mark y"] length_encs [of y] assms(1)
    by (cases y) (auto simp: mark_def enc_def shouldEscape_def)
  then have "sanitize_loop (length y * 4) [] (mark y) = Ok (encs (mark y))"
    using sanitize_loop_fits [of "[]" "mark y"] by simp
  then show ?thesis
    using assms by (subst SanitizeString.simps) (simp add: leading_def mark_def marked_def)
qed

lemma Sanitize_dots:
  assumes "y \<noteq> []" and "\<not> leading (hd y)" and "last y \<noteq> CHR ''.''" and "length y \<le> 1024"
  shows "SanitizeString (y @ replicate k (CHR ''.'')) = Ok (encs (mark y) @ enc_dots k)"
proof (induction k)
  case 0
  then show ?case
    using Sanitize_core [OF assms] by (simp add: enc_dots_def)
next
  case (Suc k)
  have snoc: "y @ replicate (Suc k) (CHR ''.'') = (y @ replicate k (CHR ''.'')) @ [CHR ''.'']"
    by (simp add: replicate_append_same)
  have "enc_dots (Suc k) = enc_dots k @ ''%2E''"
    unfolding enc_dots_def by (metis concat.simps concat_append replicate_Suc
        replicate_append_same append_Nil2)
  with Suc assms(1,2) show ?case
    unfolding snoc by (subst SanitizeString.simps) (simp add: leading_def hd_append del: append_assoc)
qed

lemma strip_dots_decomp:
  obtains k where "strip_dots z @ replicate k (CHR ''.'') = z"
    and "strip_dots z = [] \<or> last (strip_dots z) \<noteq> CHR ''.''"
    and "k = 0 \<longleftrightarrow> strip_dots z = z"
proof
  let ?t = "takeWhile (\<lambda>c. c = CHR ''.'') (rev z)"
  let ?k = "length (rev ?t)"
  have t: "replicate ?k (CHR ''.'') = rev ?t"
    by (rule replicate_length_same) (auto dest: set_takeWhileD)
  show z: "strip_dots z @ replicate ?k (CHR ''.'') = z"
    unfolding t strip_dots_def rev_append [symmetric] by simp
  show "strip_dots z = [] \<or> last (strip_dots z) \<noteq> CHR ''.''"
    using hd_dropWhile [of "\<lambda>c. c = CHR ''.''" "rev z"] unfolding strip_dots_def
    by (metis last_rev rev_is_Nil_conv)
  show "?k = 0 \<longleftrightarrow> strip_dots z = z"
    using z by (metis append_Nil2 append_self_conv length_replicate replicate_0 list.size(3))
qed

text \<open>The whole encoding of a component that fits the buffer.\<close>

lemma Sanitize_eq:
  assumes "length x \<le> 1024"
  obtains l y k where "x = l @ y @ replicate k (CHR ''.'')" and "l = takeWhile leading x"
    and "y = strip_dots (core x)" and "k = 0 \<longleftrightarrow> strip_dots (core x) = core x"
    and "y \<noteq> [] \<or> k = 0" and "y = [] \<or> last y \<noteq> CHR ''.''"
    and "SanitizeString x = Ok (enc_lead l @ encs (mark y) @ enc_dots k)"
proof -
  define l z y where "l = takeWhile leading x" and "z = core x" and "y = strip_dots z"
  note defs = this
  obtain k where k: "y @ replicate k (CHR ''.'') = z" "y = [] \<or> last y \<noteq> CHR ''.''" "k = 0 \<longleftrightarrow> y = z"
    unfolding defs(3) by (rule strip_dots_decomp)
  have x: "l @ z = x"
    by (simp add: core_def defs)
  have hd: "\<not> leading (hd z)" if "z \<noteq> []"
    using that hd_dropWhile [of leading x] by (simp add: core_def defs(2))
  have y0: "y \<noteq> [] \<or> k = 0"
  proof (rule ccontr)
    assume "\<not> ?thesis"
    then obtain n where "y = []" "k = Suc n"
      by (cases k) auto
    with k(1) have "z \<noteq> []" "hd z = CHR ''.''"
      by auto
    with hd show False
      by (simp add: leading_def)
  qed
  have "SanitizeString z = Ok (encs (mark y) @ enc_dots k)"
  proof (cases "y = []")
    case True
    then show ?thesis
      using y0 k(1) [symmetric]
      by (simp add: SanitizeString.simps mark_def marked_def enc_dots_def has_suffix_def)
  next
    case False
    then have "hd z = hd y" "z \<noteq> []"
      using k(1) [symmetric] by simp_all
    moreover have "length x = length l + length y + k"
      using k(1) [symmetric] x [symmetric] by simp
    ultimately show ?thesis
      using Sanitize_dots [of y k] False hd k(1,2) assms by simp
  qed
  moreover have "\<forall>c \<in> set l. leading c"
    unfolding defs by (auto dest: set_takeWhileD)
  ultimately have "SanitizeString (l @ z) = Ok (enc_lead l @ encs (mark y) @ enc_dots k)"
    by (simp add: Sanitize_lead)
  then show thesis
    using that [of l y k] k x y0 unfolding defs by simp
qed

lemma unsanitize_lead: "\<forall>c \<in> set l. leading c \<Longrightarrow> unsanitize_loop r (enc_lead l @ s) = unsanitize_loop (r @ l) s"
proof (induction l arbitrary: r)
  case (Cons c l)
  then have "enc_lead (c # l) @ s = (if c = CHR ''.'' then ''%2E'' else ''%23'') @ enc_lead l @ s"
    by (simp add: enc_lead_def)
  then show ?case
    using Cons unsanitize_2E [of r "enc_lead l @ s"] unsanitize_23 [of r "enc_lead l @ s"]
    by (auto simp: leading_def simp del: unsanitize_loop.simps)
qed (simp add: enc_lead_def)

lemma unsanitize_dots: "unsanitize_loop r (enc_dots k) = r @ replicate k (CHR ''.'')"
proof (induction k arbitrary: r)
  case (Suc k)
  then show ?case
    using unsanitize_2E [of r "enc_dots k"] by (simp add: enc_dots_def)
qed (simp add: enc_dots_def)

text \<open>The names whose encoding cannot be decoded: the mark is put before the escaped
  trailing dots, where the decoder does not look for it.\<close>

definition ambiguous :: "string \<Rightarrow> bool" where
  "ambiguous x \<longleftrightarrow> strip_dots (core x) \<noteq> core x \<and> marked (strip_dots (core x))"

lemma last_marked: "y \<noteq> [] \<Longrightarrow> last y = CHR ''_'' \<Longrightarrow> marked y"
  unfolding marked_def by (metis append_butlast_last_id has_suffix_append)

lemma mark_replicate: "mark y @ replicate k c = y @ replicate k c \<longleftrightarrow> \<not> marked y"
proof
  assume "mark y @ replicate k c = y @ replicate k c"
  then have "length (mark y) + k = length y + k"
    by (metis length_append length_replicate)
  then show "\<not> marked y"
    by (auto simp: mark_def)
qed (simp add: mark_def)

definition strip_underscore :: "string \<Rightarrow> string" where
  "strip_underscore r = (if r \<noteq> [] \<and> last r = CHR ''_'' then butlast r else r)"

lemma strip_underscore_append:
  "strip_underscore (r @ [c]) = (if c = CHR ''_'' then r else r @ [c])"
  by (simp add: strip_underscore_def)

lemma strip_underscore_id: "r \<noteq> [] \<Longrightarrow> last r \<noteq> CHR ''_'' \<Longrightarrow> strip_underscore r = r"
  by (simp add: strip_underscore_def)

lemma strip_mark:
  assumes "y \<noteq> [] \<or> k = 0" and "\<forall>c \<in> set l. leading c"
  shows "strip_underscore (l @ mark y @ replicate k (CHR ''.'')) = l @ y @ replicate k (CHR ''.'') \<longleftrightarrow>
     \<not> (k \<noteq> 0 \<and> marked y)"
proof (cases k)
  case 0
  have "leading (last l)" if "l \<noteq> []"
    using assms(2) that by simp
  then have l: "l \<noteq> [] \<Longrightarrow> last l \<noteq> CHR ''_''"
    by (auto simp: leading_def)
  show ?thesis
  proof (cases "marked y")
    case True
    then show ?thesis
      using 0 strip_underscore_append [of "l @ y" "CHR ''_''"] by (simp add: mark_def)
  next
    case False
    then have "last (l @ y) \<noteq> CHR ''_''" if "l @ y \<noteq> []"
      using that l last_marked [of y] by (cases "y = []") auto
    then show ?thesis
      using 0 False strip_underscore_id [of "l @ y"]
      by (cases "l @ y = []") (simp_all add: mark_def strip_underscore_def)
  qed
next
  case (Suc n)
  then have "strip_underscore (l @ mark y @ replicate k (CHR ''.'')) = l @ mark y @ replicate k (CHR ''.'')"
    by (intro strip_underscore_id) simp_all
  moreover have "k \<noteq> 0"
    using Suc by simp
  ultimately show ?thesis
    by (simp only: append_same_eq same_append_eq mark_replicate) (simp add: mark_def)
qed

lemma Unsanitize_Sanitize:
  assumes "length x \<le> 1024"
  shows "\<exists>s. SanitizeString x = Ok s \<and> (UnsanitizeComponent s = x \<longleftrightarrow> \<not> ambiguous x)"
proof -
  obtain l y k where x: "x = l @ y @ replicate k (CHR ''.'')" and l: "l = takeWhile leading x"
    and y: "y = strip_dots (core x)" and k: "k = 0 \<longleftrightarrow> strip_dots (core x) = core x"
    and y0: "y \<noteq> [] \<or> k = 0" and "y = [] \<or> last y \<noteq> CHR ''.''"
    and s: "SanitizeString x = Ok (enc_lead l @ encs (mark y) @ enc_dots k)"
    by (rule Sanitize_eq [OF assms])
  have lead: "\<forall>c \<in> set l. leading c"
    unfolding l by (auto dest: set_takeWhileD)
  have "unsanitize_loop [] (enc_lead l @ encs (mark y) @ enc_dots k) =
      l @ mark y @ replicate k (CHR ''.'')"
    by (simp add: unsanitize_lead [OF lead] unsanitize_encs unsanitize_dots)
  then have "UnsanitizeComponent (enc_lead l @ encs (mark y) @ enc_dots k) = x \<longleftrightarrow> \<not> ambiguous x"
    using strip_mark [OF y0 lead] k
    unfolding UnsanitizeComponent_def ambiguous_def y [symmetric] x [symmetric] by (simp add: Let_def strip_underscore_def)
  with s show ?thesis by blast
qed

section \<open>The encoded names\<close>

text \<open>Every byte of an encoded name is one that is never escaped, or the escape byte.\<close>

definition safe_byte :: "char \<Rightarrow> bool" where
  "safe_byte c \<longleftrightarrow> \<not> shouldEscape c \<or> c = CHR ''%''"

lemma enc_safe: "list_all safe_byte (enc c)"
proof -
  have "(of_char c :: nat) div 16 < 16" "(of_char c :: nat) mod 16 < 16"
    using of_char_less [of c] by (simp_all add: less_mult_imp_div_less)
  then show ?thesis
    using hex_digit by (simp add: enc_def safe_byte_def shouldEscape_def)
qed

lemma sanitize_loop_enc:
  "sanitize_loop len result (c # cs) =
     (if length (result @ enc c) > len then Err (Panic ''index out of range'')
      else if int (length (result @ enc c)) > int len - 1 then Ok (result @ enc c)
      else sanitize_loop len (result @ enc c) cs)"
  by (simp add: Let_def enc_def)

declare sanitize_loop.simps(2) [simp del]

lemma sanitize_loop_safe:
  "sanitize_loop len result s = Ok r \<Longrightarrow> list_all safe_byte result \<Longrightarrow>
     list_all safe_byte r \<and> (\<exists>t. r = result @ t \<and> (s \<noteq> [] \<longrightarrow> (\<exists>t'. t = enc (hd s) @ t')))"
proof (induction s arbitrary: result)
  case (Cons c s)
  then show ?case
    using enc_safe [of c] unfolding sanitize_loop_enc by (fastforce split: if_splits)
qed simp

lemma hd_enc: "\<not> leading c \<Longrightarrow> \<not> leading (hd (enc c @ t))"
  by (auto simp: enc_def leading_def)

definition safe_name :: "string \<Rightarrow> bool" where
  "safe_name s \<longleftrightarrow> s \<noteq> [] \<and> list_all safe_byte s \<and> \<not> leading (hd s)"

lemma safe_bytes [simp]: "safe_byte (CHR ''%'')" "safe_byte (CHR ''2'')" "safe_byte (CHR ''3'')"
  "safe_byte (CHR ''E'')"
  by (simp_all add: safe_byte_def shouldEscape_def alnum_def)

lemma map_sum_Ok: "map_sum id f r = Ok s \<longleftrightarrow> (\<exists>t. r = Ok t \<and> s = f t)"
  by (cases r) auto

lemma Sanitize_safe:
  "SanitizeString x = Ok s \<Longrightarrow> list_all safe_byte s \<and> (x \<noteq> [] \<longrightarrow> s \<noteq> [] \<and> \<not> leading (hd s))"
proof (induction x arbitrary: s rule: SanitizeString.induct)
  case (1 x)
  consider "x = []" | "x \<noteq> []" "leading (hd x)" | "x \<noteq> []" "\<not> leading (hd x)" "last x = CHR ''.''"
    | "x \<noteq> []" "\<not> leading (hd x)" "last x \<noteq> CHR ''.''" by blast
  then show ?case
  proof cases
    case 1
    with "1.prems" show ?thesis by (simp add: SanitizeString.simps)
  next
    case 2
    then obtain t where t: "SanitizeString (tl x) = Ok t" "s = ''%2E'' @ t \<or> s = ''%23'' @ t"
      using "1.prems" by (subst (asm) SanitizeString.simps)
        (auto simp: leading_def map_sum_Ok split: if_splits)
    then have "list_all safe_byte t"
      using "1.IH"(1,2) [of t] 2 by (auto simp: leading_def)
    with t(2) show ?thesis by (auto simp: leading_def)
  next
    case 3
    then obtain t where t: "SanitizeString (butlast x) = Ok t" "s = t @ ''%2E''"
      using "1.prems" by (subst (asm) SanitizeString.simps) (auto simp: leading_def map_sum_Ok)
    have "butlast x \<noteq> []"
      using 3 by (cases x rule: rev_cases) (auto simp: leading_def)
    then have "list_all safe_byte t \<and> t \<noteq> [] \<and> \<not> leading (hd t)"
      using "1.IH"(3) [of t] 3 t(1) by (auto simp: leading_def)
    with t(2) show ?thesis by simp
  next
    case 4
    then obtain len y where y: "sanitize_loop len [] y = Ok s" "y \<noteq> []" "hd y = hd x"
      using "1.prems" by (subst (asm) SanitizeString.simps) (auto simp: leading_def Let_def)
    then show ?thesis
      using sanitize_loop_safe [OF y(1)] 4 hd_enc [of "hd x"] length_enc(2) [of "hd x"] by auto
  qed
qed

text \<open>A component of escaped bytes only that is longer than a third of the buffer runs over
  its end: the buffer's size is not a multiple of three.\<close>

lemma sanitize_loop_overrun:
  "list_all shouldEscape s \<Longrightarrow> length result + 3 * length s > len \<Longrightarrow> length result < len \<Longrightarrow>
     length result mod 3 = 0 \<Longrightarrow> len mod 3 \<noteq> 0 \<Longrightarrow>
     sanitize_loop len result s = Err (Panic ''index out of range'')"
proof (induction s arbitrary: result)
  case (Cons c s)
  have enc: "length (enc c) = 3"
    using Cons.prems(1) by (simp add: enc_def)
  show ?case
  proof (cases "length result + 3 > len")
    case True
    then show ?thesis by (simp add: sanitize_loop_enc enc)
  next
    case False
    moreover have "length result + 3 \<noteq> len"
      using Cons.prems(4,5) by auto
    ultimately have "length result + 3 < len" by simp
    moreover have "sanitize_loop len (result @ enc c) s = Err (Panic ''index out of range'')"
      using Cons.prems enc calculation by (intro Cons.IH) auto
    ultimately show ?thesis
      by (simp add: sanitize_loop_enc enc)
  qed
qed simp

lemma Sanitize_overrun:
  assumes "list_all shouldEscape x" and "length x > 1365" and "hd x \<noteq> CHR ''#''"
  shows "SanitizeString x = Err (Panic ''index out of range'')"
proof -
  have x: "x \<noteq> []"
    using assms(2) by auto
  have esc: "shouldEscape (hd x)" "shouldEscape (last x)"
    using assms(1) x by (simp_all add: list_all_iff)
  have dot: "\<not> shouldEscape (CHR ''.'')" "\<not> shouldEscape (CHR ''_'')" "\<not> shouldEscape (CHR ''b'')"
    by (simp_all add: shouldEscape_def alnum_def)
  have "\<not> has_suffix x ''.db''" "\<not> has_suffix x ''_''"
    using esc(2) dot by (auto simp: has_suffix_iff)
  moreover have "hd x \<noteq> CHR ''.''" "last x \<noteq> CHR ''.''"
    using esc dot by auto
  moreover have "sanitize_loop 4096 [] x = Err (Panic ''index out of range'')"
    using assms(1,2) by (intro sanitize_loop_overrun) auto
  ultimately show ?thesis
    using x assms(2,3) by (subst SanitizeString.simps) (simp add: Let_def)
qed

lemma safe_name_ordinary:
  assumes "list_all safe_byte s" and "s \<noteq> []" and "\<not> leading (hd s)"
  shows "ordinary s \<and> set s \<inter> set [CHR ''/'', CHR 0x5C, CHR '':'', CHR 0x00] = {}"
proof -
  have "\<not> safe_byte (CHR ''/'')" "\<not> safe_byte (CHR 0x5C)" "\<not> safe_byte (CHR '':'')" "\<not> safe_byte (CHR 0x00)"
    by (simp_all add: safe_byte_def shouldEscape_def alnum_def)
  then show ?thesis
    using assms by (auto simp: ordinary_def leading_def list_all_iff)
qed

section \<open>Properties\<close>

text \<open>C32: A component of at most 1024 bytes is always encoded, and decoding gives it back
  unless it is ambiguous: unless it has trailing dots and what comes before them (after the
  leading dots and hashes) ends in \<^verbatim>\<open>_\<close> or \<^verbatim>\<open>.db\<close>. For exactly those names decoding gives
  another name, so the encoding is not the perfect round trip the comment asks for.\<close>

theorem SanitizeString_roundtrip:
  assumes "length x \<le> 1024"
  shows "\<exists>s. SanitizeString x = Ok s \<and> (UnsanitizeComponent s = x \<longleftrightarrow> \<not> ambiguous x)"
  using assms by (rule Unsanitize_Sanitize)

theorem SanitizeString_roundtrip_witness:
  "(\<exists>s. SanitizeString ''.a/b_'' = Ok s \<and> UnsanitizeComponent s = ''.a/b_'') \<and>
   (\<exists>s. SanitizeString ''a_.'' = Ok s \<and> UnsanitizeComponent s \<noteq> ''a_.'')"
  using SanitizeString_roundtrip [of "''.a/b_''"] SanitizeString_roundtrip [of "''a_.''"]
  by (auto simp: ambiguous_def strip_dots_def core_def leading_def marked_def has_suffix_def)

text \<open>C33: Whatever the component, an encoded name is one ordinary path component: it is not
  empty, does not start with a dot or a hash, and has no separator, colon or zero byte, so
  a stored name never leaves its directory.\<close>

theorem SanitizeString_safe:
  assumes "SanitizeString x = Ok s" and "x \<noteq> []"
  shows "ordinary s \<and> hd s \<noteq> CHR ''.'' \<and> hd s \<noteq> CHR ''#'' \<and>
    set s \<inter> set [CHR ''/'', CHR 0x5C, CHR '':'', CHR 0x00] = {}"
  using Sanitize_safe [OF assms(1)] assms(2) safe_name_ordinary [of s] by (simp add: leading_def)

theorem SanitizeString_safe_witness:
  "\<exists>s. SanitizeString ''../..'' = Ok s \<and> ordinary s"
proof -
  obtain s where "SanitizeString ''../..'' = Ok s"
    using Unsanitize_Sanitize [of "''../..''"] by auto
  then show ?thesis
    using SanitizeString_safe [of "''../..''" s] by auto
qed

text \<open>A component of more than 1365 bytes that all have to be escaped (such as the 456
  characters of three UTF-8 bytes each) makes the encoder write beyond its buffer and panic.\<close>

theorem SanitizeString_panics:
  assumes "list_all shouldEscape x" and "length x > 1365" and "hd x \<noteq> CHR ''#''"
  shows "SanitizeString x = Err (Panic ''index out of range'')"
  using assms by (rule Sanitize_overrun)

end
