(* ===== verification/Filestore_Names.thy ===== *)
theory Filestore_Names
  imports Path_Specs Sanitize
begin

text \<open>
  File names of datastore and file store paths, \<^verbatim>\<open>datastore/filebased_utils.go\<close>. A component
  is encoded, and one whose encoding is too long for a file system is replaced by a hash;
  the datastore keeps the component under the hash. Parameters: the operating system
  (\<open>windows\<close>), the digest \<open>sha1\<close> of Go's \<^verbatim>\<open>crypto/sha1\<close> as bytes, and \<open>wr\<close>, whether the
  datastore's write of a long name succeeds (the code ignores its error).
\<close>

section \<open>Definitions\<close>

text \<open>The part of the datastore that maps the path of a hash to the components stored there.\<close>

type_synonym lfn_db = "string list \<rightharpoonup> string list"

record DatastoreConfig =
  Location :: string
  FilestoreDirectory :: string

definition os_sep :: "bool \<Rightarrow> string" where
  "os_sep windows = (if windows then [CHR 0x5C] else ''/'')"

definition lfn_prefix :: string where
  "lfn_prefix = [CHR 0x5C, CHR 0x5C, CHR ''?'', CHR 0x5C]"

text \<open>The loop of \<^verbatim>\<open>LFNCompressedHashPath\<close> over the bytes of the hash.\<close>

fun lfn_loop :: "nat \<Rightarrow> string \<Rightarrow> DSPathSpec \<Rightarrow> string \<Rightarrow> DSPathSpec" where
  "lfn_loop i part res [] = (if length part > 0 then DS_AddChild res [part] else res)"
| "lfn_loop i part res (c # cs) =
     (if c = CHR ''#'' then lfn_loop i part res cs
      else (let part = part @ [c]; i = Suc i
            in if i = 3 \<or> i = 12 then lfn_loop i [] (DS_AddChild res [part]) cs
               else lfn_loop i part res cs))"

definition LFNCompressedHashPath :: "string \<Rightarrow> DSPathSpec" where
  "LFNCompressedHashPath hash =
     lfn_loop 0 [] (DS_SetType (NewSafeDatastorePath [''lfn_hashes'']) PATH_TYPE_DATASTORE_JSON) hash"

text \<open>The \<^verbatim>\<open>%x\<close> verb of \<^verbatim>\<open>fmt.Sprintf\<close> on bytes.\<close>

definition hex_byte :: "byte \<Rightarrow> string" where
  "hex_byte b = [''0123456789abcdef'' ! (unat b div 16), ''0123456789abcdef'' ! (unat b mod 16)]"

definition hex_bytes :: "bytes \<Rightarrow> string" where
  "hex_bytes bs = concat (map hex_byte bs)"

definition compressComponent ::
  "(string \<Rightarrow> bytes) \<Rightarrow> bool \<Rightarrow> lfn_db \<Rightarrow> string \<Rightarrow> lfn_db \<times> string" where
  "compressComponent sha1 wr db component =
     (let component_hash = CHR ''#'' # hex_bytes (sha1 component)
      in (if wr then db(components (LFNCompressedHashPath component_hash) \<mapsto> [component]) else db,
          component_hash))"

definition CompressComponent ::
  "(string \<Rightarrow> bytes) \<Rightarrow> bool \<Rightarrow> lfn_db \<Rightarrow> string \<Rightarrow> (lfn_db \<times> string) result" where
  "CompressComponent sha1 wr db component =
     (case SanitizeString component of
        Inl err \<Rightarrow> Err err
      | Inr sanitized_component \<Rightarrow>
          if length sanitized_component < 250 then Ok (db, sanitized_component)
          else Ok (compressComponent sha1 wr db component))"

definition UncompressComponent :: "lfn_db \<Rightarrow> string \<Rightarrow> string" where
  "UncompressComponent db component =
     (if length component = 0 \<or> component ! 0 \<noteq> CHR ''#'' then UnsanitizeComponent component
      else (case db (components (LFNCompressedHashPath component)) of
              None \<Rightarrow> component
            | Some cs \<Rightarrow> if length cs \<noteq> 1 then component else cs ! 0))"

text \<open>The loop of \<^verbatim>\<open>asUnsafeDirWithRoot\<close> over the components.\<close>

fun compress_loop ::
  "(string \<Rightarrow> bytes) \<Rightarrow> bool \<Rightarrow> lfn_db \<Rightarrow> string list \<Rightarrow> string list \<Rightarrow>
   (lfn_db \<times> string list) result" where
  "compress_loop sha1 wr db new_components [] = Ok (db, new_components)"
| "compress_loop sha1 wr db new_components (i # cs) =
     (if i \<noteq> '''' then
        (case CompressComponent sha1 wr db i of
           Inl err \<Rightarrow> Err err
         | Inr (db, name) \<Rightarrow> compress_loop sha1 wr db (new_components @ [name]) cs)
      else compress_loop sha1 wr db new_components cs)"

definition asUnsafeDirWithRoot ::
  "bool \<Rightarrow> (string \<Rightarrow> bytes) \<Rightarrow> bool \<Rightarrow> lfn_db \<Rightarrow> DSPathSpec \<Rightarrow> string \<Rightarrow> (lfn_db \<times> string) result" where
  "asUnsafeDirWithRoot windows sha1 wr db path root =
     map_sum id
       (\<lambda>(db, new_components).
          let result = (if length new_components > 0
                        then os_sep windows @ join (os_sep windows) new_components else '''')
          in (db, if windows then lfn_prefix @ root @ result else root @ result))
       (compress_loop sha1 wr db [] (components path))"

definition asSafeDirWithRoot :: "bool \<Rightarrow> DSPathSpec \<Rightarrow> string \<Rightarrow> string" where
  "asSafeDirWithRoot windows path root =
     (if windows then
        lfn_prefix @ root @ os_sep windows @
          join (os_sep windows) (filter (\<lambda>c. c \<noteq> '''') (components path))
      else root @ os_sep windows @ join (os_sep windows) (components path))"

definition AsDatastoreDirectory ::
  "bool \<Rightarrow> (string \<Rightarrow> bytes) \<Rightarrow> bool \<Rightarrow> DatastoreConfig option \<Rightarrow> lfn_db \<Rightarrow> DSPathSpec \<Rightarrow>
   (lfn_db \<times> string) result" where
  "AsDatastoreDirectory windows sha1 wr cfg db path =
     (let location = (case cfg of None \<Rightarrow> '''' | Some d \<Rightarrow> Location d)
      in if is_safe path then Ok (db, asSafeDirWithRoot windows path location)
         else asUnsafeDirWithRoot windows sha1 wr db path location)"

definition AsDatastoreFilename ::
  "bool \<Rightarrow> (string \<Rightarrow> bytes) \<Rightarrow> bool \<Rightarrow> DatastoreConfig option \<Rightarrow> lfn_db \<Rightarrow> DSPathSpec \<Rightarrow>
   (lfn_db \<times> string) result" where
  "AsDatastoreFilename windows sha1 wr cfg db path =
     map_sum id (\<lambda>(db, dir). (db, dir @ GetExtensionForDatastore (path_type path)))
       (AsDatastoreDirectory windows sha1 wr cfg db path)"

definition AsFilestoreDirectory ::
  "bool \<Rightarrow> (string \<Rightarrow> bytes) \<Rightarrow> bool \<Rightarrow> DatastoreConfig option \<Rightarrow> lfn_db \<Rightarrow> FSPathSpec \<Rightarrow>
   (lfn_db \<times> string) result" where
  "AsFilestoreDirectory windows sha1 wr cfg db path =
     (let data_store_root = (case cfg of None \<Rightarrow> '''' | Some d \<Rightarrow> FilestoreDirectory d)
      in if fs_safe path
         then Ok (db, asSafeDirWithRoot windows (FS_AsDatastorePath path) data_store_root)
         else asUnsafeDirWithRoot windows sha1 wr db (FS_AsDatastorePath path) data_store_root)"

definition AsFilestoreFilename ::
  "bool \<Rightarrow> (string \<Rightarrow> bytes) \<Rightarrow> bool \<Rightarrow> DatastoreConfig option \<Rightarrow> lfn_db \<Rightarrow> FSPathSpec \<Rightarrow>
   (lfn_db \<times> string) result" where
  "AsFilestoreFilename windows sha1 wr cfg db path =
     (case AsFilestoreDirectory windows sha1 wr cfg db path of
        Inl err \<Rightarrow> Err err
      | Inr (db, dir) \<Rightarrow>
          map_sum id (\<lambda>ext. (db, dir @ ext)) (GetExtensionForFilestore (fs_type path)))"

section \<open>Hashes\<close>

lemma hex_byte_inj: "hex_byte a = hex_byte b \<longleftrightarrow> a = b"
proof -
  have digits: "\<forall>i \<in> set [0..<16]. \<forall>j \<in> set [0..<16].
      ''0123456789abcdef'' ! i = ''0123456789abcdef'' ! j \<longrightarrow> i = j"
    by code_simp
  have lt: "unat x < 256" for x :: byte
    using unsigned_less [of x] by simp
  have "unat a = unat b" if "hex_byte a = hex_byte b"
  proof -
    have "unat a div 16 = unat b div 16" "unat a mod 16 = unat b mod 16"
      using that digits lt [of a] lt [of b]
      by (auto simp: hex_byte_def less_mult_imp_div_less)
    then show ?thesis
      by (metis div_mult_mod_eq)
  qed
  then show ?thesis
    by (auto simp: unsigned_word_eqI)
qed

lemma length_hex_bytes: "length (hex_bytes bs) = 2 * length bs"
  by (induction bs) (auto simp: hex_bytes_def hex_byte_def)

lemma hex_bytes_inj: "hex_bytes as = hex_bytes bs \<longleftrightarrow> as = bs"
proof
  assume h: "hex_bytes as = hex_bytes bs"
  then have "length as = length bs"
    using length_hex_bytes by (metis mult_left_cancel zero_neq_numeral)
  then show "as = bs"
    using h
  proof (induction as bs rule: list_induct2)
    case (Cons a as b bs)
    have "hex_byte a = hex_byte b \<and> hex_bytes as = hex_bytes bs"
      using Cons.prems append_eq_append_conv [of "hex_byte a" "hex_byte b"]
      by (simp add: hex_bytes_def hex_byte_def)
    then show ?case
      using Cons.IH hex_byte_inj by simp
  qed simp
qed simp

lemma hex_digits: "c \<in> set (hex_bytes bs) \<Longrightarrow> alnum c"
proof -
  have digits: "\<forall>i \<in> set [0..<16]. alnum (''0123456789abcdef'' ! i)"
    by code_simp
  have "unat x < 256" for x :: byte
    using unsigned_less [of x] by simp
  then have lt: "unat x div 16 < 16" for x :: byte
    by (simp add: less_mult_imp_div_less)
  show "c \<in> set (hex_bytes bs) \<Longrightarrow> alnum c"
    using digits lt by (auto simp: hex_bytes_def hex_byte_def)
qed

lemma alnum_specials: "\<not> alnum (CHR ''#'')" "\<not> alnum (CHR ''/'')" "\<not> alnum (CHR 0x5C)" "\<not> alnum (CHR ''.'')"
  by (simp_all add: alnum_def)

lemma lfn_loop_concat:
  "concat (components (lfn_loop i part res cs)) =
     concat (components res) @ part @ filter (\<lambda>c. c \<noteq> CHR ''#'') cs"
  by (induction i part res cs rule: lfn_loop.induct) (auto simp: DS_AddChild_def Let_def)

lemma LFN_path_concat:
  "concat (components (LFNCompressedHashPath (CHR ''#'' # hex_bytes bs))) = ''lfn_hashes'' @ hex_bytes bs"
proof -
  have "filter (\<lambda>c. c \<noteq> CHR ''#'') (hex_bytes bs) = hex_bytes bs"
    using hex_digits alnum_specials(1) by (auto intro!: filter_True)
  then show ?thesis
    by (simp add: LFNCompressedHashPath_def lfn_loop_concat DS_SetType_def NewSafeDatastorePath_def
        del: lfn_loop.simps)
qed

lemma LFN_path_inj:
  "components (LFNCompressedHashPath (CHR ''#'' # hex_bytes as)) =
   components (LFNCompressedHashPath (CHR ''#'' # hex_bytes bs)) \<longleftrightarrow> as = bs"
proof
  assume "components (LFNCompressedHashPath (CHR ''#'' # hex_bytes as)) =
    components (LFNCompressedHashPath (CHR ''#'' # hex_bytes bs))"
  then have "''lfn_hashes'' @ hex_bytes as = ''lfn_hashes'' @ hex_bytes bs"
    using LFN_path_concat by metis
  then show "as = bs"
    using hex_bytes_inj by simp
qed simp

section \<open>One component\<close>

text \<open>The file name of a component as a function of the component alone.\<close>

definition stored_name :: "(string \<Rightarrow> bytes) \<Rightarrow> string \<Rightarrow> string result" where
  "stored_name sha1 c =
     map_sum id (\<lambda>s. if length s < 250 then s else CHR ''#'' # hex_bytes (sha1 c)) (SanitizeString c)"

text \<open>Components whose stored name determines them: they fit the encoder, and one that is
  stored under its own name is not ambiguous.\<close>

definition storable :: "string \<Rightarrow> bool" where
  "storable c \<longleftrightarrow> c \<noteq> [] \<and> length c \<le> 1024 \<and>
     (ambiguous c \<longrightarrow> (\<exists>s. SanitizeString c = Ok s \<and> 250 \<le> length s))"

text \<open>The database knows every hash of the given components.\<close>

definition knows :: "(string \<Rightarrow> bytes) \<Rightarrow> lfn_db \<Rightarrow> string set \<Rightarrow> bool" where
  "knows sha1 db cs \<longleftrightarrow>
     (\<forall>c \<in> cs. db (components (LFNCompressedHashPath (CHR ''#'' # hex_bytes (sha1 c)))) = Some [c])"

lemma storable_cases:
  assumes "storable c"
  obtains (short) s where "SanitizeString c = Ok s" "stored_name sha1 c = Ok s"
      "length s < 250" "UnsanitizeComponent s = c" "s \<noteq> []" "hd s \<noteq> CHR ''#''"
  | (long) s where "SanitizeString c = Ok s" "250 \<le> length s"
      "stored_name sha1 c = Ok (CHR ''#'' # hex_bytes (sha1 c))"
proof -
  obtain s where s: "SanitizeString c = Ok s" "UnsanitizeComponent s = c \<longleftrightarrow> \<not> ambiguous c"
    using Unsanitize_Sanitize [of c] assms by (auto simp: storable_def)
  have "s \<noteq> []" "hd s \<noteq> CHR ''#''"
    using Sanitize_safe [OF s(1)] assms by (auto simp: storable_def leading_def)
  then show thesis
    using that s assms by (cases "length s < 250") (auto simp: stored_name_def storable_def)
qed

lemma CompressComponent_name:
  "map_sum id snd (CompressComponent sha1 wr db c) = stored_name sha1 c"
  by (cases "SanitizeString c") (simp_all add: CompressComponent_def stored_name_def compressComponent_def Let_def)

lemma Uncompress_stored:
  assumes "storable c" and "stored_name sha1 c = Ok n"
    and "250 \<le> length (projr (SanitizeString c)) \<Longrightarrow> knows sha1 db {c}"
  shows "UncompressComponent db n = c"
  using assms(1)
proof (cases rule: storable_cases [where ?sha1.0 = sha1])
  case (short s)
  then show ?thesis
    using assms(2) by (simp add: UncompressComponent_def hd_conv_nth)
next
  case (long s)
  then show ?thesis
    using assms(2,3) by (simp add: UncompressComponent_def knows_def)
qed

lemma stored_name_safe:
  assumes "storable c" and "stored_name sha1 c = Ok n" and "length (sha1 c) = 20"
  shows "length n < 250 \<and> ordinary n \<and> CHR ''/'' \<notin> set n \<and> CHR 0x5C \<notin> set n"
  using assms(1)
proof (cases rule: storable_cases [where ?sha1.0 = sha1])
  case (short s)
  then show ?thesis
    using assms Sanitize_safe [of c s] safe_name_ordinary [of s] by (auto simp: storable_def)
next
  case (long s)
  have "CHR ''/'' \<notin> set (hex_bytes (sha1 c))" "CHR 0x5C \<notin> set (hex_bytes (sha1 c))"
    using hex_digits alnum_specials by blast+
  then show ?thesis
    using assms long by (auto simp: length_hex_bytes ordinary_def)
qed

lemma stored_name_inj:
  assumes "storable c" and "storable d" and "sha1 c = sha1 d \<longrightarrow> c = d"
    and "stored_name sha1 c = stored_name sha1 d"
  shows "c = d"
proof (cases rule: storable_cases [OF assms(1), where ?sha1.0 = sha1])
  case (1 s)
  show ?thesis
  proof (cases rule: storable_cases [OF assms(2), where ?sha1.0 = sha1])
    case (1 t)
    have "s = t"
      using \<open>stored_name sha1 c = Ok s\<close> 1(2) assms(4) by simp
    then show ?thesis
      using \<open>UnsanitizeComponent s = c\<close> 1(4) by simp
  next
    case (2 t)
    have "s = CHR ''#'' # hex_bytes (sha1 d)"
      using \<open>stored_name sha1 c = Ok s\<close> 2(3) assms(4) by simp
    then show ?thesis
      using \<open>hd s \<noteq> CHR ''#''\<close> by simp
  qed
next
  case (2 s)
  show ?thesis
  proof (cases rule: storable_cases [OF assms(2), where ?sha1.0 = sha1])
    case (1 t)
    have "t = CHR ''#'' # hex_bytes (sha1 c)"
      using 2(3) 1(2) assms(4) by simp
    then show ?thesis
      using \<open>hd t \<noteq> CHR ''#''\<close> by simp
  next
    case (2 t)
    have "hex_bytes (sha1 c) = hex_bytes (sha1 d)"
      using \<open>stored_name sha1 c = Ok (CHR ''#'' # hex_bytes (sha1 c))\<close> 2(3) assms(4) by simp
    then show ?thesis
      using assms(3) by (simp add: hex_bytes_inj)
  qed
qed

section \<open>Whole paths\<close>

lemma knows_mono: "knows sha1 db B \<Longrightarrow> A \<subseteq> B \<Longrightarrow> knows sha1 db A"
  by (auto simp: knows_def)

lemma knows_update:
  assumes "knows sha1 db A" and "\<forall>d \<in> A. sha1 d = sha1 c \<longrightarrow> d = c"
  shows "knows sha1 (db(components (LFNCompressedHashPath (CHR ''#'' # hex_bytes (sha1 c))) \<mapsto> [c]))
    (insert c A)"
  using assms by (auto simp: knows_def LFN_path_inj)

text \<open>The components among \<open>A\<close> that are stored under a hash.\<close>

definition long_names :: "string set \<Rightarrow> string set" where
  "long_names A = {c \<in> A. \<exists>s. SanitizeString c = Ok s \<and> 250 \<le> length s}"

lemma CompressComponent_step:
  assumes "storable c" and "knows sha1 db (long_names A)" and "inj_on sha1 (insert c A)"
  shows "\<exists>db' n. CompressComponent sha1 True db c = Ok (db', n) \<and> stored_name sha1 c = Ok n \<and>
    knows sha1 db' (long_names (insert c A))"
  using assms(1)
proof (cases rule: storable_cases [where ?sha1.0 = sha1])
  case (short s)
  then have "long_names (insert c A) = long_names A"
    by (auto simp: long_names_def)
  then show ?thesis
    using short assms(2) by (simp add: CompressComponent_def)
next
  case (long s)
  have "knows sha1 (db(components (LFNCompressedHashPath (CHR ''#'' # hex_bytes (sha1 c))) \<mapsto> [c]))
      (insert c (long_names A))"
    using assms(2,3) by (intro knows_update) (auto simp: long_names_def inj_on_def)
  then have "knows sha1 (db(components (LFNCompressedHashPath (CHR ''#'' # hex_bytes (sha1 c))) \<mapsto> [c]))
      (long_names (insert c A))"
    by (rule knows_mono) (auto simp: long_names_def)
  then show ?thesis
    using long by (simp add: CompressComponent_def compressComponent_def Let_def)
qed

lemma compress_loop_names:
  assumes "\<forall>c \<in> set cs. c = [] \<or> storable c" and "inj_on sha1 (A \<union> set cs)"
    and "knows sha1 db (long_names A)"
  shows "\<exists>db' ns. compress_loop sha1 True db acc cs = Ok (db', acc @ ns) \<and>
    list_all2 (\<lambda>c n. storable c \<and> stored_name sha1 c = Ok n) (filter (\<lambda>c. c \<noteq> []) cs) ns \<and>
    knows sha1 db' (long_names (A \<union> (set cs - {[]})))"
  using assms
proof (induction cs arbitrary: A db acc)
  case Nil
  then show ?case by simp
next
  case (Cons c cs)
  show ?case
  proof (cases "c = []")
    case True
    have "inj_on sha1 (A \<union> set cs)"
      by (rule inj_on_subset [OF Cons.prems(2)]) auto
    then show ?thesis
      using Cons.IH [of A db acc] Cons.prems True by auto
  next
    case False
    then have c: "storable c"
      using Cons.prems(1) by simp
    have "inj_on sha1 (insert c A)"
      by (rule inj_on_subset [OF Cons.prems(2)]) auto
    then obtain db1 n where step: "CompressComponent sha1 True db c = Ok (db1, n)"
      "stored_name sha1 c = Ok n" "knows sha1 db1 (long_names (insert c A))"
      using CompressComponent_step [OF c Cons.prems(3)] by blast
    have "inj_on sha1 (insert c A \<union> set cs)"
      by (rule inj_on_subset [OF Cons.prems(2)]) auto
    with Cons.IH [of "insert c A" db1 "acc @ [n]"] Cons.prems(1) step(3) obtain db' ns where
      "compress_loop sha1 True db1 (acc @ [n]) cs = Ok (db', (acc @ [n]) @ ns)"
      "list_all2 (\<lambda>c n. storable c \<and> stored_name sha1 c = Ok n) (filter (\<lambda>c. c \<noteq> []) cs) ns"
      "knows sha1 db' (long_names (insert c A \<union> (set cs - {[]})))"
      by auto
    moreover have "insert c A \<union> (set cs - {[]}) = A \<union> (set (c # cs) - {[]})"
      using False by auto
    ultimately show ?thesis
      using step c False by (intro exI [of _ db'] exI [of _ "n # ns"]) simp
  qed
qed

text \<open>The names of the components of a path, and what separates them.\<close>

definition os_path :: "bool \<Rightarrow> string \<Rightarrow> string list \<Rightarrow> string" where
  "os_path windows root ns =
     (if windows then lfn_prefix else []) @ root @ concat (map (\<lambda>n. os_sep windows @ n) ns)"

lemma concat_sep_join:
  "ns \<noteq> [] \<Longrightarrow> concat (map (\<lambda>n. sep @ n) ns) = sep @ join sep ns"
proof (induction ns)
  case (Cons n ns)
  then show ?case by (cases ns) simp_all
qed simp

lemma asUnsafe_os_path:
  "compress_loop sha1 wr db [] (components p) = Ok (db', ns) \<Longrightarrow>
     asUnsafeDirWithRoot windows sha1 wr db p root = Ok (db', os_path windows root ns)"
  by (cases "ns = []") (simp_all add: asUnsafeDirWithRoot_def os_path_def concat_sep_join)

lemma asUnsafe_stored:
  assumes "\<forall>c \<in> set (components p). c = [] \<or> storable c" and "inj_on sha1 (set (components p))"
  shows "\<exists>db' ns. asUnsafeDirWithRoot windows sha1 True db p root = Ok (db', os_path windows root ns) \<and>
    list_all2 (\<lambda>c n. storable c \<and> stored_name sha1 c = Ok n) (filter (\<lambda>c. c \<noteq> []) (components p)) ns \<and>
    map (UncompressComponent db') ns = filter (\<lambda>c. c \<noteq> []) (components p)"
proof -
  let ?cs = "filter (\<lambda>c. c \<noteq> []) (components p)"
  obtain db' ns where loop: "compress_loop sha1 True db [] (components p) = Ok (db', ns)"
    and names: "list_all2 (\<lambda>c n. storable c \<and> stored_name sha1 c = Ok n) ?cs ns"
    and knows: "knows sha1 db' (long_names (set (components p) - {[]}))"
    using compress_loop_names [of "components p" sha1 "{}" db "[]"] assms
    by (auto simp: knows_def long_names_def)
  have inv: "UncompressComponent db' n = c" if c: "c \<in> set ?cs" "storable c" "stored_name sha1 c = Ok n" for c n
  proof (rule Uncompress_stored [OF c(2,3)])
    assume long: "250 \<le> length (projr (SanitizeString c))"
    obtain s where "SanitizeString c = Ok s"
      using c(3) by (cases "SanitizeString c") (simp_all add: stored_name_def)
    with long c(1) show "knows sha1 db' {c}"
      by (intro knows_mono [OF knows]) (auto simp: long_names_def)
  qed
  have "map (UncompressComponent db') ns = ?cs"
    using list_all2_map_inverse [OF names] inv by blast
  then show ?thesis
    using asUnsafe_os_path [OF loop] names by blast
qed

text \<open>Different lists of names give different paths, because no name has a separator.\<close>

lemma os_path_inj:
  assumes "\<forall>n \<in> set ns \<union> set ms. CHR ''/'' \<notin> set n \<and> CHR 0x5C \<notin> set n"
  shows "os_path windows root ns = os_path windows root ms \<longleftrightarrow> ns = ms"
proof
  assume eq: "os_path windows root ns = os_path windows root ms"
  obtain c where c: "os_sep windows = [c]" "c = CHR ''/'' \<or> c = CHR 0x5C"
    by (cases windows) (simp_all add: os_sep_def)
  have split: "split_on c (concat (map (\<lambda>n. [c] @ n) xs)) = [] # xs"
    if "\<forall>n \<in> set xs. c \<notin> set n" for xs
    using that
  proof (induction xs)
    case (Cons x xs)
    then have "split_on c (x @ concat (map (\<lambda>n. [c] @ n) xs)) = x # xs"
      by (cases xs) (simp_all add: split_on_no_sep split_on_append)
    then show ?case by simp
  qed simp
  have "concat (map (\<lambda>n. [c] @ n) ns) = concat (map (\<lambda>n. [c] @ n) ms)"
    using eq by (simp add: os_path_def c(1))
  then show "ns = ms"
    using split [of ns] split [of ms] assms c(2) by (metis UnCI list.inject)
qed simp

lemma AsDatastoreDirectory_unsafe:
  assumes "\<not> is_safe p" and "\<forall>c \<in> set (components p). c = [] \<or> storable c"
    and "inj_on sha1 (set (components p))"
  shows "\<exists>db' ns. AsDatastoreDirectory windows sha1 True cfg db p =
      Ok (db', os_path windows (case cfg of None \<Rightarrow> '''' | Some d \<Rightarrow> Location d) ns) \<and>
    list_all2 (\<lambda>c n. storable c \<and> stored_name sha1 c = Ok n) (filter (\<lambda>c. c \<noteq> []) (components p)) ns \<and>
    map (UncompressComponent db') ns = filter (\<lambda>c. c \<noteq> []) (components p)"
  using asUnsafe_stored [OF assms(2,3)] assms(1) by (simp add: AsDatastoreDirectory_def)

lemma stored_names_safe:
  assumes "list_all2 (\<lambda>c n. storable c \<and> stored_name sha1 c = Ok n) cs ns"
    and "\<forall>c. length (sha1 c) = 20" and "n \<in> set ns"
  shows "length n < 250 \<and> ordinary n \<and> CHR ''/'' \<notin> set n \<and> CHR 0x5C \<notin> set n"
  using assms(1,3)
proof (induction rule: list_all2_induct)
  case (Cons c cs m ns)
  then show ?case
    using stored_name_safe [of c sha1 m] assms(2) by auto
qed simp

lemma stored_lists_eq:
  assumes "list_all2 (\<lambda>c n. storable c \<and> stored_name sha1 c = Ok n) cs ns"
    and "list_all2 (\<lambda>c n. storable c \<and> stored_name sha1 c = Ok n) ds ms"
    and "inj_on sha1 (set cs \<union> set ds)"
  shows "ns = ms \<longleftrightarrow> cs = ds"
proof
  assume "ns = ms"
  show "cs = ds"
  proof (rule list_all2_inj [OF assms(1) assms(2) [folded \<open>ns = ms\<close>]])
    fix c d n
    assume "c \<in> set cs" "d \<in> set ds" and "storable c \<and> stored_name sha1 c = Ok n"
      "storable d \<and> stored_name sha1 d = Ok n"
    then show "c = d"
      using stored_name_inj [of c d sha1] assms(3) by (simp add: inj_on_def)
  qed
next
  assume "cs = ds"
  show "ns = ms"
    by (rule list_all2_fun [OF assms(1) assms(2) [folded \<open>cs = ds\<close>]]) simp
qed

section \<open>Properties\<close>



text \<open>C21: Two unsafe datastore paths of the same type have the same file name exactly when they
  have the same non-empty components, whatever the datastore holds when each is computed.\<close>

theorem AsDatastoreFilename_inj:
  assumes "\<not> is_safe p" and "\<not> is_safe q" and "path_type p = path_type q"
    and "\<forall>c \<in> set (components p) \<union> set (components q). c = [] \<or> storable c"
    and "inj_on sha1 (set (components p) \<union> set (components q))" and "\<forall>c. length (sha1 c) = 20"
  shows "map_sum id snd (AsDatastoreFilename windows sha1 True cfg db p) =
      map_sum id snd (AsDatastoreFilename windows sha1 True cfg db' q) \<longleftrightarrow>
    filter (\<lambda>c. c \<noteq> []) (components p) = filter (\<lambda>c. c \<noteq> []) (components q)"
proof -
  define root where "root = (case cfg of None \<Rightarrow> '''' | Some d \<Rightarrow> Location d)"
  define cs ds where "cs = filter (\<lambda>c. c \<noteq> []) (components p)" and "ds = filter (\<lambda>c. c \<noteq> []) (components q)"
  define P where "P = (\<lambda>c n. storable c \<and> stored_name sha1 c = Ok n)"
  note defs = root_def cs_def ds_def P_def
  have sub: "\<forall>c \<in> set (components p). c = [] \<or> storable c" "\<forall>c \<in> set (components q). c = [] \<or> storable c"
    "inj_on sha1 (set (components p))" "inj_on sha1 (set (components q))"
    using assms(4,5) by (auto intro: inj_on_subset)
  obtain ns db1 where p: "AsDatastoreDirectory windows sha1 True cfg db p = Ok (db1, os_path windows root ns)"
    and ns: "list_all2 P cs ns"
    using AsDatastoreDirectory_unsafe [OF assms(1) sub(1,3), of windows cfg db] unfolding defs by blast
  obtain ms db2 where q: "AsDatastoreDirectory windows sha1 True cfg db' q = Ok (db2, os_path windows root ms)"
    and ms: "list_all2 P ds ms"
    using AsDatastoreDirectory_unsafe [OF assms(2) sub(2,4), of windows cfg db'] unfolding defs by blast
  have "map_sum id snd (AsDatastoreFilename windows sha1 True cfg db p) =
      map_sum id snd (AsDatastoreFilename windows sha1 True cfg db' q) \<longleftrightarrow>
      os_path windows root ns = os_path windows root ms"
    by (simp add: AsDatastoreFilename_def p q assms(3))
  also have "\<dots> \<longleftrightarrow> ns = ms"
    using stored_names_safe [OF ns [unfolded P_def] assms(6)]
      stored_names_safe [OF ms [unfolded P_def] assms(6)] by (intro os_path_inj) auto
  also have "\<dots> \<longleftrightarrow> cs = ds"
    by (rule stored_lists_eq [OF ns [unfolded P_def] ms [unfolded P_def]], rule inj_on_subset [OF assms(5)])
      (auto simp: cs_def ds_def)
  finally show ?thesis
    unfolding defs .
qed

theorem AsDatastoreFilename_inj_witness:
  "map_sum id snd (AsDatastoreFilename False (\<lambda>c. replicate 19 0 @ [of_nat (length c)]) True None Map.empty
     (NewUnsafeDatastorePath [''a'', ''b/''])) \<noteq>
   map_sum id snd (AsDatastoreFilename False (\<lambda>c. replicate 19 0 @ [of_nat (length c)]) True None Map.empty
     (NewUnsafeDatastorePath [''a'']))"
proof -
  have "storable ''a''" "storable ''b/''"
    by (simp_all add: storable_def ambiguous_def strip_dots_def core_def leading_def)
  then show ?thesis
    by (subst AsDatastoreFilename_inj) (simp_all add: NewUnsafeDatastorePath_def)
qed

end
