(* ===== verification/Ring_Spec.thy ===== *)
theory Ring_Spec
  imports Prelude
begin

text \<open>
  What the client promises about its queue of outgoing messages, the interface
  \<^verbatim>\<open>IRingBuffer\<close> of \<^verbatim>\<open>http_comms/ring_buffer.go\<close>, and the filter applied to leased items.
  Items are enqueued, leased in order for transmission, and committed once the server has
  them or rolled back. The specification is a pair of lists, the leased and the pending
  items; the locale \<open>ring_buffer\<close> says that an implementation simulates it. Protocol buffer
  decoding and encoding are the parameters \<open>unmarshal\<close> and \<open>marshal\<close>.
\<close>

section \<open>Filtering of cancelled flows\<close>

record VeloMessage =
  SessionId :: string
  LogMessage :: bool   \<comment> \<open>whether the log message is set\<close>
  FlowStats :: bool    \<comment> \<open>whether the statistics are set\<close>
  Body :: bytes        \<comment> \<open>the other fields\<close>

fun filter_jobs :: "(string \<Rightarrow> bool) \<Rightarrow> VeloMessage list \<Rightarrow> VeloMessage list \<times> bool \<Rightarrow> VeloMessage list \<times> bool" where
  "filter_jobs IsCancelled [] st = st"
| "filter_jobs IsCancelled (message # jobs) (result, modified) =
     (if LogMessage message \<or> FlowStats message \<or> \<not> IsCancelled (SessionId message)
      then filter_jobs IsCancelled jobs (result @ [message], modified)
      else filter_jobs IsCancelled jobs (result, True))"

definition FilterBlackListedItems ::
  "(bytes \<Rightarrow> VeloMessage list option) \<Rightarrow> (VeloMessage list \<Rightarrow> bytes option) \<Rightarrow>
   (string \<Rightarrow> bool) \<Rightarrow> bytes \<Rightarrow> bytes" where
  "FilterBlackListedItems unmarshal marshal IsCancelled item =
     (case unmarshal item of
        None \<Rightarrow> item
      | Some jobs \<Rightarrow>
          if length jobs = 0 then item
          else (let (result, modified) = filter_jobs IsCancelled jobs ([], False)
                in if \<not> modified then item
                   else (case marshal result of None \<Rightarrow> item | Some serialized \<Rightarrow> serialized)))"

text \<open>The messages that pass.\<close>

definition passes :: "(string \<Rightarrow> bool) \<Rightarrow> VeloMessage \<Rightarrow> bool" where
  "passes IsCancelled m \<longleftrightarrow> LogMessage m \<or> FlowStats m \<or> \<not> IsCancelled (SessionId m)"

lemma filter_jobs_eq:
  "filter_jobs C jobs (r, m) = (r @ filter (passes C) jobs, m \<or> \<not> list_all (passes C) jobs)"
  by (induction jobs arbitrary: r m) (auto simp: passes_def)

lemma filter_all: "list_all P xs \<Longrightarrow> filter P xs = xs"
  by (induction xs) auto

lemma FilterBlackListedItems_unmarshal:
  assumes "unmarshal item = Some jobs"
    and "\<forall>js b. marshal js = Some b \<longrightarrow> unmarshal b = Some js"
    and "marshal (filter (passes C) jobs) \<noteq> None"
  shows "unmarshal (FilterBlackListedItems unmarshal marshal C item) = Some (filter (passes C) jobs)"
proof (cases "list_all (passes C) jobs")
  case True
  then show ?thesis
    using assms(1) by (cases jobs) (auto simp: FilterBlackListedItems_def filter_jobs_eq filter_all)
next
  case False
  then have "jobs \<noteq> []"
    by auto
  then show ?thesis
    using assms False by (auto simp: FilterBlackListedItems_def filter_jobs_eq)
qed

section \<open>The abstract queue\<close>

text \<open>How many pending items a lease of \<open>sz\<close> bytes takes when \<open>n\<close> bytes are already
  collected: it stops after the item that exceeds the size.\<close>

fun lease_count :: "(bytes \<Rightarrow> bytes) \<Rightarrow> nat \<Rightarrow> nat \<Rightarrow> bytes list \<Rightarrow> nat" where
  "lease_count flt sz n [] = 0"
| "lease_count flt sz n (x # xs) =
     (let n = n + length (flt x) in if n > sz then 1 else Suc (lease_count flt sz n xs))"

datatype ring_op = Enq bytes | Lease_op nat | Commit_op | Rollback_op

text \<open>Items already committed, leased and pending.\<close>

type_synonym queue = "bytes list \<times> bytes list \<times> bytes list"

fun spec_step :: "(bytes \<Rightarrow> bytes) \<Rightarrow> ring_op \<Rightarrow> queue \<Rightarrow> queue \<times> bytes list" where
  "spec_step flt (Enq x) (c, l, p) = ((c, l, p @ [x]), [])"
| "spec_step flt (Lease_op n) (c, l, p) =
     (let k = lease_count flt n 0 p
      in ((c, l @ take k p, drop k p), [concat (map flt (take k p))]))"
| "spec_step flt Commit_op (c, l, p) = ((c @ l, [], p), [])"
| "spec_step flt Rollback_op (c, l, p) = ((c, [], l @ p), [])"

fun spec_run :: "(bytes \<Rightarrow> bytes) \<Rightarrow> ring_op list \<Rightarrow> queue \<Rightarrow> queue \<times> bytes list" where
  "spec_run flt [] q = (q, [])"
| "spec_run flt (op # ops) q =
     (let (q1, out1) = spec_step flt op q; (q2, out2) = spec_run flt ops q1 in (q2, out1 @ out2))"

definition enqueued :: "ring_op list \<Rightarrow> bytes list" where
  "enqueued ops = concat (map (\<lambda>op. case op of Enq x \<Rightarrow> [x] | _ \<Rightarrow> []) ops)"

definition items :: "queue \<Rightarrow> bytes list" where
  "items q = (case q of (c, l, p) \<Rightarrow> c @ l @ p)"

lemma spec_step_items: "items (fst (spec_step flt op q)) = items q @ enqueued [op]"
  by (cases op; cases q) (auto simp: items_def enqueued_def Let_def)

text \<open>No item is lost, duplicated or reordered: the committed, leased and pending items are
  at any time the items enqueued so far.\<close>

lemma spec_run_items: "items (fst (spec_run flt ops q)) = items q @ enqueued ops"
proof (induction ops arbitrary: q)
  case (Cons op ops)
  show ?case
    using spec_step_items [of flt op q] Cons.IH [of "fst (spec_step flt op q)"]
    by (auto simp: enqueued_def split: prod.splits)
qed (simp add: enqueued_def)

lemma lease_count_le: "lease_count flt sz n xs \<le> length xs"
  by (induction flt sz n xs rule: lease_count.induct) (auto simp: Let_def)

lemma lease_count_pos: "xs \<noteq> [] \<Longrightarrow> 0 < lease_count flt sz n xs"
  by (cases xs) (auto simp: Let_def)

definition nbytes :: "bytes list \<Rightarrow> nat" where
  "nbytes xs = sum_list (map length xs)"

lemma nbytes_append [simp]: "nbytes (xs @ ys) = nbytes xs + nbytes ys"
  by (simp add: nbytes_def)

lemma nbytes_simps [simp]: "nbytes [] = 0" "nbytes (x # xs) = length x + nbytes xs"
  by (simp_all add: nbytes_def)

section \<open>The interface\<close>

text \<open>Running a sequence of operations on an implementation, with the leased payloads.\<close>

fun ring_run ::
  "('s \<Rightarrow> bytes \<Rightarrow> 's) \<Rightarrow> (nat \<Rightarrow> 's \<Rightarrow> bytes \<times> 's) \<Rightarrow> ('s \<Rightarrow> 's) \<Rightarrow> ('s \<Rightarrow> 's) \<Rightarrow>
   ring_op list \<Rightarrow> 's \<Rightarrow> 's \<times> bytes list" where
  "ring_run enq lease commit rollback [] s = (s, [])"
| "ring_run enq lease commit rollback (op # ops) s =
     (case op of
        Enq x \<Rightarrow> ring_run enq lease commit rollback ops (enq s x)
      | Lease_op n \<Rightarrow>
          (let (b, s1) = lease n s; (s2, out) = ring_run enq lease commit rollback ops s1
           in (s2, b # out))
      | Commit_op \<Rightarrow> ring_run enq lease commit rollback ops (commit s)
      | Rollback_op \<Rightarrow> ring_run enq lease commit rollback ops (rollback s))"

text \<open>A rollback is only asked for while something is leased, and the items together fit
  the bounds of the implementation (a count and a number of bytes).\<close>

fun admissible :: "(bytes \<Rightarrow> bytes) \<Rightarrow> (bytes list \<Rightarrow> bool) \<Rightarrow> ring_op list \<Rightarrow> queue \<Rightarrow> bool" where
  "admissible flt fits [] q = True"
| "admissible flt fits (op # ops) q =
     ((case op of
         Enq x \<Rightarrow> fits (items q @ [x])
       | Rollback_op \<Rightarrow> fst (snd q) \<noteq> []
       | _ \<Rightarrow> True) \<and> admissible flt fits ops (fst (spec_step flt op q)))"

locale ring_buffer =
  fixes flt :: "bytes \<Rightarrow> bytes"
    and enq :: "'s \<Rightarrow> bytes \<Rightarrow> 's"
    and lease :: "nat \<Rightarrow> 's \<Rightarrow> bytes \<times> 's"
    and commit :: "'s \<Rightarrow> 's"
    and rollback :: "'s \<Rightarrow> 's"
    and rel :: "'s \<Rightarrow> queue \<Rightarrow> bool"
    and fits :: "bytes list \<Rightarrow> bool"
  assumes rel_enq: "rel s (c, l, p) \<Longrightarrow> fits (c @ l @ p @ [x]) \<Longrightarrow> rel (enq s x) (c, l, p @ [x])"
    and rel_lease: "rel s (c, l, p) \<Longrightarrow>
      fst (lease n s) = concat (map flt (take (lease_count flt n 0 p) p)) \<and>
      rel (snd (lease n s)) (c, l @ take (lease_count flt n 0 p) p, drop (lease_count flt n 0 p) p)"
    and rel_commit: "rel s (c, l, p) \<Longrightarrow> rel (commit s) (c @ l, [], p)"
    and rel_rollback: "rel s (c, l, p) \<Longrightarrow> l \<noteq> [] \<Longrightarrow> rel (rollback s) (c, [], l @ p)"
begin

lemma simulation:
  assumes "rel s q" and "admissible flt fits ops q"
  shows "rel (fst (ring_run enq lease commit rollback ops s)) (fst (spec_run flt ops q)) \<and>
    snd (ring_run enq lease commit rollback ops s) = snd (spec_run flt ops q)"
  using assms
proof (induction ops arbitrary: s q)
  case (Cons op ops)
  obtain c l p where q: "q = (c, l, p)"
    by (cases q)
  show ?case
  proof (cases op)
    case (Enq x)
    then show ?thesis
      using Cons.IH [of "enq s x" "(c, l, p @ [x])"] Cons.prems rel_enq
      by (simp add: q items_def split: prod.splits)
  next
    case (Lease_op n)
    let ?k = "lease_count flt n 0 p"
    have "rel (snd (lease n s)) (c, l @ take ?k p, drop ?k p)"
      and "fst (lease n s) = concat (map flt (take ?k p))"
      using rel_lease Cons.prems(1) q by auto
    then show ?thesis
      using Cons.IH [of "snd (lease n s)" "(c, l @ take ?k p, drop ?k p)"] Cons.prems(2) Lease_op
      by (auto simp: q Let_def split: prod.splits)
  next
    case Commit_op
    then show ?thesis
      using Cons.IH [of "commit s" "(c @ l, [], p)"] Cons.prems rel_commit
      by (simp add: q split: prod.splits)
  next
    case Rollback_op
    then show ?thesis
      using Cons.IH [of "rollback s" "(c, [], l @ p)"] Cons.prems rel_rollback
      by (simp add: q split: prod.splits)
  qed
qed simp

lemma no_loss:
  assumes "rel s q" and "admissible flt fits ops q"
  shows "\<exists>q'. rel (fst (ring_run enq lease commit rollback ops s)) q' \<and> items q' = items q @ enqueued ops"
  using simulation [OF assms] spec_run_items by blast

end

end
