(* ===== verification/Mem_Ring.thy ===== *)
theory Mem_Ring
  imports Ring_Spec
begin

text \<open>
  The in-memory queue of outgoing messages, \<^verbatim>\<open>RingBuffer\<close> of \<^verbatim>\<open>http_comms/ring_buffer.go\<close>. The
  counters are 64 bit words, as in the code. \<open>flt\<close> is the filter of cancelled flows as it
  stands when the lease runs. \<^verbatim>\<open>Enqueue\<close> appends the item and then waits while \<open>Blocked\<close>
  holds; the wait changes nothing, so it is a predicate of the state.
\<close>

section \<open>Definitions\<close>

record RingBuffer =
  messages :: "bytes list"
  closed :: bool
  leased_idx :: u64
  leased_length :: u64
  total_length :: u64
  Size :: u64

definition NewRingBuffer :: "u64 \<Rightarrow> RingBuffer" where
  "NewRingBuffer sz =
     \<lparr>messages = [], closed = False, leased_idx = 0, leased_length = 0, total_length = 0, Size = sz\<rparr>"

definition Reset :: "RingBuffer \<Rightarrow> RingBuffer" where
  "Reset self = self\<lparr>total_length := 0, messages := []\<rparr>"

definition Enqueue :: "RingBuffer \<Rightarrow> bytes \<Rightarrow> RingBuffer" where
  "Enqueue self item =
     (if closed self then self
      else self\<lparr>messages := messages self @ [item],
                total_length := total_length self + of_nat (length item)\<rparr>)"

definition Blocked :: "RingBuffer \<Rightarrow> bool" where
  "Blocked self \<longleftrightarrow> total_length self > Size self \<and> \<not> closed self"

definition TotalSize :: "RingBuffer \<Rightarrow> u64" where
  "TotalSize self = total_length self"

definition AvailableBytes :: "RingBuffer \<Rightarrow> u64" where
  "AvailableBytes self = total_length self - leased_length self"

text \<open>The loop of \<^verbatim>\<open>Lease\<close> over the messages from \<^verbatim>\<open>leased_idx\<close> on.\<close>

fun mem_lease_loop :: "(bytes \<Rightarrow> bytes) \<Rightarrow> nat \<Rightarrow> bytes list \<Rightarrow> bytes \<Rightarrow> RingBuffer \<Rightarrow> bytes \<times> RingBuffer" where
  "mem_lease_loop flt sz [] leased self = (leased, self)"
| "mem_lease_loop flt sz (item # rest) leased self =
     (let leased = leased @ flt item;
          self = self\<lparr>leased_length := leased_length self + of_nat (length item),
                      leased_idx := leased_idx self + 1\<rparr>
      in if length leased > sz then (leased, self)
         else mem_lease_loop flt sz rest leased self)"

definition Lease :: "(bytes \<Rightarrow> bytes) \<Rightarrow> nat \<Rightarrow> RingBuffer \<Rightarrow> bytes \<times> RingBuffer" where
  "Lease flt sz self =
     (if unat (leased_idx self) \<ge> length (messages self) then ([], self)
      else mem_lease_loop flt sz (drop (unat (leased_idx self)) (messages self)) [] self)"

definition Rollback :: "RingBuffer \<Rightarrow> RingBuffer" where
  "Rollback self =
     self\<lparr>total_length := total_length self + leased_length self,
          leased_length := 0, leased_idx := 0\<rparr>"

definition Close :: "RingBuffer \<Rightarrow> RingBuffer" where
  "Close self = self\<lparr>closed := True, total_length := 0, messages := []\<rparr>"

definition Commit :: "RingBuffer \<Rightarrow> RingBuffer" where
  "Commit self =
     self\<lparr>messages := if length (messages self) \<ge> unat (leased_idx self)
                      then drop (unat (leased_idx self)) (messages self) else messages self,
          total_length := total_length self - leased_length self,
          leased_length := 0, leased_idx := 0\<rparr>"

section \<open>Simulation of the queue\<close>

text \<open>The leased messages are the first ones, their number and size are counted.\<close>

definition mem_rel :: "RingBuffer \<Rightarrow> queue \<Rightarrow> bool" where
  "mem_rel s q \<longleftrightarrow> (case q of (c, l, p) \<Rightarrow>
     messages s = l @ p \<and> unat (leased_idx s) = length l \<and> \<not> closed s \<and>
     leased_length s = of_nat (nbytes l) \<and> length (messages s) < 2 ^ 64)"

definition mem_fits :: "bytes list \<Rightarrow> bool" where
  "mem_fits xs \<longleftrightarrow> length xs < 2 ^ 64"

lemma mem_lease_loop_eq:
  assumes "unat (leased_idx s) = length l" and "messages s = l @ p" and "length (messages s) < 2 ^ 64"
    and "leased_length s = of_nat (nbytes l)"
  shows "mem_lease_loop flt sz p acc s =
    (acc @ concat (map flt (take (lease_count flt sz (length acc) p) p)),
     s\<lparr>leased_length := of_nat (nbytes (l @ take (lease_count flt sz (length acc) p) p)),
       leased_idx := of_nat (length (l @ take (lease_count flt sz (length acc) p) p))\<rparr>)"
  using assms
proof (induction p arbitrary: acc s l)
  case Nil
  have "leased_idx s = of_nat (length l)"
    using Nil.prems(1) by (metis of_nat_of_unat)
  then show ?case
    using Nil.prems(4) by (cases s) simp
next
  case (Cons x p)
  let ?s = "s\<lparr>leased_length := leased_length s + of_nat (length x), leased_idx := leased_idx s + 1\<rparr>"
  let ?k = "lease_count flt sz (length (acc @ flt x)) p"
  have idx: "leased_idx s = of_nat (length l)"
    using Cons.prems(1) by (metis of_nat_of_unat)
  have "unat (leased_idx s + 1) = Suc (length l)"
    using Cons.prems by (intro unat_inc_u64) auto
  then have IH: "mem_lease_loop flt sz p (acc @ flt x) ?s =
      ((acc @ flt x) @ concat (map flt (take ?k p)),
       ?s\<lparr>leased_length := of_nat (nbytes ((l @ [x]) @ take ?k p)),
          leased_idx := of_nat (length ((l @ [x]) @ take ?k p))\<rparr>)"
    using Cons.prems by (intro Cons.IH) auto
  show ?case
    using IH idx Cons.prems(4) by (auto simp: Let_def)
qed

lemma mem_rel_new: "mem_rel (NewRingBuffer sz) ([], [], [])"
  by (simp add: mem_rel_def NewRingBuffer_def)

interpretation mem: ring_buffer flt Enqueue "Lease flt" Commit Rollback mem_rel mem_fits
  for flt
proof unfold_locales
  fix s c l p x
  assume "mem_rel s (c, l, p)" "mem_fits (c @ l @ p @ [x])"
  then show "mem_rel (Enqueue s x) (c, l, p @ [x])"
    by (simp add: mem_rel_def mem_fits_def Enqueue_def)
next
  fix s c l p n
  assume rel: "mem_rel s (c, l, p)"
  let ?k = "lease_count flt n 0 p"
  have len: "length (l @ take ?k p) < 2 ^ 64"
    using rel lease_count_le [of flt n 0 p] by (auto simp: mem_rel_def)
  have "Lease flt n s = (concat (map flt (take ?k p)),
      s\<lparr>leased_length := of_nat (nbytes (l @ take ?k p)), leased_idx := of_nat (length (l @ take ?k p))\<rparr>)"
    if "p \<noteq> []"
    using rel that mem_lease_loop_eq [of s l p flt n "[]"] by (auto simp: mem_rel_def Lease_def)
  then show "fst (Lease flt n s) = concat (map flt (take ?k p)) \<and>
      mem_rel (snd (Lease flt n s)) (c, l @ take ?k p, drop ?k p)"
    using rel len by (cases "p = []") (auto simp: mem_rel_def Lease_def unat_of_nat_u64
        simp flip: of_nat_add)
next
  fix s c l p
  assume "mem_rel s (c, l, p)"
  then show "mem_rel (Commit s) (c @ l, [], p)"
    by (auto simp: mem_rel_def Commit_def)
next
  fix s c l p
  assume "mem_rel s (c, l, p)" and "l \<noteq> []"
  then show "mem_rel (Rollback s) (c, [], l @ p)"
    by (auto simp: mem_rel_def Rollback_def)
qed

section \<open>Accounting\<close>

lemma mem_lease_loop_keeps:
  "messages (snd (mem_lease_loop flt sz p acc s)) = messages s \<and>
   total_length (snd (mem_lease_loop flt sz p acc s)) = total_length s \<and>
   closed (snd (mem_lease_loop flt sz p acc s)) = closed s \<and>
   Size (snd (mem_lease_loop flt sz p acc s)) = Size s"
  by (induction flt sz p acc s rule: mem_lease_loop.induct) (auto simp: Let_def)

lemma Lease_keeps:
  "messages (snd (Lease flt sz s)) = messages s" "total_length (snd (Lease flt sz s)) = total_length s"
  "closed (snd (Lease flt sz s)) = closed s" "Size (snd (Lease flt sz s)) = Size s"
  using mem_lease_loop_keeps by (auto simp: Lease_def)

text \<open>The bytes of a ring that was never rolled back are counted exactly.\<close>

definition counted :: "RingBuffer \<Rightarrow> bool" where
  "counted s \<longleftrightarrow> total_length s = of_nat (nbytes (messages s))"

lemma counted_Enqueue: "counted s \<Longrightarrow> counted (Enqueue s x)"
  by (simp add: counted_def Enqueue_def)

lemma counted_Commit:
  assumes "mem_rel s q" and "counted s"
  shows "counted (Commit s)"
  using assms by (cases q) (auto simp: counted_def mem_rel_def Commit_def)

text \<open>One message leased and rolled back \<open>n\<close> times.\<close>

definition retry :: "(bytes \<Rightarrow> bytes) \<Rightarrow> nat \<Rightarrow> RingBuffer \<Rightarrow> RingBuffer" where
  "retry flt sz s = Rollback (snd (Lease flt sz s))"

lemma retry_one:
  assumes "messages s = [x]" and "leased_idx s = 0" and "leased_length s = 0"
  shows "retry flt sz s = s\<lparr>total_length := total_length s + of_nat (length x)\<rparr>"
  using assms by (cases s) (simp add: retry_def Lease_def Rollback_def Let_def)

lemma retry_many:
  assumes "messages s = [x]" and "leased_idx s = 0" and "leased_length s = 0"
  shows "(retry flt sz ^^ n) s = s\<lparr>total_length := total_length s + of_nat (n * length x)\<rparr>"
proof (induction n)
  case 0
  then show ?case by (cases s) simp
next
  case (Suc n)
  then show ?case
    using assms retry_one [of "s\<lparr>total_length := total_length s + of_nat (n * length x)\<rparr>" x flt sz]
    by (simp add: algebra_simps)
qed

section \<open>Properties\<close>

text \<open>C3: The in-memory ring buffer refines the queue: after any sequence of enqueues, leases,
  commits and rollbacks of leased data, the payloads leased are those of the queue, the
  messages in memory are the leased ones followed by the pending ones, and together with the
  committed ones they are the enqueued items in order, none lost and none duplicated.\<close>

theorem mem_ring_refines:
  assumes "admissible flt mem_fits ops ([], [], [])"
  shows "\<exists>c l p. fst (spec_run flt ops ([], [], [])) = (c, l, p) \<and>
    snd (ring_run Enqueue (Lease flt) Commit Rollback ops (NewRingBuffer sz)) =
      snd (spec_run flt ops ([], [], [])) \<and>
    messages (fst (ring_run Enqueue (Lease flt) Commit Rollback ops (NewRingBuffer sz))) = l @ p \<and>
    unat (leased_idx (fst (ring_run Enqueue (Lease flt) Commit Rollback ops (NewRingBuffer sz)))) = length l \<and>
    c @ l @ p = enqueued ops"
proof -
  obtain c l p where q: "fst (spec_run flt ops ([], [], [])) = (c, l, p)"
    by (rule prod_cases3)
  show ?thesis
    using mem.simulation [OF mem_rel_new assms] spec_run_items [of flt ops "([], [], [])"] q
    by (simp add: mem_rel_def items_def)
qed

theorem mem_ring_refines_witness:
  "snd (ring_run Enqueue (Lease (\<lambda>x. x)) Commit Rollback
     [Enq [1], Enq [2, 3], Enq [4], Lease_op 1, Rollback_op, Lease_op 1, Commit_op, Lease_op 9] (NewRingBuffer 100)) =
   [[1, 2, 3], [1, 2, 3], [4]]"
  using mem_ring_refines [of "\<lambda>x. x"
      "[Enq [1], Enq [2, 3], Enq [4], Lease_op 1, Rollback_op, Lease_op 1, Commit_op, Lease_op 9]" 100]
  by (auto simp: mem_fits_def items_def Let_def)

text \<open>A rollback adds the leased bytes to the total although leasing never subtracted
  them: a message that is leased and rolled back \<open>n\<close> times before it is committed leaves an
  empty ring that counts \<open>n\<close> times its size, so a later \<^verbatim>\<open>Enqueue\<close> can wait for ever on an
  empty ring.\<close>

theorem Rollback_leaks_capacity:
  assumes "n * length x < 2 ^ 64"
  shows "let s = Commit (snd (Lease flt sz ((retry flt sz ^^ n) (Enqueue (NewRingBuffer cap) x))))
    in messages s = [] \<and> unat (total_length s) = n * length x"
proof -
  let ?e = "Enqueue (NewRingBuffer cap) x"
  have "(retry flt sz ^^ n) ?e = ?e\<lparr>total_length := total_length ?e + of_nat (n * length x)\<rparr>"
    by (rule retry_many) (simp_all add: Enqueue_def NewRingBuffer_def)
  then have "Commit (snd (Lease flt sz ((retry flt sz ^^ n) ?e))) =
      (NewRingBuffer cap)\<lparr>total_length := of_nat (n * length x)\<rparr>"
    by (simp add: Commit_def Lease_def Enqueue_def NewRingBuffer_def Let_def)
  then show ?thesis
    using unat_of_nat_u64 [OF assms] by (simp add: NewRingBuffer_def)
qed

end
