(* ===== verification/Byte_File.thy ===== *)
theory Byte_File
  imports Prelude
begin

text \<open>
  The parts of Go's standard library the ring buffers use: little endian integers of
  \<^verbatim>\<open>encoding/binary\<close> and a file that is read and written at offsets (\<^verbatim>\<open>os.File\<close>). A file has
  its content and a schedule of write faults: each write takes the next entry, \<open>Some n\<close>
  being an error after \<open>n\<close> bytes; without entries writes succeed. Operations on a closed
  file fail.
\<close>

section \<open>Little endian integers\<close>

fun le_bytes :: "nat \<Rightarrow> nat \<Rightarrow> bytes" where
  "le_bytes 0 n = []"
| "le_bytes (Suc k) n = of_nat (n mod 256) # le_bytes k (n div 256)"

fun le_value :: "bytes \<Rightarrow> nat" where
  "le_value [] = 0"
| "le_value (b # bs) = unat b + 256 * le_value bs"

text \<open>\<^verbatim>\<open>binary.LittleEndian.PutUint64\<close> and \<^verbatim>\<open>Uint64\<close>.\<close>

definition PutUint64 :: "nat \<Rightarrow> bytes" where
  "PutUint64 n = le_bytes 8 n"

definition Uint64 :: "bytes \<Rightarrow> nat" where
  "Uint64 bs = le_value (take 8 bs)"

lemma length_le_bytes [simp]: "length (le_bytes k n) = k"
  by (induction k arbitrary: n) auto

lemma length_PutUint64 [simp]: "length (PutUint64 n) = 8"
  by (simp add: PutUint64_def)

lemma le_value_bytes: "n < 256 ^ k \<Longrightarrow> le_value (le_bytes k n) = n"
proof (induction k arbitrary: n)
  case (Suc k)
  have "n div 256 < 256 ^ k"
    using Suc.prems by (simp add: less_mult_imp_div_less)
  moreover have "unat (of_nat (n mod 256) :: byte) = n mod 256"
    by (simp add: unat_of_nat take_bit_eq_mod)
  ultimately show ?case
    using Suc.IH [of "n div 256"] by simp
qed simp

lemma Uint64_PutUint64 [simp]: "n < 2 ^ 64 \<Longrightarrow> Uint64 (PutUint64 n @ rest) = n"
  using le_value_bytes [of n 8] by (simp add: Uint64_def PutUint64_def)

lemma le_value_less: "le_value bs < 256 ^ length bs"
proof (induction bs)
  case (Cons b bs)
  have "unat b < 256"
    using unsigned_less [of b] by simp
  with Cons show ?case by simp
qed simp

lemma Uint64_less: "8 \<le> length bs \<Longrightarrow> Uint64 bs < 2 ^ 64"
  using le_value_less [of "take 8 bs"] by (simp add: Uint64_def)

section \<open>Files\<close>

record File =
  content :: bytes
  faults :: "nat option list"
  fd_closed :: bool

definition write_bytes :: "bytes \<Rightarrow> nat \<Rightarrow> bytes \<Rightarrow> bytes" where
  "write_bytes c off b =
     take off c @ replicate (off - length c) 0 @ b @ drop (off + length b) c"

text \<open>\<^verbatim>\<open>File.WriteAt\<close>: the number of bytes written and an error. A write that ends beyond the
  largest offset fails.\<close>

definition WriteAt :: "File \<Rightarrow> bytes \<Rightarrow> int \<Rightarrow> File \<times> nat \<times> go_error option" where
  "WriteAt f b off =
     (if fd_closed f \<or> off < 0 then (f, 0, Some IOError)
      else
        (let fault = (case faults f of [] \<Rightarrow> None | x # _ \<Rightarrow> x);
             f = f\<lparr>faults := drop 1 (faults f)\<rparr>
         in if off + int (length b) \<ge> 2 ^ 63 then (f, 0, Some IOError)
            else (case fault of
              None \<Rightarrow> (f\<lparr>content := write_bytes (content f) (nat off) b\<rparr>, length b, None)
            | Some n \<Rightarrow>
                (let b' = take n b
                 in (f\<lparr>content := if b' = [] then content f
                                  else write_bytes (content f) (nat off) b'\<rparr>,
                     length b', Some IOError)))))"

text \<open>\<^verbatim>\<open>File.ReadAt\<close> into a buffer of \<open>n\<close> bytes: the bytes read, fewer only with an error.\<close>

definition ReadAt :: "File \<Rightarrow> nat \<Rightarrow> int \<Rightarrow> bytes \<times> go_error option" where
  "ReadAt f n off =
     (if fd_closed f \<or> off < 0 then ([], Some IOError)
      else (let b = take n (drop (nat off) (content f))
            in (b, if length b < n then Some EOF else None)))"

text \<open>\<^verbatim>\<open>File.Truncate(0)\<close>, which takes an entry of the fault schedule too.\<close>

definition Truncate0 :: "File \<Rightarrow> File \<times> go_error option" where
  "Truncate0 f =
     (if fd_closed f then (f, Some IOError)
      else (let fault = (case faults f of [] \<Rightarrow> None | x # _ \<Rightarrow> x);
                f = f\<lparr>faults := drop 1 (faults f)\<rparr>
            in case fault of
                 None \<Rightarrow> (f\<lparr>content := []\<rparr>, None)
               | Some _ \<Rightarrow> (f, Some IOError)))"

definition file_ok :: "File \<Rightarrow> bool" where
  "file_ok f \<longleftrightarrow> faults f = [] \<and> \<not> fd_closed f"

lemma WriteAt_ok:
  assumes "file_ok f" and "0 \<le> off" and "off + int (length b) < 2 ^ 63"
  shows "WriteAt f b off = (f\<lparr>content := write_bytes (content f) (nat off) b\<rparr>, length b, None)"
  using assms by (cases f) (simp add: WriteAt_def file_ok_def)

lemma Truncate0_ok: "file_ok f \<Longrightarrow> Truncate0 f = (f\<lparr>content := []\<rparr>, None)"
  by (cases f) (simp add: Truncate0_def file_ok_def)

lemma file_ok_content [simp]: "file_ok (f\<lparr>content := c\<rparr>) = file_ok f"
  by (simp add: file_ok_def)

lemma ReadAt_ok:
  "file_ok f \<Longrightarrow> 0 \<le> off \<Longrightarrow> nat off + n \<le> length (content f) \<Longrightarrow>
     ReadAt f n off = (take n (drop (nat off) (content f)), None)"
  by (simp add: ReadAt_def file_ok_def)

lemma length_write_bytes:
  "length (write_bytes c off b) = max (length c) (off + length b)"
  by (simp add: write_bytes_def)

text \<open>What was written is read back, and the rest is as before.\<close>

lemma drop_write_bytes:
  "off \<le> length c \<Longrightarrow> drop off (write_bytes c off b) = b @ drop (off + length b) c"
  by (simp add: write_bytes_def)

lemma take_write_bytes:
  "k \<le> off \<Longrightarrow> off \<le> length c \<Longrightarrow> take k (write_bytes c off b) = take k c"
  by (simp add: write_bytes_def min_def)

lemma write_bytes_append: "length c = off \<Longrightarrow> write_bytes c off b = c @ b"
  by (simp add: write_bytes_def)

lemma write_bytes_0: "length b \<le> length c \<Longrightarrow> write_bytes c 0 b = b @ drop (length b) c"
  by (simp add: write_bytes_def)

text \<open>What a write that reports no error did.\<close>

lemma WriteAt_success:
  assumes "WriteAt f b off = (f', n, None)"
  shows "n = length b" "content f' = write_bytes (content f) (nat off) b" "\<not> fd_closed f" "\<not> fd_closed f'"
    "0 \<le> off" "off + int (length b) < 2 ^ 63"
  using assms by (auto simp: WriteAt_def Let_def split: if_splits option.splits)

section \<open>Length prefixed records\<close>

text \<open>Both file based queues store an item as its length in eight bytes and its bytes.\<close>

definition MAX_MEMORY :: int where
  "MAX_MEMORY = 50 * 1024 * 1024"

definition enc_record :: "bytes \<Rightarrow> bytes" where
  "enc_record x = PutUint64 (length x) @ x"

abbreviation enc_records :: "bytes list \<Rightarrow> bytes" where
  "enc_records xs \<equiv> concat (map enc_record xs)"

definition ok_item :: "bytes \<Rightarrow> bool" where
  "ok_item x \<longleftrightarrow> 0 < length x \<and> int (length x) \<le> MAX_MEMORY * 2"

lemma length_enc_record [simp]: "length (enc_record x) = 8 + length x"
  by (simp add: enc_record_def)

lemma enc_record_not_Nil [simp]: "enc_record x \<noteq> []"
  using length_enc_record [of x] by (metis add_is_0 list.size(3) zero_neq_numeral)

lemma item_length:
  "ok_item x \<Longrightarrow> i64_of_u64 (Uint64 (PutUint64 (length x))) = int (length x)"
  using Uint64_PutUint64 [of "length x" "[]"]
  by (simp add: ok_item_def MAX_MEMORY_def i64_of_u64_def in_i64_def)

lemma length_le_enc: "length xs \<le> length (enc_records xs)"
  by (induction xs) auto

end
