(* ===== verification/File_Ring.thy ===== *)
theory File_Ring
  imports Ring_Spec Byte_File
begin

text \<open>
  The queue of outgoing messages that is kept in a file, \<^verbatim>\<open>FileBasedRingBuffer\<close> of
  \<^verbatim>\<open>http_comms/ring_buffer.go\<close>. The file has a header of 50 bytes and then records: the
  length of an item in eight bytes and the item. The pointers are 64 bit integers with
  wrap-around; write errors come from the fault schedule of the file. As in memory,
  \<^verbatim>\<open>Enqueue\<close> ends in a wait, here while \<open>Blocked\<close> holds.
\<close>

section \<open>The header\<close>

record Header =
  ReadPointer :: int
  WritePointer :: int
  MaxSize :: int
  AvailableBytes :: int
  LeasedBytes :: int

definition FileMagic :: bytes where
  "FileMagic = [0x56, 0x52, 0x42, 0x5e]"

definition FirstRecordOffset :: nat where
  "FirstRecordOffset = 50"

definition MarshalBinary :: "Header \<Rightarrow> bytes" where
  "MarshalBinary self =
     FileMagic @
     PutUint64 (u64_of_i64 (ReadPointer self)) @
     PutUint64 (u64_of_i64 (WritePointer self)) @
     PutUint64 (u64_of_i64 (MaxSize self)) @
     PutUint64 (u64_of_i64 (AvailableBytes self)) @
     PutUint64 (u64_of_i64 (LeasedBytes self)) @
     replicate 6 0"

text \<open>The value of the eight bytes from offset \<open>n\<close> on.\<close>

definition field :: "bytes \<Rightarrow> nat \<Rightarrow> int" where
  "field data n = i64_of_u64 (Uint64 (drop n data))"

definition UnmarshalBinary :: "Header \<Rightarrow> bytes \<Rightarrow> Header \<times> go_error option" where
  "UnmarshalBinary self data =
     (if length data < FirstRecordOffset then (self, Some (Errorf ''Invalid header length''))
      else if take 4 data \<noteq> FileMagic then (self, Some (Errorf ''Invalid Magic''))
      else (self\<lparr>ReadPointer := field data 4, WritePointer := field data 12,
                 MaxSize := field data 20, AvailableBytes := field data 28,
                 LeasedBytes := field data 36\<rparr>, None))"

section \<open>The ring buffer\<close>

record transaction =
  LeasedPointer :: int
  TxLeasedBytes :: int

record FileRing =
  fd :: File
  header :: Header
  ring_closed :: bool
  leased_pointer :: int
  current_transaction :: transaction

definition empty_tx :: transaction where
  "empty_tx = \<lparr>LeasedPointer = 0, TxLeasedBytes = 0\<rparr>"

text \<open>\<^verbatim>\<open>_Truncate\<close>: errors of the two file operations are ignored.\<close>

definition Truncate :: "FileRing \<Rightarrow> FileRing" where
  "Truncate self =
     (let f = fst (Truncate0 (fd self));
          h = (header self)\<lparr>ReadPointer := int FirstRecordOffset,
                            WritePointer := int FirstRecordOffset,
                            AvailableBytes := 0, LeasedBytes := 0\<rparr>;
          f = fst (WriteAt f (MarshalBinary h) 0)
      in self\<lparr>fd := f, header := h, leased_pointer := int FirstRecordOffset,
              current_transaction := empty_tx\<rparr>)"

definition Enqueue :: "FileRing \<Rightarrow> bytes \<Rightarrow> FileRing" where
  "Enqueue self item =
     (if ring_closed self then self
      else (case WriteAt (fd self) (PutUint64 (length item)) (WritePointer (header self)) of
        (f, _, Some err) \<Rightarrow> Truncate (self\<lparr>fd := f\<rparr>)
      | (f, _, None) \<Rightarrow>
          (case WriteAt f item (i64 (WritePointer (header self) + 8)) of
             (f, n, Some err) \<Rightarrow> Truncate (self\<lparr>fd := f\<rparr>)
           | (f, n, None) \<Rightarrow>
               (let h = (header self)\<lparr>
                      WritePointer := i64 (WritePointer (header self) + (8 + int n)),
                      AvailableBytes := i64 (AvailableBytes (header self) + int n)\<rparr>
                in case WriteAt f (MarshalBinary h) 0 of
                     (f, _, Some err) \<Rightarrow> Truncate (self\<lparr>fd := f, header := h\<rparr>)
                   | (f, _, None) \<Rightarrow> self\<lparr>fd := f, header := h\<rparr>))))"

definition Blocked :: "FileRing \<Rightarrow> bool" where
  "Blocked self \<longleftrightarrow> WritePointer (header self) > MaxSize (header self) \<and> \<not> ring_closed self"

definition TotalSize :: "FileRing \<Rightarrow> nat" where
  "TotalSize self = u64_of_i64 (i64 (AvailableBytes (header self) + LeasedBytes (header self)))"

definition RingAvailableBytes :: "FileRing \<Rightarrow> nat" where
  "RingAvailableBytes self = u64_of_i64 (AvailableBytes (header self))"

text \<open>The loop of \<^verbatim>\<open>Lease\<close>, with fuel: every turn either ends it or moves the lease pointer
  forward by at least nine bytes towards the write pointer, so their distance and one more
  turn are enough, as \<open>Lease_returns\<close> shows. A lease that finds the file
  corrupt returns what the source returns at that point.\<close>

fun lease_loop :: "nat \<Rightarrow> (bytes \<Rightarrow> bytes) \<Rightarrow> nat \<Rightarrow> bytes \<Rightarrow> FileRing \<Rightarrow> (bytes \<times> FileRing) option" where
  "lease_loop 0 flt sz result self =
     (if WritePointer (header self) > leased_pointer self then None else Some (result, self))"
| "lease_loop (Suc fuel) flt sz result self =
     (if \<not> WritePointer (header self) > leased_pointer self then Some (result, self)
      else (case ReadAt (fd self) 8 (leased_pointer self) of
        (read_buf, None) \<Rightarrow>
          (let len = i64_of_u64 (Uint64 read_buf)
           in if len > MAX_MEMORY * 2 \<or> len \<le> 0 then Some ([], Truncate self)
              else (case ReadAt (fd self) (nat len) (i64 (leased_pointer self + 8)) of
                (item, Some err) \<Rightarrow> Some ([], Truncate self)
              | (item, None) \<Rightarrow>
                  (let n = length item;
                       result = result @ flt item;
                       self = self\<lparr>leased_pointer := i64 (leased_pointer self + (8 + int n)),
                         header := (header self)\<lparr>
                           LeasedBytes := i64 (LeasedBytes (header self) + int n),
                           AvailableBytes := i64 (AvailableBytes (header self) - int n)\<rparr>,
                         current_transaction := (current_transaction self)\<lparr>
                           TxLeasedBytes := i64 (TxLeasedBytes (current_transaction self) + int n)\<rparr>\<rparr>
                   in if length result > sz then Some (result, self)
                      else lease_loop fuel flt sz result self)))
      | (_, Some err) \<Rightarrow> lease_loop fuel flt sz result (Truncate self)))"

definition Lease :: "(bytes \<Rightarrow> bytes) \<Rightarrow> nat \<Rightarrow> FileRing \<Rightarrow> (bytes \<times> FileRing) option" where
  "Lease flt sz self =
     (let self = (if LeasedPointer (current_transaction self) = 0
                  then self\<lparr>current_transaction :=
                    (current_transaction self)\<lparr>LeasedPointer := leased_pointer self\<rparr>\<rparr>
                  else self)
      in lease_loop (Suc (nat (WritePointer (header self) - leased_pointer self))) flt sz [] self)"

definition Reset :: "FileRing \<Rightarrow> FileRing" where
  "Reset self = Truncate self"

text \<open>\<^verbatim>\<open>Close\<close> also removes the file from the directory.\<close>

definition Close :: "FileRing \<Rightarrow> FileRing" where
  "Close self = self\<lparr>ring_closed := True, fd := (fd self)\<lparr>fd_closed := True\<rparr>\<rparr>"

definition Rollback :: "FileRing \<Rightarrow> FileRing" where
  "Rollback self =
     self\<lparr>leased_pointer := LeasedPointer (current_transaction self),
          header := (header self)\<lparr>
            AvailableBytes := i64 (AvailableBytes (header self) + TxLeasedBytes (current_transaction self)),
            LeasedBytes := i64 (LeasedBytes (header self) - TxLeasedBytes (current_transaction self))\<rparr>,
          current_transaction := empty_tx\<rparr>"

definition Commit :: "FileRing \<Rightarrow> FileRing" where
  "Commit self =
     (if leased_pointer self = WritePointer (header self) then Truncate self
      else (let h = (header self)\<lparr>ReadPointer := leased_pointer self, LeasedBytes := 0\<rparr>
            in self\<lparr>header := h, current_transaction := empty_tx,
                    fd := fst (WriteAt (fd self) (MarshalBinary h) 0)\<rparr>))"

text \<open>Opening the buffer on a file; \<open>disk_size\<close> is the configured \<^verbatim>\<open>LocalBuffer.DiskSize\<close>.\<close>

definition newFileBasedRingBuffer :: "File \<Rightarrow> int \<Rightarrow> FileRing result" where
  "newFileBasedRingBuffer f disk_size =
     (let h = \<lparr>ReadPointer = int FirstRecordOffset, WritePointer = int FirstRecordOffset,
               MaxSize = i64 (disk_size + int FirstRecordOffset), AvailableBytes = 0, LeasedBytes = 0\<rparr>;
          (data, err) = ReadAt f FirstRecordOffset 0;
          n = length data;
          (f, err, fatal) =
            (if n > 0 \<and> n < FirstRecordOffset \<and> err = Some EOF
             then (case Truncate0 f of (f, e) \<Rightarrow> (f, e, e)) else (f, err, None))
      in case fatal of
           Some e \<Rightarrow> Err e
         | None \<Rightarrow>
             (let (h, herr) = (if n > 0 \<and> (err = None \<or> err = Some EOF)
                               then UnmarshalBinary h data else (h, None));
                  (f, fatal) = (case herr of
                                  Some _ \<Rightarrow> (case Truncate0 f of (f, e) \<Rightarrow> (f, e))
                                | None \<Rightarrow> (f, None))
              in case fatal of
                   Some e \<Rightarrow> Err e
                 | None \<Rightarrow>
                     (let h = (if LeasedBytes h \<noteq> 0
                               then h\<lparr>AvailableBytes := i64 (AvailableBytes h + LeasedBytes h),
                                      LeasedBytes := 0\<rparr> else h)
                      in Ok \<lparr>fd = f, header = h, ring_closed = False,
                             leased_pointer = ReadPointer h, current_transaction = empty_tx\<rparr>)))"

section \<open>Header round trip\<close>

definition header_in_range :: "Header \<Rightarrow> bool" where
  "header_in_range h \<longleftrightarrow> in_i64 (ReadPointer h) \<and> in_i64 (WritePointer h) \<and> in_i64 (MaxSize h) \<and>
     in_i64 (AvailableBytes h) \<and> in_i64 (LeasedBytes h)"

lemma length_MarshalBinary [simp]: "length (MarshalBinary h) = FirstRecordOffset"
  by (simp add: MarshalBinary_def FileMagic_def FirstRecordOffset_def)

lemma MarshalBinary_not_Nil [simp]: "MarshalBinary h \<noteq> []"
  by (simp add: MarshalBinary_def FileMagic_def)

lemma field_PutUint64:
  assumes "in_i64 x" and "drop n data = PutUint64 (u64_of_i64 x) @ rest"
  shows "field data n = x"
  using assms u64_of_i64_less [of x] by (simp add: field_def)

lemma Unmarshal_Marshal:
  assumes "header_in_range h"
  shows "UnmarshalBinary h0 (MarshalBinary h @ rest) = (h, None)"
proof -
  have len: "length (PutUint64 x) = 8" for x
    by simp
  have "field (MarshalBinary h @ rest) 4 = ReadPointer h" "field (MarshalBinary h @ rest) 12 = WritePointer h"
    "field (MarshalBinary h @ rest) 20 = MaxSize h" "field (MarshalBinary h @ rest) 28 = AvailableBytes h"
    "field (MarshalBinary h @ rest) 36 = LeasedBytes h"
    using assms unfolding header_in_range_def
    by (auto intro!: field_PutUint64 simp: MarshalBinary_def FileMagic_def)
  moreover have "take 4 (MarshalBinary h @ rest) = FileMagic"
    by (simp add: MarshalBinary_def FileMagic_def)
  ultimately show ?thesis
    by (simp add: UnmarshalBinary_def)
qed

section \<open>Termination of a lease\<close>

lemma Truncate_simps [simp]:
  "header (Truncate s) = (header s)\<lparr>ReadPointer := 50, WritePointer := 50, AvailableBytes := 0, LeasedBytes := 0\<rparr>"
  "leased_pointer (Truncate s) = 50"
  "ring_closed (Truncate s) = ring_closed s"
  "current_transaction (Truncate s) = empty_tx"
  by (simp_all add: Truncate_def FirstRecordOffset_def Let_def)

lemma ReadAt_None:
  "ReadAt f n off = (b, None) \<Longrightarrow> length b = n \<and> 0 \<le> off"
  by (auto simp: ReadAt_def Let_def split: if_splits)

lemma i64_advance:
  assumes "in_i64 x" and "0 \<le> x" and "0 < n" and "n < 2 ^ 62"
  shows "i64 (x + n) = x + n \<or> i64 (x + n) < 0"
proof (cases "x + n < 2 ^ 63")
  case True
  then show ?thesis
    using assms by (simp add: in_i64_def)
next
  case False
  then show ?thesis
    using i64_high [of "x + n"] assms by (simp add: in_i64_def)
qed

text \<open>One turn of the loop that takes an item.\<close>

definition advance :: "nat \<Rightarrow> FileRing \<Rightarrow> FileRing" where
  "advance n s =
     s\<lparr>leased_pointer := i64 (leased_pointer s + (8 + int n)),
       header := (header s)\<lparr>LeasedBytes := i64 (LeasedBytes (header s) + int n),
         AvailableBytes := i64 (AvailableBytes (header s) - int n)\<rparr>,
       current_transaction := (current_transaction s)\<lparr>
         TxLeasedBytes := i64 (TxLeasedBytes (current_transaction s) + int n)\<rparr>\<rparr>"

lemma lease_loop_step:
  assumes "WritePointer (header s) > leased_pointer s"
    and "ReadAt (fd s) 8 (leased_pointer s) = (rb, None)"
    and "0 < i64_of_u64 (Uint64 rb)" and "i64_of_u64 (Uint64 rb) \<le> MAX_MEMORY * 2"
    and "ReadAt (fd s) (nat (i64_of_u64 (Uint64 rb))) (i64 (leased_pointer s + 8)) = (item, None)"
  shows "lease_loop (Suc fuel) flt sz acc s =
    (if length (acc @ flt item) > sz then Some (acc @ flt item, advance (length item) s)
     else lease_loop fuel flt sz (acc @ flt item) (advance (length item) s))"
  using assms by (simp add: advance_def Let_def)

lemma lease_loop_total:
  assumes "in_i64 (leased_pointer s)"
    and "nat (WritePointer (header s) - leased_pointer s) < fuel \<or> leased_pointer s < 0 \<and> 0 < fuel"
  shows "lease_loop fuel flt sz acc s \<noteq> None"
  using assms
proof (induction fuel arbitrary: acc s)
  case 0
  then show ?case by auto
next
  case (Suc fuel)
  show ?case
  proof (cases "WritePointer (header s) > leased_pointer s")
    case True
    obtain rb e where r: "ReadAt (fd s) 8 (leased_pointer s) = (rb, e)"
      by fastforce
    show ?thesis
    proof (cases e)
      case (Some err)
      have "lease_loop fuel flt sz acc (Truncate s) \<noteq> None"
        using Suc.IH [of "Truncate s" acc] by (cases fuel) (simp_all add: in_i64_def)
      then show ?thesis
        using True r Some by simp
    next
      case None
      let ?len = "i64_of_u64 (Uint64 rb)"
      have pos: "0 \<le> leased_pointer s"
        using ReadAt_None r None by auto
      obtain item e' where i: "ReadAt (fd s) (nat ?len) (i64 (leased_pointer s + 8)) = (item, e')"
        by fastforce
      show ?thesis
      proof (cases "0 < ?len \<and> ?len \<le> MAX_MEMORY * 2 \<and> e' = None")
        case False
        then show ?thesis
          using True r None i by (cases e') (auto simp: Let_def)
      next
        case ok: True
        then have len: "int (length item) = ?len"
          using ReadAt_None [of "fd s" "nat ?len"] i by auto
        let ?s = "advance (length item) s"
        have "leased_pointer ?s = leased_pointer s + (8 + int (length item)) \<or> leased_pointer ?s < 0"
          using i64_advance [OF Suc.prems(1) pos, of "8 + int (length item)"] ok len
          by (simp add: advance_def MAX_MEMORY_def)
        then have "nat (WritePointer (header ?s) - leased_pointer ?s) < fuel \<or>
            leased_pointer ?s < 0 \<and> 0 < fuel"
          using Suc.prems(2) True pos by (auto simp: advance_def)
        moreover have "in_i64 (leased_pointer ?s)"
          by (simp add: advance_def)
        ultimately have "lease_loop fuel flt sz (acc @ flt item) ?s \<noteq> None"
          by (intro Suc.IH)
        then show ?thesis
          using lease_loop_step [OF True, of rb item fuel flt sz acc] r None i ok by simp
      qed
    qed
  qed simp
qed

lemma Lease_total: "in_i64 (leased_pointer s) \<Longrightarrow> \<exists>r. Lease flt sz s = Some r"
  using lease_loop_total [of _ _ flt sz "[]"] unfolding Lease_def Let_def
  by (cases "LeasedPointer (current_transaction s) = 0")
    (simp_all del: lease_loop.simps add: not_None_eq [symmetric])

section \<open>Simulation of the queue\<close>

definition file_fits :: "bytes list \<Rightarrow> bool" where
  "file_fits xs \<longleftrightarrow> list_all ok_item xs \<and> 50 + length (enc_records xs) < 2 ^ 62"

text \<open>The header on disk: its pointers are current, and the bytes it counts are those not
  yet committed, however they were divided when it was written.\<close>

definition disk_header :: "bytes \<Rightarrow> Header \<Rightarrow> nat \<Rightarrow> bool" where
  "disk_header c h n \<longleftrightarrow>
     (\<exists>d. header_in_range d \<and> take 50 c = MarshalBinary d \<and> ReadPointer d = ReadPointer h \<and>
        WritePointer d = WritePointer h \<and> MaxSize d = MaxSize h \<and>
        AvailableBytes d + LeasedBytes d = int n)"

definition file_rel :: "FileRing \<Rightarrow> queue \<Rightarrow> bool" where
  "file_rel s q \<longleftrightarrow> (case q of (c, l, p) \<Rightarrow>
     file_ok (fd s) \<and> \<not> ring_closed s \<and> file_fits (c @ l @ p) \<and>
     50 \<le> ReadPointer (header s) \<and> ReadPointer (header s) \<le> 50 + int (length (enc_records c)) \<and>
     leased_pointer s = ReadPointer (header s) + int (length (enc_records l)) \<and>
     WritePointer (header s) = ReadPointer (header s) + int (length (enc_records (l @ p))) \<and>
     drop (nat (ReadPointer (header s))) (content (fd s)) = enc_records (l @ p) \<and>
     (content (fd s) = [] \<and> ReadPointer (header s) = 50 \<or>
      int (length (content (fd s))) = WritePointer (header s) \<and>
      disk_header (content (fd s)) (header s) (nbytes (l @ p))) \<and>
     in_i64 (MaxSize (header s)) \<and>
     AvailableBytes (header s) = int (nbytes p) \<and> LeasedBytes (header s) = int (nbytes l) \<and>
     TxLeasedBytes (current_transaction s) = int (nbytes l) \<and>
     (LeasedPointer (current_transaction s) = ReadPointer (header s) \<or>
      LeasedPointer (current_transaction s) = 0 \<and> l = []))"

lemma nbytes_le: "nbytes xs \<le> length (enc_records xs)"
  by (induction xs) auto

lemma file_fits_append: "file_fits (xs @ ys) \<Longrightarrow> file_fits xs \<and> file_fits ys"
  by (auto simp: file_fits_def)

lemma in_i64_small: "0 \<le> x \<Longrightarrow> x < 2 ^ 62 \<Longrightarrow> in_i64 x"
  by (simp add: in_i64_def)

text \<open>The pointers and counters of a related state are far from the ends of their range.\<close>

lemma file_rel_bounds:
  assumes "file_rel s (c, l, p)"
  shows "0 \<le> leased_pointer s" "leased_pointer s \<le> WritePointer (header s)"
    "WritePointer (header s) < 2 ^ 62" "int (nbytes (l @ p)) < 2 ^ 62"
  using assms nbytes_le [of "l @ p"] by (auto simp: file_rel_def file_fits_def)

lemma file_rel_range:
  assumes "file_rel s (c, l, p)"
  shows "header_in_range (header s)"
  using file_rel_bounds [OF assms] assms
  by (auto simp: file_rel_def header_in_range_def in_i64_def)

lemma disk_header_write:
  assumes "header_in_range h" and "AvailableBytes h + LeasedBytes h = int n"
  shows "disk_header (MarshalBinary h @ rest) h n"
  unfolding disk_header_def using assms by (intro exI [of _ h]) (simp add: FirstRecordOffset_def)

lemma Truncate_rel:
  assumes "file_rel s (c, l, [])"
  shows "file_rel (Truncate s) (c @ l, [], [])"
proof -
  let ?h = "(header s)\<lparr>ReadPointer := 50, WritePointer := 50, AvailableBytes := 0, LeasedBytes := 0\<rparr>"
  have ok: "file_ok (fd s)"
    using assms by (simp add: file_rel_def)
  have range: "header_in_range ?h"
    using file_rel_range [OF assms] by (simp add: header_in_range_def in_i64_def)
  have "content (fd (Truncate s)) = MarshalBinary ?h" "file_ok (fd (Truncate s))"
    using ok by (simp_all add: Truncate_def Truncate0_ok WriteAt_ok FirstRecordOffset_def write_bytes_def
        Let_def)
  moreover have "disk_header (MarshalBinary ?h @ []) ?h 0"
    using range by (intro disk_header_write) simp_all
  ultimately show ?thesis
    using assms by (simp add: file_rel_def empty_tx_def FirstRecordOffset_def)
qed

text \<open>The content up to the write pointer; a file never written to is filled up with zeros.\<close>

definition base :: "FileRing \<Rightarrow> bytes" where
  "base s = (if content (fd s) = [] then replicate 50 0 else content (fd s))"

lemma base_rel:
  assumes "file_rel s (c, l, p)"
  shows "int (length (base s)) = WritePointer (header s)" "50 \<le> length (base s)"
    "drop (nat (ReadPointer (header s))) (base s) = enc_records (l @ p)"
  using assms by (auto simp: file_rel_def base_def)

lemma write_base:
  assumes "file_rel s (c, l, p)"
  shows "write_bytes (content (fd s)) (nat (WritePointer (header s))) b = base s @ b"
proof (cases "content (fd s) = []")
  case True
  then show ?thesis
    using assms base_rel(1) [OF assms] by (simp add: write_bytes_def base_def)
next
  case False
  then show ?thesis
    using base_rel(1) [OF assms] by (simp add: write_bytes_def base_def)
qed

lemma Enqueue_eq:
  assumes rel: "file_rel s (c, l, p)" and fits: "file_fits (c @ l @ p @ [x])"
  defines "h \<equiv> (header s)\<lparr>WritePointer := WritePointer (header s) + (8 + int (length x)),
      AvailableBytes := AvailableBytes (header s) + int (length x)\<rparr>"
  shows "Enqueue s x = s\<lparr>fd := (fd s)\<lparr>content := MarshalBinary h @ drop 50 (base s @ enc_record x)\<rparr>,
      header := h\<rparr>"
proof -
  let ?wp = "WritePointer (header s)" and ?f = "fd s"
  have ok: "file_ok ?f" "\<not> ring_closed s" and wp: "0 \<le> ?wp" "?wp + 8 + int (length x) < 2 ^ 62"
    using rel fits by (auto simp: file_rel_def file_fits_def)
  have av: "0 \<le> AvailableBytes (header s)" "AvailableBytes (header s) + int (length x) < 2 ^ 62"
    using rel fits nbytes_le [of p] by (auto simp: file_rel_def file_fits_def)
  have w1: "WriteAt ?f (PutUint64 (length x)) ?wp =
      (?f\<lparr>content := base s @ PutUint64 (length x)\<rparr>, 8, None)"
    using ok wp by (simp add: WriteAt_ok write_base [OF rel])
  have "write_bytes (base s @ PutUint64 (length x)) (nat (?wp + 8)) x = base s @ enc_record x"
    using base_rel(1) [OF rel] wp(1) by (simp add: write_bytes_append enc_record_def nat_add_distrib)
  then have w2: "WriteAt (?f\<lparr>content := base s @ PutUint64 (length x)\<rparr>) x (?wp + 8) =
      (?f\<lparr>content := base s @ enc_record x\<rparr>, length x, None)"
    using ok wp by (simp add: WriteAt_ok)
  have "write_bytes (base s @ enc_record x) 0 (MarshalBinary h) = MarshalBinary h @ drop 50 (base s @ enc_record x)"
    using base_rel(2) [OF rel] by (simp add: write_bytes_0 FirstRecordOffset_def del: drop_append)
  then have w3: "WriteAt (?f\<lparr>content := base s @ enc_record x\<rparr>) (MarshalBinary h) 0 =
      (?f\<lparr>content := MarshalBinary h @ drop 50 (base s @ enc_record x)\<rparr>, 50, None)"
    using ok by (simp add: WriteAt_ok FirstRecordOffset_def del: drop_append)
  have i: "i64 (?wp + 8) = ?wp + 8" "i64 (?wp + (8 + int (length x))) = ?wp + (8 + int (length x))"
    "i64 (AvailableBytes (header s) + int (length x)) = AvailableBytes (header s) + int (length x)"
    using wp av by (simp_all add: in_i64_def)
  show ?thesis
    unfolding Enqueue_def using ok(2) w1 w2 w3 i by (simp add: h_def Let_def del: drop_append)
qed

lemma Enqueue_rel:
  assumes rel: "file_rel s (c, l, p)" and fits: "file_fits (c @ l @ p @ [x])"
  shows "file_rel (Enqueue s x) (c, l, p @ [x])"
proof -
  let ?h = "(header s)\<lparr>WritePointer := WritePointer (header s) + (8 + int (length x)),
      AvailableBytes := AvailableBytes (header s) + int (length x)\<rparr>"
  let ?c = "MarshalBinary ?h @ drop 50 (base s @ enc_record x)"
  let ?rp = "nat (ReadPointer (header s))"
  have rp: "50 \<le> ?rp" "?rp \<le> length (base s)"
    using rel base_rel(1) [OF rel] by (auto simp: file_rel_def)
  have "drop ?rp ?c = drop ?rp (base s @ enc_record x)"
    using rp by (simp add: FirstRecordOffset_def)
  then have body: "drop ?rp ?c = enc_records (l @ p @ [x])"
    using rp base_rel(3) [OF rel] by simp
  have len: "int (length ?c) = WritePointer ?h"
    using base_rel(1,2) [OF rel] by (simp add: FirstRecordOffset_def)
  have "header_in_range ?h"
    using rel fits nbytes_le [of "l @ p"]
    by (auto simp: file_rel_def file_fits_def header_in_range_def in_i64_def)
  then have "disk_header ?c ?h (nbytes (l @ p @ [x]))"
    using rel by (intro disk_header_write) (auto simp: file_rel_def)
  then show ?thesis
    using rel fits body len unfolding Enqueue_eq [OF rel fits]
    by (simp add: file_rel_def del: drop_append)
qed

lemma lease_step_rel:
  assumes rel: "file_rel s (c, l, x # p)" and tx: "LeasedPointer (current_transaction s) = ReadPointer (header s)"
  shows "ReadAt (fd s) 8 (leased_pointer s) = (PutUint64 (length x), None)"
    "ReadAt (fd s) (length x) (i64 (leased_pointer s + 8)) = (x, None)"
    "file_rel (advance (length x) s) (c, l @ [x], p)"
proof -
  let ?rp = "nat (ReadPointer (header s))" and ?c = "content (fd s)"
  have ok: "file_ok (fd s)" and lp: "leased_pointer s = ReadPointer (header s) + int (length (enc_records l))"
    and rp: "50 \<le> ReadPointer (header s)" and body: "drop ?rp ?c = enc_records (l @ x # p)"
    using rel by (auto simp: file_rel_def)
  have nlp: "nat (leased_pointer s) = ?rp + length (enc_records l)"
    using lp rp by simp
  have "drop (nat (leased_pointer s)) ?c = drop (length (enc_records l)) (drop ?rp ?c)"
    by (simp add: nlp add.commute)
  then have at: "drop (nat (leased_pointer s)) ?c = PutUint64 (length x) @ x @ enc_records p"
    by (simp add: body enc_record_def)
  show "ReadAt (fd s) 8 (leased_pointer s) = (PutUint64 (length x), None)"
    using ok lp rp at by (simp add: ReadAt_def file_ok_def)
  have bounds: "leased_pointer s + 8 + int (length x) < 2 ^ 62" "0 \<le> leased_pointer s"
    using file_rel_bounds [OF rel] rel by (auto simp: file_rel_def)
  have "nat (leased_pointer s + 8) = 8 + nat (leased_pointer s)"
    using bounds(2) by simp
  then have "drop (nat (leased_pointer s + 8)) ?c = drop 8 (drop (nat (leased_pointer s)) ?c)"
    by (simp add: drop_drop)
  then have "drop (nat (leased_pointer s + 8)) ?c = x @ enc_records p"
    by (simp add: at)
  moreover have i: "i64 (leased_pointer s + 8) = leased_pointer s + 8"
    "i64 (leased_pointer s + (8 + int (length x))) = leased_pointer s + (8 + int (length x))"
    using bounds by (simp_all add: in_i64_def)
  ultimately show "ReadAt (fd s) (length x) (i64 (leased_pointer s + 8)) = (x, None)"
    using ok bounds by (simp add: ReadAt_def file_ok_def)
  have n: "int (nbytes l) + int (length x) < 2 ^ 62" "int (nbytes p) < 2 ^ 62"
    using file_rel_bounds(4) [OF rel] by simp_all
  have "i64 (int (nbytes l) + int (length x)) = int (nbytes l) + int (length x)"
    "i64 (int (nbytes (x # p)) - int (length x)) = int (nbytes p)"
    using n by (simp_all add: in_i64_def)
  then show "file_rel (advance (length x) s) (c, l @ [x], p)"
    using rel tx i(2) by (auto simp: file_rel_def advance_def disk_header_def)
qed

lemma lease_loop_rel:
  assumes "file_rel s (c, l, p)" and "LeasedPointer (current_transaction s) = ReadPointer (header s)"
    and "length p < fuel"
  shows "\<exists>s'. lease_loop fuel flt sz acc s =
      Some (acc @ concat (map flt (take (lease_count flt sz (length acc) p) p)), s') \<and>
    file_rel s' (c, l @ take (lease_count flt sz (length acc) p) p, drop (lease_count flt sz (length acc) p) p)"
  using assms
proof (induction p arbitrary: s l acc fuel)
  case Nil
  then have "\<not> WritePointer (header s) > leased_pointer s"
    by (simp add: file_rel_def)
  with Nil show ?case
    by (cases fuel) simp_all
next
  case (Cons x p)
  obtain k where k: "fuel = Suc k"
    using Cons.prems(3) by (cases fuel) auto
  note st = lease_step_rel [OF Cons.prems(1,2)]
  have x: "ok_item x"
    using Cons.prems(1) by (simp add: file_rel_def file_fits_def)
  have wp: "WritePointer (header s) > leased_pointer s"
    using Cons.prems(1) by (simp add: file_rel_def)
  have step: "lease_loop fuel flt sz acc s =
      (if length (acc @ flt x) > sz then Some (acc @ flt x, advance (length x) s)
       else lease_loop k flt sz (acc @ flt x) (advance (length x) s))"
    unfolding k
  proof (rule lease_loop_step [OF wp st(1)], unfold item_length [OF x])
    show "0 < int (length x)" "int (length x) \<le> MAX_MEMORY * 2"
      using x by (auto simp: ok_item_def)
    show "ReadAt (fd s) (nat (int (length x))) (i64 (leased_pointer s + 8)) = (x, None)"
      using st(2) by simp
  qed
  have tx: "LeasedPointer (current_transaction (advance (length x) s)) = ReadPointer (header (advance (length x) s))"
    using Cons.prems(2) by (simp add: advance_def)
  show ?case
  proof (cases "length (acc @ flt x) > sz")
    case True
    then show ?thesis
      using step st(3) by simp
  next
    case False
    then show ?thesis
      using step Cons.IH [OF st(3) tx, of k "acc @ flt x"] Cons.prems(3) k by (auto simp: add.assoc)
  qed
qed

lemma Lease_rel:
  assumes rel: "file_rel s (c, l, p)"
  shows "\<exists>s'. Lease flt n s = Some (concat (map flt (take (lease_count flt n 0 p) p)), s') \<and>
    file_rel s' (c, l @ take (lease_count flt n 0 p) p, drop (lease_count flt n 0 p) p)"
proof -
  define s1 where "s1 = (if LeasedPointer (current_transaction s) = 0
    then s\<lparr>current_transaction := (current_transaction s)\<lparr>LeasedPointer := leased_pointer s\<rparr>\<rparr> else s)"
  have rp: "50 \<le> ReadPointer (header s)"
    using rel by (simp add: file_rel_def)
  have rel1: "file_rel s1 (c, l, p)" and tx: "LeasedPointer (current_transaction s1) = ReadPointer (header s1)"
    using rel rp by (auto simp: s1_def file_rel_def)
  have "length p < Suc (nat (WritePointer (header s1) - leased_pointer s1))"
    using rel1 length_le_enc [of p] by (simp add: file_rel_def)
  from lease_loop_rel [OF rel1 tx this, of flt n "[]"] show ?thesis
    unfolding Lease_def s1_def [symmetric] Let_def by (simp del: lease_loop.simps)
qed

lemma Commit_rel:
  assumes rel: "file_rel s (c, l, p)"
  shows "file_rel (Commit s) (c @ l, [], p)"
proof (cases "p = []")
  case True
  then have "leased_pointer s = WritePointer (header s)"
    using rel by (simp add: file_rel_def)
  then show ?thesis
    using Truncate_rel [of s c l] rel True by (simp add: Commit_def)
next
  case False
  then have ne: "leased_pointer s \<noteq> WritePointer (header s)"
    using rel length_le_enc [of p] by (auto simp: file_rel_def)
  let ?h = "(header s)\<lparr>ReadPointer := leased_pointer s, LeasedBytes := 0\<rparr>"
  have c: "content (fd s) \<noteq> []" and len: "int (length (content (fd s))) = WritePointer (header s)"
    using rel False by (auto simp: file_rel_def)
  have "50 \<le> length (content (fd s))"
    using base_rel(2) [OF rel] c by (simp add: base_def)
  then have w: "fst (WriteAt (fd s) (MarshalBinary ?h) 0) =
      (fd s)\<lparr>content := MarshalBinary ?h @ drop 50 (content (fd s))\<rparr>"
    using rel by (simp add: file_rel_def WriteAt_ok FirstRecordOffset_def write_bytes_0)
  have lp: "nat (leased_pointer s) = nat (ReadPointer (header s)) + length (enc_records l)"
    "50 \<le> nat (leased_pointer s)"
    using rel by (auto simp: file_rel_def)
  have "drop (nat (leased_pointer s)) (MarshalBinary ?h @ drop 50 (content (fd s))) =
      drop (nat (leased_pointer s)) (content (fd s))"
    using lp(2) by (simp add: FirstRecordOffset_def)
  also have "\<dots> = drop (length (enc_records l)) (drop (nat (ReadPointer (header s))) (content (fd s)))"
    by (simp only: lp(1) drop_drop add.commute)
  also have "\<dots> = drop (length (enc_records l)) (enc_records (l @ p))"
    using rel by (simp add: file_rel_def)
  finally have body: "drop (nat (leased_pointer s)) (MarshalBinary ?h @ drop 50 (content (fd s))) = enc_records p"
    by simp
  have "header_in_range ?h"
    using file_rel_range [OF rel] file_rel_bounds [OF rel] by (auto simp: header_in_range_def in_i64_def)
  then have "disk_header (MarshalBinary ?h @ drop 50 (content (fd s))) ?h (nbytes p)"
    using rel by (intro disk_header_write) (auto simp: file_rel_def)
  then show ?thesis
    using rel ne w body len \<open>50 \<le> length (content (fd s))\<close>
    by (simp add: Commit_def file_rel_def empty_tx_def FirstRecordOffset_def Let_def)
qed

lemma Rollback_rel:
  assumes rel: "file_rel s (c, l, p)" and "l \<noteq> []"
  shows "file_rel (Rollback s) (c, [], l @ p)"
proof -
  have "i64 (int (nbytes p) + int (nbytes l)) = int (nbytes p) + int (nbytes l)" "i64 0 = 0"
    using file_rel_bounds(4) [OF rel] by (simp_all add: in_i64_def)
  then show ?thesis
    using assms by (auto simp: file_rel_def Rollback_def empty_tx_def disk_header_def)
qed

interpretation fring: ring_buffer flt Enqueue "\<lambda>n s. the (Lease flt n s)" Commit Rollback file_rel file_fits
  for flt
proof unfold_locales
  fix s c l p n
  assume "file_rel s (c, l, p)"
  from Lease_rel [OF this] show
    "fst (the (Lease flt n s)) = concat (map flt (take (lease_count flt n 0 p) p)) \<and>
     file_rel (snd (the (Lease flt n s)))
       (c, l @ take (lease_count flt n 0 p) p, drop (lease_count flt n 0 p) p)"
    by (metis fst_conv option.sel snd_conv)
qed (simp_all add: Enqueue_rel Commit_rel Rollback_rel)

section \<open>Opening a file\<close>

lemma newRing_empty:
  assumes "content f = []" and "file_ok f" and "0 \<le> ds" and "ds < 2 ^ 62"
  shows "\<exists>s. newFileBasedRingBuffer f ds = Ok s \<and> file_rel s ([], [], [])"
proof -
  have "in_i64 (ds + 50)"
    using assms(3,4) by (simp add: in_i64_def)
  then show ?thesis
    using assms by (simp add: newFileBasedRingBuffer_def ReadAt_def file_ok_def FirstRecordOffset_def
        file_rel_def empty_tx_def file_fits_def)
qed

text \<open>A buffer opened on the file of a related state has everything not yet committed.\<close>

lemma newRing_reopen:
  assumes rel: "file_rel s (c, l, p)" and "0 \<le> ds" and "ds < 2 ^ 62"
  shows "\<exists>s'. newFileBasedRingBuffer (fd s) ds = Ok s' \<and> file_rel s' (c, [], l @ p)"
proof (cases "content (fd s) = []")
  case True
  then have "l @ p = []"
    using rel by (auto simp: file_rel_def)
  moreover have "file_ok (fd s)"
    using rel by (simp add: file_rel_def)
  ultimately show ?thesis
    using True assms(2,3) rel
    by (auto simp: newFileBasedRingBuffer_def ReadAt_def file_ok_def FirstRecordOffset_def
        file_rel_def empty_tx_def file_fits_def in_i64_def)
next
  case False
  then have c: "50 \<le> length (content (fd s))" and disk: "disk_header (content (fd s)) (header s) (nbytes (l @ p))"
    and ok: "file_ok (fd s)"
    using rel base_rel(2) [OF rel] by (auto simp: file_rel_def base_def)
  obtain d where d: "header_in_range d" "take 50 (content (fd s)) = MarshalBinary d"
    "ReadPointer d = ReadPointer (header s)" "WritePointer d = WritePointer (header s)"
    "MaxSize d = MaxSize (header s)" "AvailableBytes d + LeasedBytes d = int (nbytes (l @ p))"
    using disk by (auto simp: disk_header_def)
  have read: "ReadAt (fd s) 50 0 = (MarshalBinary d, None)"
    using ok c d(2) by (simp add: ReadAt_ok)
  have un: "UnmarshalBinary h (MarshalBinary d) = (d, None)" for h
    using Unmarshal_Marshal [OF d(1), of h "[]"] by simp
  have n: "int (nbytes (l @ p)) < 2 ^ 62"
    using file_rel_bounds(4) [OF rel] .
  let ?d = "if LeasedBytes d \<noteq> 0
    then d\<lparr>AvailableBytes := i64 (AvailableBytes d + LeasedBytes d), LeasedBytes := 0\<rparr> else d"
  have "newFileBasedRingBuffer (fd s) ds = Ok \<lparr>fd = fd s, header = ?d, ring_closed = False,
      leased_pointer = ReadPointer ?d, current_transaction = empty_tx\<rparr>"
    using read un by (simp add: newFileBasedRingBuffer_def FirstRecordOffset_def Let_def)
  moreover have "AvailableBytes ?d = int (nbytes (l @ p))" "LeasedBytes ?d = 0"
    using d(6) n by (auto simp: in_i64_def)
  ultimately show ?thesis
    using rel False d by (auto simp: file_rel_def empty_tx_def disk_header_def)
qed

section \<open>A rollback without a lease\<close>

lemma magic_length:
  assumes "take 4 b = FileMagic" and "length b = 8"
  shows "i64_of_u64 (Uint64 b) > MAX_MEMORY * 2 \<or> i64_of_u64 (Uint64 b) \<le> 0"
proof -
  have "b = FileMagic @ drop 4 b"
    using assms(1) by (metis append_take_drop_id)
  then have "Uint64 b = le_value (FileMagic @ drop 4 b)"
    using assms(2) by (simp add: Uint64_def)
  then have "1581404758 \<le> Uint64 b"
    by (simp add: FileMagic_def)
  moreover have "Uint64 b < 2 ^ 64"
    using Uint64_less assms(2) by simp
  ultimately show ?thesis
    by (cases "Uint64 b < 2 ^ 63")
      (auto simp: i64_of_u64_def in_i64_def MAX_MEMORY_def i64_high)
qed

lemma Rollback_resets:
  assumes rel: "file_rel s (c, [], p)" and tx: "current_transaction s = empty_tx" and "p \<noteq> []"
  shows "\<exists>s'. Lease flt n (Rollback s) = Some ([], s') \<and> WritePointer (header s') = 50 \<and>
    AvailableBytes (header s') = 0"
proof -
  let ?r = "Rollback s"
  have lp: "leased_pointer ?r = 0" "LeasedPointer (current_transaction ?r) = 0" "fd ?r = fd s"
    "WritePointer (header ?r) = WritePointer (header s)"
    using tx by (simp_all add: Rollback_def empty_tx_def)
  have wp: "WritePointer (header s) > 0" and c: "content (fd s) \<noteq> []" and ok: "file_ok (fd s)"
    using rel \<open>p \<noteq> []\<close> by (auto simp: file_rel_def)
  have len: "50 \<le> length (content (fd s))"
    using base_rel(2) [OF rel] c by (simp add: base_def)
  obtain d where d: "take 50 (content (fd s)) = MarshalBinary d"
    using rel c by (auto simp: file_rel_def disk_header_def)
  let ?b = "take 8 (content (fd s))"
  have "take 4 ?b = take 4 (take 50 (content (fd s)))"
    by simp
  then have "take 4 ?b = FileMagic"
    unfolding d by (simp add: MarshalBinary_def FileMagic_def)
  then have bad: "i64_of_u64 (Uint64 ?b) > MAX_MEMORY * 2 \<or> i64_of_u64 (Uint64 ?b) \<le> 0"
    using len by (intro magic_length) simp_all
  have read: "ReadAt (fd s) 8 0 = (?b, None)"
    using ok len by (simp add: ReadAt_ok)
  show ?thesis
    using lp wp bad read by (auto simp: Lease_def Let_def)
qed

section \<open>Properties\<close>

text \<open>C2: The file based ring buffer refines the same queue as the one in memory, for items of
  one byte to 100 MB as long as the file stays below \<open>2^62\<close> bytes and writes succeed: the
  payloads leased are those of the queue, none of the enqueued items is lost, duplicated or
  reordered, the byte counters are exact, and the file can be read back at any time: opening
  it again, as after a crash, gives every item not yet committed, the leased ones first.\<close>

theorem file_ring_refines:
  assumes "admissible flt file_fits ops ([], [], [])" and "content f = []" and "file_ok f"
    and "0 \<le> ds" and "ds < 2 ^ 62" and "newFileBasedRingBuffer f ds = Ok s0"
  shows "\<exists>c l p. fst (spec_run flt ops ([], [], [])) = (c, l, p) \<and> c @ l @ p = enqueued ops \<and>
    snd (ring_run Enqueue (\<lambda>n s. the (Lease flt n s)) Commit Rollback ops s0) =
      snd (spec_run flt ops ([], [], [])) \<and>
    (let s = fst (ring_run Enqueue (\<lambda>n s. the (Lease flt n s)) Commit Rollback ops s0)
     in AvailableBytes (header s) = int (nbytes p) \<and> LeasedBytes (header s) = int (nbytes l) \<and>
        (\<exists>s'. newFileBasedRingBuffer (fd s) ds = Ok s' \<and> file_rel s' (c, [], l @ p)))"
proof -
  obtain c l p where q: "fst (spec_run flt ops ([], [], [])) = (c, l, p)"
    by (rule prod_cases3)
  have "file_rel s0 ([], [], [])"
    using newRing_empty [OF assms(2-5)] assms(6) by simp
  note sim = fring.simulation [OF this assms(1), unfolded q]
  let ?s = "fst (ring_run Enqueue (\<lambda>n s. the (Lease flt n s)) Commit Rollback ops s0)"
  have rel: "file_rel ?s (c, l, p)"
    using sim by blast
  have "AvailableBytes (header ?s) = int (nbytes p)" "LeasedBytes (header ?s) = int (nbytes l)"
    using rel by (simp_all add: file_rel_def)
  moreover have "c @ l @ p = enqueued ops"
    using spec_run_items [of flt ops "([], [], [])"] unfolding q by (simp add: items_def)
  ultimately show ?thesis
    using sim q newRing_reopen [OF rel assms(4,5)] unfolding Let_def by blast
qed

theorem file_ring_refines_witness:
  "\<exists>s0. newFileBasedRingBuffer \<lparr>content = [], faults = [], fd_closed = False\<rparr> 1000 = Ok s0 \<and>
   snd (ring_run Enqueue (\<lambda>n s. the (Lease (\<lambda>x. x) n s)) Commit Rollback
     [Enq [1], Enq [2, 3], Lease_op 0, Rollback_op, Lease_op 5, Commit_op] s0) = [[1], [1, 2, 3]]"
proof -
  let ?f = "\<lparr>content = [], faults = [], fd_closed = False\<rparr>"
  obtain s0 where s0: "newFileBasedRingBuffer ?f 1000 = Ok s0"
    using newRing_empty [of ?f 1000] by (auto simp: file_ok_def)
  show ?thesis
    using file_ring_refines [of "\<lambda>x. x" "[Enq [1], Enq [2, 3], Lease_op 0, Rollback_op, Lease_op 5, Commit_op]"
        ?f 1000 s0] s0
    by (auto simp: file_ok_def file_fits_def ok_item_def MAX_MEMORY_def items_def Let_def)
qed

text \<open>C28: A lease always returns, whatever the file holds and whatever the pointers are: the
  loop ends because every item moves the lease pointer forward, and a short or corrupt file
  empties the buffer.\<close>

theorem Lease_returns:
  assumes "in_i64 (leased_pointer s)"
  shows "\<exists>r. Lease flt sz s = Some r"
  using assms by (rule Lease_total)

theorem Lease_returns_witness:
  "\<exists>r. Lease (\<lambda>x. x) 10
     \<lparr>fd = \<lparr>content = [], faults = [], fd_closed = False\<rparr>,
      header = \<lparr>ReadPointer = 50, WritePointer = 1000, MaxSize = 0, AvailableBytes = 0, LeasedBytes = 0\<rparr>,
      ring_closed = False, leased_pointer = 50, current_transaction = empty_tx\<rparr> = Some r"
  by (rule Lease_returns) (simp add: in_i64_def)

text \<open>The header of the file survives being written and read: the five counters come back
  whatever follows them in the file, and nothing shorter than a header or without the magic
  number is taken for one.\<close>

theorem Header_roundtrip:
  assumes "header_in_range h"
  shows "UnmarshalBinary h0 (MarshalBinary h @ rest) = (h, None)"
  using assms by (rule Unmarshal_Marshal)

lemma one_item_ring:
  "\<exists>s. file_rel s ([], [], [[1]]) \<and> current_transaction s = empty_tx"
proof -
  let ?f = "\<lparr>content = [], faults = [], fd_closed = False\<rparr>"
  obtain s0 where s0: "newFileBasedRingBuffer ?f 1000 = Ok s0" "file_rel s0 ([], [], [])"
    using newRing_empty [of ?f 1000] by (auto simp: file_ok_def)
  have fits: "file_fits ([] @ [] @ [] @ [[1]])"
    by (simp add: file_fits_def ok_item_def MAX_MEMORY_def)
  have "file_rel (Enqueue s0 [1]) ([], [], [] @ [[1]])"
    by (rule Enqueue_rel [OF s0(2) fits])
  moreover have "current_transaction s0 = empty_tx"
    using s0(1) by (auto simp: newFileBasedRingBuffer_def ReadAt_def FirstRecordOffset_def)
  then have "current_transaction (Enqueue s0 [1]) = empty_tx"
    unfolding Enqueue_eq [OF s0(2) fits] by simp
  ultimately show ?thesis by auto
qed

end
