(* ===== verification/Sender.thy ===== *)
theory Sender
  imports Mem_Ring File_Ring "HOL-Library.Sublist"
begin

text \<open>
  The client's sender, \<^verbatim>\<open>http_comms/sender.go\<close>, and \<^verbatim>\<open>LeaseAndCompress\<close> of
  \<^verbatim>\<open>http_comms/ring_buffer.go\<close>. One goroutine moves messages from the executor to the ring
  buffers, another leases them, posts them to the server and commits or rolls back. The
  interface value \<^verbatim>\<open>ring_buffer\<close> is one of the two implementations. \<open>compress\<close> is zlib
  compression, \<open>None\<close> when it fails; whether the context was cancelled while a list was
  being sent, whether the sender is paused and the filter of cancelled flows are inputs of
  each turn of the loops.
\<close>

section \<open>The interface value\<close>

datatype IRingBuffer = MemRB RingBuffer | FileRB FileRing

fun IEnqueue :: "IRingBuffer \<Rightarrow> bytes \<Rightarrow> IRingBuffer" where
  "IEnqueue (MemRB r) x = MemRB (Mem_Ring.Enqueue r x)"
| "IEnqueue (FileRB r) x = FileRB (File_Ring.Enqueue r x)"

text \<open>A lease from the file always returns (\<open>File_Ring.Lease_returns\<close>).\<close>

fun ILease :: "(bytes \<Rightarrow> bytes) \<Rightarrow> nat \<Rightarrow> IRingBuffer \<Rightarrow> bytes \<times> IRingBuffer" where
  "ILease flt n (MemRB r) = map_prod id MemRB (Mem_Ring.Lease flt n r)"
| "ILease flt n (FileRB r) = map_prod id FileRB (the (File_Ring.Lease flt n r))"

fun ICommit :: "IRingBuffer \<Rightarrow> IRingBuffer" where
  "ICommit (MemRB r) = MemRB (Mem_Ring.Commit r)"
| "ICommit (FileRB r) = FileRB (File_Ring.Commit r)"

fun IRollback :: "IRingBuffer \<Rightarrow> IRingBuffer" where
  "IRollback (MemRB r) = MemRB (Mem_Ring.Rollback r)"
| "IRollback (FileRB r) = FileRB (File_Ring.Rollback r)"

fun IReset :: "IRingBuffer \<Rightarrow> IRingBuffer" where
  "IReset (MemRB r) = MemRB (Mem_Ring.Reset r)"
| "IReset (FileRB r) = FileRB (File_Ring.Reset r)"

fun IAvailableBytes :: "IRingBuffer \<Rightarrow> nat" where
  "IAvailableBytes (MemRB r) = unat (Mem_Ring.AvailableBytes r)"
| "IAvailableBytes (FileRB r) = RingAvailableBytes r"

fun IBlocked :: "IRingBuffer \<Rightarrow> bool" where
  "IBlocked (MemRB r) = Mem_Ring.Blocked r"
| "IBlocked (FileRB r) = File_Ring.Blocked r"

section \<open>Leasing and compressing\<close>

text \<open>The loop ends because every turn adds a non-empty list to the total. With compression
  off the leased list itself is kept.\<close>

function lac_loop ::
  "(nat \<Rightarrow> 's \<Rightarrow> bytes \<times> 's) \<Rightarrow> ('s \<Rightarrow> 's) \<Rightarrow> (bytes \<Rightarrow> bytes option) option \<Rightarrow> nat \<Rightarrow> nat \<Rightarrow>
   bytes list \<Rightarrow> 's \<Rightarrow> bytes list \<times> 's" where
  "lac_loop lease reset compression sz total_len result self =
     (if \<not> total_len < sz then (result, self)
      else (case lease (sz div 4) self of
        (next_message_list, self) \<Rightarrow>
          if length next_message_list = 0 then (result, self)
          else (case compression of
            Some compress \<Rightarrow>
              (case compress next_message_list of
                 None \<Rightarrow> (result, reset self)
               | Some compressed \<Rightarrow>
                   if length compressed = 0 then (result, reset self)
                   else lac_loop lease reset compression sz (total_len + length compressed)
                          (result @ [compressed]) self)
          | None \<Rightarrow>
              lac_loop lease reset compression sz (total_len + length next_message_list)
                (result @ [next_message_list]) self)))"
  by pat_completeness auto
termination
  by (relation "measure (\<lambda>(_, _, _, sz, total_len, _, _). sz - total_len)")
    (auto intro!: diff_less_mono2)

declare lac_loop.simps [simp del]

definition LeaseAndCompress ::
  "(nat \<Rightarrow> 's \<Rightarrow> bytes \<times> 's) \<Rightarrow> ('s \<Rightarrow> 's) \<Rightarrow> (bytes \<Rightarrow> bytes option) option \<Rightarrow> nat \<Rightarrow> 's \<Rightarrow>
   bytes list \<times> 's" where
  "LeaseAndCompress lease reset compression sz self = lac_loop lease reset compression sz 0 [] self"

section \<open>The sender\<close>

text \<open>\<open>waiting\<close> is the buffer into which the executor pump last enqueued, where it waits while
  that buffer has no room: \<open>True\<close> for the urgent one.\<close>

record Sender =
  ring_buffer :: IRingBuffer
  urgent_buffer :: RingBuffer
  waiting :: "bool option"

definition NewSender :: "IRingBuffer \<Rightarrow> nat \<Rightarrow> Sender" where
  "NewSender ring MaxUploadSize =
     \<lparr>ring_buffer = ring, urgent_buffer = NewRingBuffer (of_nat (2 * MaxUploadSize)), waiting = None\<rparr>"

definition pump_ready :: "Sender \<Rightarrow> bool" where
  "pump_ready self \<longleftrightarrow>
     (case waiting self of
        None \<Rightarrow> True
      | Some urgent \<Rightarrow> \<not> (if urgent then Mem_Ring.Blocked (urgent_buffer self) else IBlocked (ring_buffer self)))"

text \<open>A turn of \<^verbatim>\<open>PumpExecutorToRingBuffer\<close> that receives a message; \<open>serialized\<close> is the
  outcome of marshalling it. The second result is whether the other pump is released.\<close>

definition PumpExecutorToRingBuffer ::
  "nat \<Rightarrow> bool \<Rightarrow> bytes option \<Rightarrow> Sender \<Rightarrow> Sender \<times> bool" where
  "PumpExecutorToRingBuffer MaxUploadSize urgent serialized self =
     (case serialized of
        None \<Rightarrow> (self, False)
      | Some msg \<Rightarrow>
          (let self = (if urgent
                       then self\<lparr>urgent_buffer := Mem_Ring.Enqueue (urgent_buffer self) msg,
                                 waiting := Some True\<rparr>
                       else self\<lparr>ring_buffer := IEnqueue (ring_buffer self) msg,
                                 waiting := Some False\<rparr>)
           in (self, IAvailableBytes (ring_buffer self) > MaxUploadSize)))"

text \<open>A turn of \<^verbatim>\<open>PumpRingBufferToSendMessage\<close>: the lists sent, with whether they are urgent.
  \<^verbatim>\<open>sendMessageList\<close> returns when the server has the list or the context is cancelled
  (\<open>done1\<close>, \<open>done2\<close>).\<close>

definition PumpRingBufferToSendMessage ::
  "(bytes \<Rightarrow> bytes option) option \<Rightarrow> nat \<Rightarrow> (bytes \<Rightarrow> bytes) \<Rightarrow> bool \<Rightarrow> bool \<Rightarrow> bool \<Rightarrow> Sender \<Rightarrow>
   Sender \<times> (bool \<times> bytes list) list" where
  "PumpRingBufferToSendMessage compression MaxUploadSize flt paused done1 done2 self =
     (if paused then (self, [])
      else
        (let (messages1, u) = LeaseAndCompress (Mem_Ring.Lease flt) Mem_Ring.Reset compression
                                MaxUploadSize (urgent_buffer self);
             self = self\<lparr>urgent_buffer := u\<rparr>;
             self = (if length messages1 > 0
                     then self\<lparr>ring_buffer := (if done1 then IRollback else ICommit) (ring_buffer self)\<rparr>
                     else self);
             sent1 = (if length messages1 > 0 then [(True, messages1)] else []);
             (messages2, r) = LeaseAndCompress (ILease flt) IReset compression
                                MaxUploadSize (ring_buffer self);
             self = self\<lparr>ring_buffer := r\<rparr>;
             self = (if length messages2 > 0
                     then self\<lparr>ring_buffer := (if done2 then IRollback else ICommit) (ring_buffer self)\<rparr>
                     else self);
             sent2 = (if length messages2 > 0 then [(False, messages2)] else [])
         in (self, sent1 @ sent2)))"

text \<open>\<^verbatim>\<open>CleanOnExit\<close>.\<close>

definition CleanOnExit :: "Sender \<Rightarrow> Sender" where
  "CleanOnExit self =
     self\<lparr>urgent_buffer := Mem_Ring.Close (urgent_buffer self),
          ring_buffer := (case ring_buffer self of
             MemRB r \<Rightarrow> MemRB (Mem_Ring.Close r) | FileRB r \<Rightarrow> FileRB (File_Ring.Close r))\<rparr>"

text \<open>The two pumps interleaved, until the client shuts down, with the accepted messages.\<close>

inductive sender_run ::
  "(bytes \<Rightarrow> bytes option) option \<Rightarrow> nat \<Rightarrow> Sender \<Rightarrow> (bool \<times> bytes) list \<Rightarrow> Sender \<Rightarrow> bool"
  for compression MaxUploadSize where
  init: "sender_run compression MaxUploadSize s [] s"
| accept: "sender_run compression MaxUploadSize s tr s1 \<Longrightarrow> pump_ready s1 \<Longrightarrow>
    PumpExecutorToRingBuffer MaxUploadSize urgent (Some msg) s1 = (s2, rel) \<Longrightarrow>
    sender_run compression MaxUploadSize s (tr @ [(urgent, msg)]) s2"
| send: "sender_run compression MaxUploadSize s tr s1 \<Longrightarrow>
    PumpRingBufferToSendMessage compression MaxUploadSize flt paused done1 done2 s1 = (s2, out) \<Longrightarrow>
    sender_run compression MaxUploadSize s tr s2"

section \<open>Leasing through the interface\<close>

definition ring_rel :: "IRingBuffer \<Rightarrow> queue \<Rightarrow> bool" where
  "ring_rel r q = (case r of MemRB m \<Rightarrow> mem_rel m q | FileRB f \<Rightarrow> file_rel f q)"

definition ring_fits :: "bytes list \<Rightarrow> bool" where
  "ring_fits xs \<longleftrightarrow> mem_fits xs \<and> file_fits xs"

interpretation iring: ring_buffer flt IEnqueue "ILease flt" ICommit IRollback ring_rel ring_fits
  for flt
proof unfold_locales
  fix s c l p x
  assume "ring_rel s (c, l, p)" "ring_fits (c @ l @ p @ [x])"
  then show "ring_rel (IEnqueue s x) (c, l, p @ [x])"
    using mem.rel_enq fring.rel_enq by (cases s) (auto simp: ring_rel_def ring_fits_def)
next
  fix s c l p n
  assume "ring_rel s (c, l, p)"
  then show "fst (ILease flt n s) = concat (map flt (take (lease_count flt n 0 p) p)) \<and>
      ring_rel (snd (ILease flt n s)) (c, l @ take (lease_count flt n 0 p) p, drop (lease_count flt n 0 p) p)"
    using mem.rel_lease fring.rel_lease by (cases s) (auto simp: ring_rel_def)
next
  fix s c l p
  assume "ring_rel s (c, l, p)"
  then show "ring_rel (ICommit s) (c @ l, [], p)"
    using mem.rel_commit fring.rel_commit by (cases s) (auto simp: ring_rel_def)
next
  fix s c l p
  assume "ring_rel s (c, l, p)" "l \<noteq> []"
  then show "ring_rel (IRollback s) (c, [], l @ p)"
    using mem.rel_rollback fring.rel_rollback by (cases s) (auto simp: ring_rel_def)
qed

text \<open>Compression that never fails and is undone by \<open>unc\<close>; without compression lists are sent
  as they are.\<close>

definition codec :: "(bytes \<Rightarrow> bytes option) option \<Rightarrow> (bytes \<Rightarrow> bytes) \<Rightarrow> bool" where
  "codec compression unc \<longleftrightarrow>
     (case compression of
        None \<Rightarrow> (\<forall>b. unc b = b)
      | Some f \<Rightarrow> (\<forall>b. \<exists>z. f b = Some z \<and> z \<noteq> [] \<and> unc z = b))"

text \<open>One turn: the loop goes on with the chunk for the leased list.\<close>

lemma lac_loop_turn:
  assumes "codec compression unc" and "t < sz" and "lease (sz div 4) s = (b, s1)" and "b \<noteq> []"
  shows "\<exists>z. z \<noteq> [] \<and> unc z = b \<and> lac_loop lease reset compression sz t acc s =
    lac_loop lease reset compression sz (t + length z) (acc @ [z]) s1"
proof (cases compression)
  case None
  then show ?thesis
    using assms by (subst lac_loop.simps) (simp add: codec_def)
next
  case (Some f)
  then obtain z where "f b = Some z" "z \<noteq> []" "unc z = b"
    using assms(1) by (auto simp: codec_def)
  then show ?thesis
    using assms Some by (intro exI [of _ z], subst lac_loop.simps) simp
qed

context ring_buffer
begin

lemma lac_loop_rel:
  assumes "codec compression unc" and "rel s (c, l, p)"
  shows "\<exists>k. rel (snd (lac_loop lease reset compression sz t acc s)) (c, l @ take k p, drop k p) \<and>
    concat (map unc (fst (lac_loop lease reset compression sz t acc s))) =
      concat (map unc acc) @ concat (map flt (take k p)) \<and>
    (fst (lac_loop lease reset compression sz t acc s) = acc \<or> take k p \<noteq> [])"
  using assms(2)
proof (induction "sz - t" arbitrary: t acc s l p rule: less_induct)
  case less
  define k where "k = lease_count flt (sz div 4) 0 p"
  obtain b s1 where ls: "lease (sz div 4) s = (b, s1)"
    by fastforce
  have b: "b = concat (map flt (take k p))" and r1: "rel s1 (c, l @ take k p, drop k p)"
    using rel_lease [OF less.prems, of "sz div 4"] ls by (simp_all add: k_def)
  consider "\<not> t < sz" | "t < sz" "b = []" | "t < sz" "b \<noteq> []" by blast
  then show ?case
  proof cases
    case 1
    then show ?thesis
      using less.prems by (intro exI [of _ 0]) (simp add: lac_loop.simps)
  next
    case 2
    then show ?thesis
      using ls b r1 by (intro exI [of _ k]) (simp add: lac_loop.simps)
  next
    case 3
    then obtain z where z: "z \<noteq> []" "unc z = b"
      and eq: "lac_loop lease reset compression sz t acc s =
        lac_loop lease reset compression sz (t + length z) (acc @ [z]) s1"
      using lac_loop_turn [of compression unc t sz lease s b s1 reset acc] assms(1) 3 ls by auto
    have "sz - (t + length z) < sz - t"
      using 3(1) z(1) by (intro diff_less_mono2) auto
    from less.hyps [OF this r1, of "acc @ [z]"] obtain m where
      "rel (snd (lac_loop lease reset compression sz (t + length z) (acc @ [z]) s1))
        (c, (l @ take k p) @ take m (drop k p), drop m (drop k p))"
      "concat (map unc (fst (lac_loop lease reset compression sz (t + length z) (acc @ [z]) s1))) =
        concat (map unc (acc @ [z])) @ concat (map flt (take m (drop k p)))"
      by blast
    moreover have tk: "take (k + m) p = take k p @ take m (drop k p)"
      by (simp add: take_add)
    moreover have "take k p \<noteq> []"
      using 3(2) b by (cases "take k p") simp_all
    ultimately show ?thesis
      unfolding eq using z(2) b by (intro exI [of _ "k + m"]) (simp add: add.commute)
  qed
qed

end

section \<open>The urgent buffer\<close>

lemma lac_loop_Mem_total:
  assumes "codec compression unc"
  shows "total_length (snd (lac_loop (Mem_Ring.Lease flt) Mem_Ring.Reset compression sz t acc s)) = total_length s \<and>
    messages (snd (lac_loop (Mem_Ring.Lease flt) Mem_Ring.Reset compression sz t acc s)) = messages s \<and>
    closed (snd (lac_loop (Mem_Ring.Lease flt) Mem_Ring.Reset compression sz t acc s)) = closed s \<and>
    Size (snd (lac_loop (Mem_Ring.Lease flt) Mem_Ring.Reset compression sz t acc s)) = Size s"
proof (induction "sz - t" arbitrary: t acc s rule: less_induct)
  case less
  obtain b s1 where ls: "Mem_Ring.Lease flt (sz div 4) s = (b, s1)"
    by fastforce
  have keep: "total_length s1 = total_length s" "messages s1 = messages s" "closed s1 = closed s" "Size s1 = Size s"
    using Lease_keeps [of flt "sz div 4" s] ls by simp_all
  consider "\<not> t < sz \<or> b = []" | "t < sz" "b \<noteq> []" by blast
  then show ?case
  proof cases
    case 1
    then show ?thesis
      using ls keep by (subst (1 2 3 4) lac_loop.simps) auto
  next
    case 2
    then obtain z where z: "z \<noteq> []"
      and eq: "lac_loop (Mem_Ring.Lease flt) Mem_Ring.Reset compression sz t acc s =
        lac_loop (Mem_Ring.Lease flt) Mem_Ring.Reset compression sz (t + length z) (acc @ [z]) s1"
      using lac_loop_turn [of compression unc t sz "Mem_Ring.Lease flt" s b s1 Mem_Ring.Reset acc] assms 2 ls by auto
    have "sz - (t + length z) < sz - t"
      using 2(1) z by (intro diff_less_mono2) auto
    from less [OF this, of "acc @ [z]" s1] show ?thesis
      unfolding eq using keep by simp
  qed
qed

lemma pump_urgent:
  assumes "codec compression unc"
    and "PumpRingBufferToSendMessage compression m flt paused done1 done2 s = (s', out)"
  shows "waiting s' = waiting s \<and> total_length (urgent_buffer s') = total_length (urgent_buffer s) \<and>
    messages (urgent_buffer s') = messages (urgent_buffer s) \<and>
    closed (urgent_buffer s') = closed (urgent_buffer s) \<and> Size (urgent_buffer s') = Size (urgent_buffer s)"
proof -
  have "waiting s' = waiting s" and "urgent_buffer s' = (if paused then urgent_buffer s
      else snd (LeaseAndCompress (Mem_Ring.Lease flt) Mem_Ring.Reset compression m (urgent_buffer s)))"
    using assms(2) by (auto simp: PumpRingBufferToSendMessage_def Let_def split: prod.splits if_splits)
  then show ?thesis
    using lac_loop_Mem_total [OF assms(1)] by (simp add: LeaseAndCompress_def)
qed

definition urgents :: "(bool \<times> bytes) list \<Rightarrow> bytes list" where
  "urgents tr = map snd (filter fst tr)"

lemma sender_run_urgent:
  assumes "sender_run compression m s tr s'" and "codec compression unc" and "\<not> closed (urgent_buffer s)"
  shows "messages (urgent_buffer s') = messages (urgent_buffer s) @ urgents tr \<and>
    total_length (urgent_buffer s') = total_length (urgent_buffer s) + of_nat (nbytes (urgents tr)) \<and>
    \<not> closed (urgent_buffer s') \<and> Size (urgent_buffer s') = Size (urgent_buffer s)"
  using assms
proof (induction rule: sender_run.induct)
  case (init s)
  then show ?case by (simp add: urgents_def)
next
  case (accept s tr s1 urgent msg s2 rel)
  then show ?case
    by (auto simp: PumpExecutorToRingBuffer_def Mem_Ring.Enqueue_def urgents_def Let_def)
next
  case (send s tr s1 flt paused done1 done2 s2 out)
  then show ?case
    using pump_urgent [OF send.prems(1) send.hyps(2)] by simp
qed

lemma sender_run_stuck:
  assumes "sender_run compression m s tr s'" and "codec compression unc"
    and "waiting s = Some True" and "Mem_Ring.Blocked (urgent_buffer s)"
  shows "tr = [] \<and> waiting s' = Some True \<and> Mem_Ring.Blocked (urgent_buffer s')"
  using assms
proof (induction rule: sender_run.induct)
  case (accept s tr s1 urgent msg s2 rel)
  then show ?case by (simp add: pump_ready_def)
next
  case (send s tr s1 flt paused done1 done2 s2 out)
  then show ?case
    using pump_urgent [OF send.prems(1) send.hyps(2)] by (simp add: Mem_Ring.Blocked_def)
qed simp

section \<open>A turn of the sending loop\<close>

definition normal :: "(bool \<times> bytes list) list \<Rightarrow> bytes list" where
  "normal out = concat (map snd (filter (\<lambda>x. \<not> fst x) out))"

lemma finish_turn:
  assumes "ring_rel r (c, l @ take k p, drop k p)" and "take k p \<noteq> []"
  shows "ring_rel ((if cancelled then IRollback else ICommit) r)
    (if cancelled then (c, [], l @ p) else (c @ l @ take k p, [], drop k p))"
  using iring.rel_rollback [OF assms(1)] iring.rel_commit [OF assms(1)] assms(2) by simp

lemma ring_turn:
  assumes "codec compression unc" and "ring_rel r (c, l, p)"
    and "LeaseAndCompress (ILease flt) IReset compression m r = (out, r1)"
    and "r2 = (if length out > 0 then (if cancelled then IRollback else ICommit) r1 else r1)"
  shows "\<exists>k c' l' p'. concat (map unc out) = concat (map flt (take k p)) \<and>
    ring_rel r2 (c', l', p') \<and> c' @ l' @ p' = c @ l @ p \<and>
    (if cancelled \<and> out \<noteq> [] then c' = c \<and> l' = [] else p' = drop k p \<and> (out = [] \<or> l' = []))"
proof -
  obtain k where k: "ring_rel r1 (c, l @ take k p, drop k p)"
    "concat (map unc out) = concat (map flt (take k p))" "out = [] \<or> take k p \<noteq> []"
    using iring.lac_loop_rel [OF assms(1,2), of flt IReset m 0 "[]"] assms(3)
    by (auto simp: LeaseAndCompress_def)
  show ?thesis
  proof (cases "out = []")
    case True
    then show ?thesis
      using k assms(4) by (intro exI [of _ k] exI [of _ c] exI [of _ "l @ take k p"] exI [of _ "drop k p"]) simp
  next
    case False
    with k(3) finish_turn [OF k(1), of cancelled] assms(4)
    have "ring_rel r2 (if cancelled then (c, [], l @ p) else (c @ l @ take k p, [], drop k p))"
      by simp
    then show ?thesis
      using False k(2) by (cases cancelled) (fastforce intro!: exI [of _ k])+
  qed
qed



text \<open>Urgent messages are never committed: the sending loop commits the other ring
  buffer instead. Once urgent messages of more than twice the maximal upload size have been
  accepted, the last one accepted being urgent, the executor pump waits for ever: no further
  message is accepted, whatever the server acknowledges, and all urgent messages are still
  in memory.\<close>

theorem urgent_buffer_fills:
  assumes "codec compression unc" and "sender_run compression m (NewSender ring m) tr s"
    and "2 * m < nbytes (urgents tr)" and "nbytes (urgents tr) < 2 ^ 64" and "waiting s = Some True"
    and "sender_run compression m s tr' s'"
  shows "tr' = [] \<and> messages (urgent_buffer s') = urgents tr"
proof -
  have "messages (urgent_buffer s) = urgents tr" "\<not> closed (urgent_buffer s)"
    "total_length (urgent_buffer s) = of_nat (nbytes (urgents tr))" "Size (urgent_buffer s) = of_nat (2 * m)"
    using sender_run_urgent [OF assms(2,1)] by (auto simp: NewSender_def NewRingBuffer_def)
  moreover from this have "Mem_Ring.Blocked (urgent_buffer s)"
    using assms(3,4) unat_of_nat_u64 [of "2 * m"] unat_of_nat_u64 [of "nbytes (urgents tr)"]
    by (simp add: Mem_Ring.Blocked_def word_less_nat_alt)
  then have "tr' = []"
    using sender_run_stuck [OF assms(6,1,5)] by simp
  ultimately show ?thesis
    using sender_run_urgent [OF assms(6,1)] by (simp add: urgents_def)
qed

text \<open>When the client cancels while an urgent list is being sent, the sending loop rolls
  back the other ring buffer although nothing of it is leased. With the file based ring the
  lease that follows in the same turn then finds the header where an item should be: nothing
  is sent and every message waiting in the file is dropped.\<close>

theorem urgent_cancel_drops:
  assumes "ring_buffer s = FileRB f" and "file_rel f (c, [], p)" and "current_transaction f = empty_tx"
    and "p \<noteq> []" and "0 < m"
    and "fst (LeaseAndCompress (Mem_Ring.Lease flt) Mem_Ring.Reset compression m (urgent_buffer s)) \<noteq> []"
    and "PumpRingBufferToSendMessage compression m flt False True cancelled s = (s', out)"
  shows "normal out = [] \<and> (\<exists>f'. ring_buffer s' = FileRB f' \<and> WritePointer (header f') = 50 \<and>
    File_Ring.AvailableBytes (header f') = 0)"
proof -
  obtain m1 u where lu: "LeaseAndCompress (Mem_Ring.Lease flt) Mem_Ring.Reset compression m (urgent_buffer s) = (m1, u)"
    by fastforce
  obtain f' where f': "File_Ring.Lease flt (m div 4) (File_Ring.Rollback f) = Some ([], f')"
    "WritePointer (header f') = 50" "File_Ring.AvailableBytes (header f') = 0"
    using Rollback_resets [OF assms(2-4)] by auto
  have "LeaseAndCompress (ILease flt) IReset compression m (FileRB (File_Ring.Rollback f)) = ([], FileRB f')"
    using f'(1) assms(5) by (simp add: LeaseAndCompress_def lac_loop.simps)
  then show ?thesis
    using assms(1,6,7) lu f'(2,3)
    by (auto simp: PumpRingBufferToSendMessage_def Let_def normal_def)
qed

end
