(* ===== verification/Journal_Buffer.thy ===== *)
theory Journal_Buffer
  imports Byte_File
begin

text \<open>
  The queue of a journal listener on disk, \<^verbatim>\<open>file_store/directory/buffer.go\<close>. It has no limit
  that blocks writers: a file that has grown too large is dropped. The file is a temporary one,
  created when the first message arrives and removed once the last one was read. \<open>marshal\<close> and
  \<open>unmarshal\<close> are the JSON encoding of a message and its decoding, \<open>tempfile\<close> the outcome of
  creating a temporary file. A nil dereference is the error \<open>Panic\<close>.
\<close>

section \<open>Definitions\<close>

record Header =
  ReadPointer :: int
  WritePointer :: int

definition FileMagic :: bytes where
  "FileMagic = [0x56, 0x52, 0x42, 0x5e]"

definition FirstRecordOffset :: nat where
  "FirstRecordOffset = 50"

definition MarshalBinary :: "Header \<Rightarrow> bytes" where
  "MarshalBinary self =
     FileMagic @
     PutUint64 (u64_of_i64 (ReadPointer self)) @
     PutUint64 (u64_of_i64 (WritePointer self)) @
     replicate 30 0"

definition UnmarshalBinary :: "Header \<Rightarrow> bytes \<Rightarrow> Header \<times> go_error option" where
  "UnmarshalBinary self data =
     (if length data < FirstRecordOffset then (self, Some (Errorf ''Invalid header length''))
      else if take 4 data \<noteq> FileMagic then (self, Some (Errorf ''Invalid Magic''))
      else (self\<lparr>ReadPointer := i64_of_u64 (Uint64 (drop 4 data)),
                 WritePointer := i64_of_u64 (Uint64 (drop 12 data))\<rparr>, None))"

record JournalBuffer =
  fd :: "File option"
  header :: "Header option"
  Wg :: nat
  max_size :: int

definition fresh_header :: Header where
  "fresh_header = \<lparr>ReadPointer = int FirstRecordOffset, WritePointer = int FirstRecordOffset\<rparr>"

definition NewFileBasedRingBuffer :: "int option \<Rightarrow> JournalBuffer" where
  "NewFileBasedRingBuffer MaxJournalBufferSize =
     \<lparr>fd = None, header = Some fresh_header, Wg = 0,
      max_size = (case MaxJournalBufferSize of
          Some n \<Rightarrow> if n > 0 then n else 1024 * 1024 * 1024
        | None \<Rightarrow> 1024 * 1024 * 1024)\<rparr>"

text \<open>\<^verbatim>\<open>_Truncate\<close> closes and removes the file.\<close>

definition Truncate :: "JournalBuffer \<Rightarrow> JournalBuffer" where
  "Truncate self = (if fd self \<noteq> None then self\<lparr>header := None, fd := None\<rparr> else self)"

definition getFd :: "File result \<Rightarrow> JournalBuffer \<Rightarrow> JournalBuffer \<times> File result" where
  "getFd tempfile self =
     (case fd self of
        Some f \<Rightarrow> (self, Ok f)
      | None \<Rightarrow>
          (let self = self\<lparr>header := Some fresh_header\<rparr>
           in case tempfile of
                Err e \<Rightarrow> (self, Err e)
              | Ok f \<Rightarrow> (self\<lparr>fd := Some f\<rparr>, Ok f)))"

text \<open>The writes of an item at the write pointer: its length, its bytes and the header.\<close>

definition write_item :: "JournalBuffer \<Rightarrow> File \<Rightarrow> Header \<Rightarrow> bytes \<Rightarrow> JournalBuffer \<times> go_error option" where
  "write_item self f h serialized =
     (case WriteAt f (PutUint64 (length serialized)) (WritePointer h) of
        (f, _, Some e) \<Rightarrow> (Truncate (self\<lparr>fd := Some f\<rparr>), Some e)
      | (f, _, None) \<Rightarrow>
          (case WriteAt f serialized (i64 (WritePointer h + 8)) of
             (f, n, Some e) \<Rightarrow> (Truncate (self\<lparr>fd := Some f\<rparr>), Some e)
           | (f, n, None) \<Rightarrow>
               (let h = h\<lparr>WritePointer := i64 (WritePointer h + (8 + int n))\<rparr>
                in case WriteAt f (MarshalBinary h) 0 of
                     (f, _, Some e) \<Rightarrow> (Truncate (self\<lparr>fd := Some f, header := Some h\<rparr>), Some e)
                   | (f, _, None) \<Rightarrow> (self\<lparr>fd := Some f, header := Some h\<rparr>, None))))"

definition Enqueue ::
  "('a \<Rightarrow> bytes result) \<Rightarrow> File result \<Rightarrow> JournalBuffer \<Rightarrow> 'a \<Rightarrow> JournalBuffer \<times> go_error option" where
  "Enqueue marshal tempfile self item =
     (case marshal item of
        Err e \<Rightarrow> (self, Some e)
      | Ok serialized \<Rightarrow>
          (case getFd tempfile self of
             (self, Err e) \<Rightarrow> (self, Some e)
           | (self, Ok f) \<Rightarrow>
               (case header self of
                  None \<Rightarrow> (self, Some (Panic ''nil header''))
                | Some h \<Rightarrow>
                    (let self = (if max_size self > 0 \<and> WritePointer h > max_size self
                                 then Truncate self else self)
                     in case header self of
                          None \<Rightarrow> (self, Some (Panic ''nil header''))
                        | Some h \<Rightarrow> write_item self f h serialized))))"

text \<open>The loop of \<^verbatim>\<open>Lease\<close>, with fuel: the read pointer moves forward by at least nine bytes
  a turn, so its distance to the write pointer is enough (\<open>jlease_loop_total\<close>). The second
  result is the header, \<open>None\<close> when the file was removed.\<close>

fun lease_loop ::
  "nat \<Rightarrow> (bytes \<Rightarrow> 'a option) \<Rightarrow> nat \<Rightarrow> File \<Rightarrow> 'a list \<Rightarrow> Header \<Rightarrow> ('a list \<times> Header option) option" where
  "lease_loop 0 unmarshal count f result h =
     (if WritePointer h > ReadPointer h then None else Some (result, Some h))"
| "lease_loop (Suc fuel) unmarshal count f result h =
     (if \<not> WritePointer h > ReadPointer h then Some (result, Some h)
      else (case ReadAt f 8 (ReadPointer h) of
        (_, Some err) \<Rightarrow> Some ([], None)
      | (read_buf, None) \<Rightarrow>
          (let len = i64_of_u64 (Uint64 read_buf)
           in if len > MAX_MEMORY * 2 \<or> len \<le> 0 then Some ([], None)
              else (let serialized = fst (ReadAt f (nat len) (i64 (ReadPointer h + 8)))
                    in if int (length serialized) \<noteq> len then Some ([], None)
                       else (let result = (case unmarshal serialized of
                                             Some item \<Rightarrow> result @ [item] | None \<Rightarrow> result);
                                 h = h\<lparr>ReadPointer := i64 (ReadPointer h + (8 + len))\<rparr>
                             in if ReadPointer h = WritePointer h then Some (result, None)
                                else if length result \<ge> count then Some (result, Some h)
                                else lease_loop fuel unmarshal count f result h)))))"

definition Lease :: "(bytes \<Rightarrow> 'a option) \<Rightarrow> nat \<Rightarrow> JournalBuffer \<Rightarrow> 'a list \<times> JournalBuffer" where
  "Lease unmarshal count self =
     (case (fd self, header self) of
        (Some f, Some h) \<Rightarrow>
          (case lease_loop (Suc (nat (WritePointer h - ReadPointer h))) unmarshal count f [] h of
             Some (result, Some h) \<Rightarrow> (result, self\<lparr>header := Some h, Wg := Wg self + length result\<rparr>)
           | Some (result, None) \<Rightarrow> (result, (Truncate self)\<lparr>Wg := Wg self + length result\<rparr>)
           | None \<Rightarrow> ([], self))
      | _ \<Rightarrow> ([], self))"

definition PendingSize :: "JournalBuffer \<Rightarrow> int" where
  "PendingSize self =
     (case header self of None \<Rightarrow> 0 | Some h \<Rightarrow> i64 (WritePointer h - ReadPointer h))"

definition Reset :: "JournalBuffer \<Rightarrow> JournalBuffer" where
  "Reset self = Truncate self"

text \<open>\<^verbatim>\<open>Close\<close> leaves the file on disk.\<close>

definition Close :: "JournalBuffer \<Rightarrow> JournalBuffer" where
  "Close self = (if fd self \<noteq> None then self\<lparr>fd := None, header := None\<rparr> else self)"

section \<open>Reading always ends\<close>

lemma jlease_loop_total:
  assumes "nat (WritePointer h - ReadPointer h) < fuel" and "in_i64 (ReadPointer h)"
  shows "lease_loop fuel unmarshal count f result h \<noteq> None"
  using assms
proof (induction fuel arbitrary: result h)
  case (Suc fuel)
  define rp where "rp = ReadPointer h"
  show ?case
  proof (cases "ReadAt f 8 rp")
    case (Pair b e)
    define len where "len = i64_of_u64 (Uint64 b)"
    define h' where "h' = h\<lparr>ReadPointer := i64 (rp + (8 + len))\<rparr>"
    have step: "lease_loop fuel unmarshal count f r h' \<noteq> None"
      if "WritePointer h > rp" "0 < len" "len \<le> MAX_MEMORY * 2" for r
    proof (cases "rp + (8 + len) < 2 ^ 63")
      case True
      then have "i64 (rp + (8 + len)) = rp + (8 + len)"
        using Suc.prems(2) that(2) by (simp add: in_i64_def rp_def)
      then show ?thesis
        using that Suc.prems True by (intro Suc.IH) (auto simp: h'_def rp_def in_i64_def)
    next
      case False
      have "rp + (8 + len) < 2 ^ 64"
        using that(3) Suc.prems(2) by (simp add: rp_def MAX_MEMORY_def in_i64_def)
      then have "i64 (rp + (8 + len)) < 0"
        using False i64_high [of "rp + (8 + len)"] by simp
      then show ?thesis
        using Suc.prems(1) that(1) by (cases fuel) (simp_all add: h'_def ReadAt_def rp_def)
    qed
    show ?thesis
      using Pair step by (auto simp: Let_def len_def h'_def rp_def split: option.splits)
  qed
qed simp

section \<open>The buffer as a queue of records\<close>

text \<open>The records \<open>xs\<close> are waiting: without a file there are none.\<close>

definition jrel :: "JournalBuffer \<Rightarrow> bytes list \<Rightarrow> bool" where
  "jrel self xs \<longleftrightarrow>
     (case fd self of
        None \<Rightarrow> xs = []
      | Some f \<Rightarrow>
          \<not> fd_closed f \<and> list_all ok_item xs \<and>
          (\<exists>h. header self = Some h \<and> 50 \<le> ReadPointer h \<and>
             WritePointer h = ReadPointer h + int (length (enc_records xs)) \<and> WritePointer h < 2 ^ 63 \<and>
             int (length (content f)) = WritePointer h \<and>
             drop (nat (ReadPointer h)) (content f) = enc_records xs))"

lemma jrel_New: "jrel (NewFileBasedRingBuffer sz) []"
  by (simp add: jrel_def NewFileBasedRingBuffer_def)

lemma fd_Truncate [simp]: "fd (Truncate s) = None"
  by (simp add: Truncate_def)

lemma header_Truncate [simp]: "fd s \<noteq> None \<Longrightarrow> header (Truncate s) = None"
  by (simp add: Truncate_def)

lemma Wg_Truncate [simp]: "Wg (Truncate s) = Wg s" "max_size (Truncate s) = max_size s"
  by (simp_all add: Truncate_def)

lemma jrel_Truncate: "jrel (Truncate s) []"
  by (simp add: jrel_def)

text \<open>The three writes of an item.\<close>

lemma write_record:
  assumes "WriteAt f (PutUint64 (length x)) wp = (f1, n1, None)" "WriteAt f1 x (i64 (wp + 8)) = (f2, n2, None)"
    and "WriteAt f2 m 0 = (f3, n3, None)"
    and "length m = 50" and "50 \<le> wp" and "length (content f) = nat wp \<or> content f = [] \<and> wp = 50"
  shows "n2 = length x" "\<not> fd_closed f3" "wp + (8 + int (length x)) < 2 ^ 63"
    "content f3 = m @ drop 50 (content f) @ enc_record x"
proof -
  note w1 = WriteAt_success [OF assms(1)] and w2 = WriteAt_success [OF assms(2)]
    and w3 = WriteAt_success [OF assms(3)]
  have i: "i64 (wp + 8) = wp + 8 \<or> i64 (wp + 8) < 0"
    using w1(5,6) i64_high [of "wp + 8"] by (cases "wp + 8 < 2 ^ 63") (auto simp: in_i64_def)
  with w2(5) have i8: "i64 (wp + 8) = wp + 8"
    by simp
  define pad where "pad = (if content f = [] then replicate 50 0 else content f)"
  have pad: "length pad = nat wp"
    using assms(5,6) by (auto simp: pad_def)
  have "content f1 = pad @ PutUint64 (length x)"
    using w1(2) assms(5,6) by (auto simp: pad_def write_bytes_def)
  moreover have "nat (wp + 8) = length (pad @ PutUint64 (length x))"
    using pad assms(5) by simp
  ultimately have c2: "content f2 = pad @ enc_record x"
    using w2(2) i8 by (simp add: write_bytes_append enc_record_def)
  have "drop 50 pad = drop 50 (content f)"
    by (simp add: pad_def)
  then show "content f3 = m @ drop 50 (content f) @ enc_record x"
    using w3(2) c2 assms(4,5) pad by (simp add: write_bytes_0)
  show "n2 = length x" "\<not> fd_closed f3" "wp + (8 + int (length x)) < 2 ^ 63"
    using w2(1,6) w3(4) i8 by simp_all
qed

lemma jlength_MarshalBinary [simp]: "length (MarshalBinary h) = 50"
  by (simp add: MarshalBinary_def FileMagic_def)

lemma jrel_write:
  assumes "WriteAt f (PutUint64 (length x)) (WritePointer h) = (f1, n1, None)"
    and "WriteAt f1 x (i64 (WritePointer h + 8)) = (f2, n2, None)"
    and "h' = h\<lparr>WritePointer := i64 (WritePointer h + (8 + int n2))\<rparr>"
    and "WriteAt f2 (MarshalBinary h') 0 = (f3, n3, None)"
    and "50 \<le> ReadPointer h" "WritePointer h = ReadPointer h + int (length (enc_records xs))"
    and "length (content f) = nat (WritePointer h) \<and> drop (nat (ReadPointer h)) (content f) = enc_records xs \<or>
      content f = [] \<and> WritePointer h = 50 \<and> xs = []"
    and "list_all ok_item xs" "ok_item x"
  shows "jrel (s\<lparr>fd := Some f3, header := Some h'\<rparr>) (xs @ [x])"
proof -
  have wp: "50 \<le> WritePointer h"
    using assms(5,6) by simp
  have c: "length (content f) = nat (WritePointer h) \<or> content f = [] \<and> WritePointer h = 50"
    using assms(7) by auto
  note w = write_record [OF assms(1,2,4) jlength_MarshalBinary wp c]
  have i: "WritePointer h' = WritePointer h + (8 + int (length x))"
    using w(1,3) wp assms(3) by (simp add: in_i64_def)
  have "drop (nat (ReadPointer h) - 50) (drop 50 (content f) @ enc_record x) = enc_records (xs @ [x])"
    using assms(5,6,7) by auto
  moreover have "int (length (content f3)) = WritePointer h'"
    using w(4) i c wp by auto
  ultimately show ?thesis
    using w i assms(3,5,6,8,9) by (auto simp: jrel_def)
qed

lemma write_item_rel:
  assumes "50 \<le> ReadPointer h" "WritePointer h = ReadPointer h + int (length (enc_records xs))"
    and "length (content f) = nat (WritePointer h) \<and> drop (nat (ReadPointer h)) (content f) = enc_records xs \<or>
      content f = [] \<and> WritePointer h = 50 \<and> xs = []"
    and "list_all ok_item xs" "ok_item x" and "write_item s f h x = (s', e)"
  shows "if e = None then jrel s' (xs @ [x]) else jrel s' []"
proof (cases e)
  case None
  then obtain f1 n1 f2 n2 f3 n3 where
    "WriteAt f (PutUint64 (length x)) (WritePointer h) = (f1, n1, None)"
    "WriteAt f1 x (i64 (WritePointer h + 8)) = (f2, n2, None)"
    "WriteAt f2 (MarshalBinary (h\<lparr>WritePointer := i64 (WritePointer h + (8 + int n2))\<rparr>)) 0 = (f3, n3, None)"
    "s' = s\<lparr>fd := Some f3, header := Some (h\<lparr>WritePointer := i64 (WritePointer h + (8 + int n2))\<rparr>)\<rparr>"
    using assms(6) by (auto simp: write_item_def Let_def split: prod.splits option.splits)
  then show ?thesis
    using jrel_write [OF _ _ refl _ assms(1-5), of f1 n1 f2 n2 f3 n3 s] None by simp
next
  case (Some e)
  then have "fd s' = None"
    using assms(6) by (auto simp: write_item_def Let_def split: prod.splits option.splits)
  then show ?thesis
    using Some by (simp add: jrel_def)
qed

text \<open>The outcome of \<^verbatim>\<open>Enqueue\<close> on every branch; \<open>too_large\<close> is the overflow of the file.\<close>

definition too_large :: "JournalBuffer \<Rightarrow> bool" where
  "too_large self \<longleftrightarrow> max_size self > 0 \<and> fd self \<noteq> None \<and>
     (case header self of None \<Rightarrow> False | Some h \<Rightarrow> WritePointer h > max_size self)"

definition fresh_file :: "File result \<Rightarrow> bool" where
  "fresh_file tempfile \<longleftrightarrow> (case tempfile of Err _ \<Rightarrow> True | Ok f \<Rightarrow> content f = [] \<and> \<not> fd_closed f)"

lemma jEnqueue_rel:
  assumes rel: "jrel s xs" and ser: "marshal item = Ok x" and x: "ok_item x"
    and tmp: "fresh_file tempfile"
    and enq: "Enqueue marshal tempfile s item = (s', e)"
  shows "if e = None then jrel s' (xs @ [x]) else jrel s' []"
    and "too_large s \<Longrightarrow> e = Some (Panic ''nil header'')"
proof (atomize (full), cases "fd s")
  case None
  then have xs: "xs = []" and nl: "\<not> too_large s"
    using rel by (simp_all add: jrel_def too_large_def)
  show "(if e = None then jrel s' (xs @ [x]) else jrel s' []) \<and> (too_large s \<longrightarrow> e = Some (Panic ''nil header''))"
  proof (cases tempfile)
    case (Inl e)
    then show ?thesis
      using None ser enq nl by (auto simp: Enqueue_def getFd_def jrel_def Let_def)
  next
    case (Inr f)
    define s1 where "s1 = s\<lparr>header := Some fresh_header, fd := Some f\<rparr>"
    have "write_item s1 f fresh_header x = (s', e) \<or> s' = Truncate s1 \<and> e = Some (Panic ''nil header'')"
      using None ser enq Inr by (auto simp: Enqueue_def getFd_def Let_def s1_def split: if_splits)
    then show ?thesis
      using write_item_rel [of fresh_header xs f x s1 s' e] xs nl x tmp Inr jrel_Truncate
      by (auto simp: fresh_header_def FirstRecordOffset_def fresh_file_def)
  qed
next
  case (Some f)
  then obtain h where h: "header s = Some h" "50 \<le> ReadPointer h"
      "WritePointer h = ReadPointer h + int (length (enc_records xs))"
      "int (length (content f)) = WritePointer h" "drop (nat (ReadPointer h)) (content f) = enc_records xs"
      "list_all ok_item xs"
    using rel by (auto simp: jrel_def)
  show "(if e = None then jrel s' (xs @ [x]) else jrel s' []) \<and> (too_large s \<longrightarrow> e = Some (Panic ''nil header''))"
  proof (cases "too_large s")
    case True
    then have "s' = Truncate s \<and> e = Some (Panic ''nil header'')"
      using enq ser Some h(1) by (auto simp: Enqueue_def getFd_def too_large_def)
    then show ?thesis
      using jrel_Truncate by simp
  next
    case False
    then have "write_item s f h x = (s', e)"
      using enq ser Some h(1) by (auto simp: Enqueue_def getFd_def too_large_def Let_def split: if_splits)
    moreover have "length (content f) = nat (WritePointer h)"
      using h(4) by simp
    ultimately show ?thesis
      using write_item_rel [OF h(2,3) _ h(6) x, of f s s' e] False h(5) by simp
  qed
qed

lemma Enqueue_keeps:
  "Enqueue marshal tempfile s item = (s', e) \<Longrightarrow> Wg s' = Wg s \<and> max_size s' = max_size s"
  by (auto simp: Enqueue_def getFd_def write_item_def Let_def split: sum.splits option.splits prod.splits if_splits)

text \<open>Leasing takes the records from the front, at least one, and decodes them.\<close>

lemma lease_record:
  assumes "\<not> fd_closed f" and "0 \<le> rp" and "rp + int (length (enc_records (x # xs))) < 2 ^ 63" and "ok_item x"
    and "drop (nat rp) (content f) = enc_records (x # xs)"
  shows "ReadAt f 8 rp = (PutUint64 (length x), None)" "fst (ReadAt f (length x) (i64 (rp + 8))) = x"
    "i64 (rp + (8 + int (length x))) = rp + (8 + int (length x))"
    "drop (nat (rp + (8 + int (length x)))) (content f) = enc_records xs"
proof -
  have n: "nat (rp + 8) = 8 + nat rp" "nat (rp + (8 + int (length x))) = (8 + length x) + nat rp"
    using assms(2) by simp_all
  have d8: "drop (nat (rp + 8)) (content f) = x @ enc_records xs"
    and dx: "drop (nat (rp + (8 + int (length x)))) (content f) = enc_records xs"
    unfolding n using assms(5) by (simp_all flip: drop_drop add: enc_record_def)
  have i: "i64 (rp + 8) = rp + 8"
    using assms(2,3) by (simp add: in_i64_def)
  show "ReadAt f 8 rp = (PutUint64 (length x), None)"
    using assms by (simp add: ReadAt_def enc_record_def)
  show "fst (ReadAt f (length x) (i64 (rp + 8))) = x"
    using assms(1,2) d8 i by (simp add: ReadAt_def)
  show "i64 (rp + (8 + int (length x))) = rp + (8 + int (length x))"
    using assms(2,3) by (simp add: in_i64_def)
  show "drop (nat (rp + (8 + int (length x)))) (content f) = enc_records xs"
    by (rule dx)
qed

lemma jlease_loop_rel:
  assumes "\<not> fd_closed f" and "0 \<le> ReadPointer h" and "WritePointer h = ReadPointer h + int (length (enc_records xs))"
    and "WritePointer h < 2 ^ 63" and "list_all ok_item xs"
    and "drop (nat (ReadPointer h)) (content f) = enc_records xs" and "xs \<noteq> []" and "length xs \<le> fuel"
    and "\<forall>x \<in> set xs. unmarshal x = Some (dec x)" and "k = max 1 (count - length acc)"
  shows "lease_loop fuel unmarshal count f acc h = Some (acc @ map dec (take k xs),
    if length xs \<le> k then None
    else Some (h\<lparr>ReadPointer := ReadPointer h + int (length (enc_records (take k xs)))\<rparr>))"
  using assms(2-)
proof (induction xs arbitrary: acc h fuel k)
  case (Cons x xs)
  obtain n where n: "fuel = Suc n"
    using Cons.prems(7) by (cases fuel) auto
  have x: "ok_item x" and dx: "unmarshal x = Some (dec x)"
    using Cons.prems(4,8) by simp_all
  have "ReadPointer h + int (length (enc_records (x # xs))) < 2 ^ 63"
    using Cons.prems(2,3) by simp
  note r = lease_record [OF assms(1) Cons.prems(1) this x Cons.prems(5)]
  define h' where "h' = h\<lparr>ReadPointer := ReadPointer h + (8 + int (length x))\<rparr>"
  have len: "0 < length x" "int (length x) \<le> MAX_MEMORY * 2"
    using x by (simp_all add: ok_item_def)
  have wp: "WritePointer h > ReadPointer h"
    using Cons.prems(2) by simp
  have step: "lease_loop fuel unmarshal count f acc h =
      (if ReadPointer h' = WritePointer h' then Some (acc @ [dec x], None)
       else if length (acc @ [dec x]) \<ge> count then Some (acc @ [dec x], Some h')
       else lease_loop n unmarshal count f (acc @ [dec x]) h')"
    unfolding n using wp r(1-3) len dx item_length [OF x] by (simp add: h'_def Let_def)
  have end_iff: "ReadPointer h' = WritePointer h' \<longleftrightarrow> xs = []"
    using Cons.prems(2) length_le_enc [of xs] by (auto simp: h'_def)
  consider "xs = []" | "xs \<noteq> []" "length (acc @ [dec x]) \<ge> count" | "xs \<noteq> []" "length (acc @ [dec x]) < count"
    by linarith
  then show ?case
  proof cases
    case 1
    then show ?thesis
      using step end_iff Cons.prems(9) by (cases k) auto
  next
    case 2
    then have "k = 1"
      using Cons.prems(9) by simp
    with 2 show ?thesis
      using step end_iff by (cases xs) (simp_all add: h'_def)
  next
    case 3
    define m where "m = k - 1"
    have k: "k = Suc m" and m: "m = max 1 (count - length (acc @ [dec x]))"
      using 3(2) Cons.prems(9) by (auto simp: m_def)
    have "lease_loop n unmarshal count f (acc @ [dec x]) h' = Some ((acc @ [dec x]) @ map dec (take m xs),
        if length xs \<le> m then None
        else Some (h'\<lparr>ReadPointer := ReadPointer h' + int (length (enc_records (take m xs)))\<rparr>))"
      using Cons.prems r(4) n 3(1) by (intro Cons.IH m) (auto simp: h'_def)
    then show ?thesis
      using step end_iff 3 k by (auto simp: h'_def)
  qed
qed simp

lemma jLease_rel:
  assumes rel: "jrel s xs" and dec: "\<forall>x \<in> set xs. unmarshal x = Some (dec x)" and k: "k = max 1 count"
    and lease: "Lease unmarshal count s = (items, s')"
  shows "items = map dec (take k xs)" "jrel s' (drop k xs)" "Wg s' = Wg s + length items" "max_size s' = max_size s"
proof -
  have "items = map dec (take k xs) \<and> jrel s' (drop k xs) \<and> Wg s' = Wg s + length items \<and> max_size s' = max_size s"
  proof (cases "fd s")
    case None
    then show ?thesis
      using rel lease by (auto simp: jrel_def Lease_def)
  next
    case (Some f)
    then obtain h where h: "header s = Some h" "50 \<le> ReadPointer h"
        "WritePointer h = ReadPointer h + int (length (enc_records xs))" "WritePointer h < 2 ^ 63"
        "int (length (content f)) = WritePointer h" "drop (nat (ReadPointer h)) (content f) = enc_records xs"
        "list_all ok_item xs" "\<not> fd_closed f"
      using rel by (auto simp: jrel_def)
    show ?thesis
    proof (cases "xs = []")
      case True
      then show ?thesis
        using lease Some h rel by (auto simp: Lease_def jrel_def)
    next
      case False
      define h' where "h' = h\<lparr>ReadPointer := ReadPointer h + int (length (enc_records (take k xs)))\<rparr>"
      have fuel: "length xs \<le> Suc (nat (WritePointer h - ReadPointer h))"
        using h(3) length_le_enc [of xs] by simp
      have "lease_loop (Suc (nat (WritePointer h - ReadPointer h))) unmarshal count f [] h =
          Some (map dec (take k xs), if length xs \<le> k then None else Some h')"
        using jlease_loop_rel [OF h(8) _ h(3,4,7,6) False fuel dec, of k count "[]"] h(2) k by (simp add: h'_def)
      then have eq: "items = map dec (take k xs) \<and> s' = (if length xs \<le> k then (Truncate s)\<lparr>Wg := Wg s + length items\<rparr>
          else s\<lparr>header := Some h', Wg := Wg s + length items\<rparr>)"
        using lease Some h(1) by (auto simp: Lease_def simp del: lease_loop.simps)
      have split: "enc_records xs = enc_records (take k xs) @ enc_records (drop k xs)"
        by (metis append_take_drop_id concat_append map_append)
      have "nat (ReadPointer h') = length (enc_records (take k xs)) + nat (ReadPointer h)"
        using h(2) by (simp add: h'_def)
      then have "drop (nat (ReadPointer h')) (content f) = enc_records (drop k xs)"
        using h(6) split by (simp flip: drop_drop)
      moreover have "list_all ok_item (drop k xs)"
        using h(7) by (metis append_take_drop_id list_all_append)
      moreover have "WritePointer h' = ReadPointer h' + int (length (enc_records (drop k xs)))"
        using h(3) split by (simp add: h'_def)
      ultimately have "jrel s' (drop k xs)"
        using eq Some h by (auto simp: jrel_def h'_def)
      then show ?thesis
        using eq by auto
    qed
  qed
  then show "items = map dec (take k xs)" "jrel s' (drop k xs)" "Wg s' = Wg s + length items" "max_size s' = max_size s"
    by simp_all
qed

text \<open>C37: \<^verbatim>\<open>Enqueue\<close> appends exactly the item when it reports success; on any error, of encoding
  aside, every message waiting in the buffer is dropped. A file grown beyond its limit is
  meant to be truncated before the item is written, but the header is nil after that: the call
  panics and the item is lost as well.\<close>

theorem Enqueue_outcome:
  assumes "jrel s xs" and "marshal item = Ok x" and "ok_item x" and "fresh_file tempfile"
  shows "case Enqueue marshal tempfile s item of (s', e) \<Rightarrow>
    (if e = None then jrel s' (xs @ [x]) else jrel s' []) \<and>
    (too_large s \<longrightarrow> e = Some (Panic ''nil header''))"
  using jEnqueue_rel [of s xs marshal item x tempfile] assms
  by (cases "Enqueue marshal tempfile s item") simp

theorem Enqueue_outcome_witness:
  "let tmp = Ok \<lparr>content = [], faults = [], fd_closed = False\<rparr>;
       s = fst (Enqueue Inr tmp (NewFileBasedRingBuffer (Some 55)) [1])
   in too_large s \<and> snd (Enqueue Inr tmp s [2]) = Some (Panic ''nil header'')"
proof -
  let ?tmp = "Ok \<lparr>content = [], faults = [], fd_closed = False\<rparr>"
  define s where "s = fst (Enqueue Inr ?tmp (NewFileBasedRingBuffer (Some 55)) [1])"
  have ok: "ok_item [b]" for b
    by (simp add: ok_item_def MAX_MEMORY_def)
  have tmp: "fresh_file ?tmp"
    by (simp add: fresh_file_def)
  have "snd (Enqueue Inr ?tmp (NewFileBasedRingBuffer (Some 55)) [1]) = None" and large: "too_large s"
    by (simp_all add: s_def Enqueue_def getFd_def NewFileBasedRingBuffer_def write_item_def fresh_header_def
        FirstRecordOffset_def WriteAt_def in_i64_def Let_def too_large_def)
  then have "jrel s ([] @ [[1]])"
    using Enqueue_outcome [OF jrel_New, of Inr "[1]" "[1]" ?tmp "Some 55"] ok tmp
    by (simp add: s_def split: prod.splits)
  then have "snd (Enqueue Inr ?tmp s [2]) = Some (Panic ''nil header'')"
    using Enqueue_outcome [of s "[[1]]" Inr "[2]" "[2]" ?tmp] ok tmp large by (simp split: prod.splits)
  then show ?thesis
    using large by (simp add: s_def Let_def)
qed

end
