(* ===== verification/Listener.thy ===== *)
theory Listener
  imports Journal_Buffer "HOL-Library.Sublist"
begin

text \<open>
  A listener of the server's event queues, \<^verbatim>\<open>file_store/directory/listener.go\<close>. A message goes
  straight to the consumer when it is waiting for one and is otherwise diverted to the file
  buffer, which a goroutine pumps to the consumer. \<open>received\<close> holds what the consumer received.
  The senders, the pump and \<^verbatim>\<open>Close\<close> interleave; a step is what one of them does under the lock
  or between two channel operations. Whether the consumer waits (\<open>receiver\<close>) and whether a
  select takes the branch of the cancelled context (\<open>cancel\<close>) are inputs of a step. Errors of
  \<^verbatim>\<open>Enqueue\<close> are ignored by the code, and panics recovered; \<open>ignored\<close> records them.
\<close>

section \<open>Definitions\<close>

text \<open>The pump waits for the buffer, has seen the signal, delivers leased messages or has ended.\<close>

datatype 'a pump_state = Waiting | Ready | Delivering "'a list" | Stopped

record 'a Listener =
  disable_file_buffering :: bool
  file_buffer_active :: bool
  closed :: bool
  received :: "'a list"
  output_closed :: bool
  file_buffer :: "JournalBuffer option"
  file_buffer_ready :: bool      \<comment> \<open>the channel is closed\<close>
  ctx_done :: bool
  event_count :: int
  FileBufferLeaseSize :: nat
  pump :: "'a pump_state"
  closing :: bool                \<comment> \<open>\<^verbatim>\<open>Close\<close> holds the lock\<close>
  ignored :: "go_error list"

definition NewListener :: "int option \<Rightarrow> bool \<Rightarrow> nat \<Rightarrow> 'a Listener" where
  "NewListener MaxJournalBufferSize DisableFileBuffering lease_size =
     \<lparr>disable_file_buffering = DisableFileBuffering, file_buffer_active = False, closed = False,
      received = [], output_closed = False,
      file_buffer = (if DisableFileBuffering then None else Some (NewFileBasedRingBuffer MaxJournalBufferSize)),
      file_buffer_ready = False, ctx_done = False, event_count = 0, FileBufferLeaseSize = lease_size,
      pump = (if DisableFileBuffering then Stopped else Waiting), closing = False, ignored = []\<rparr>"

definition switchToFileMode :: "'a Listener \<Rightarrow> 'a Listener" where
  "switchToFileMode self =
     (if \<not> file_buffer_active self then self\<lparr>file_buffer_active := True, file_buffer_ready := True\<rparr>
      else self)"

definition switchToDirectMode :: "'a Listener \<Rightarrow> 'a Listener" where
  "switchToDirectMode self =
     (if file_buffer_active self then self\<lparr>file_buffer_active := False, file_buffer_ready := False\<rparr>
      else self)"

definition is_panic :: "go_error option \<Rightarrow> bool" where
  "is_panic e \<longleftrightarrow> (case e of Some (Panic _) \<Rightarrow> True | _ \<Rightarrow> False)"

text \<open>The call of \<^verbatim>\<open>Enqueue\<close> in \<^verbatim>\<open>Send\<close>.\<close>

definition buffer_item ::
  "('a \<Rightarrow> bytes result) \<Rightarrow> File result \<Rightarrow> 'a Listener \<Rightarrow> 'a \<Rightarrow> 'a Listener \<times> go_error option" where
  "buffer_item marshal tempfile self item =
     (case file_buffer self of
        None \<Rightarrow> (self\<lparr>ignored := ignored self @ [Panic ''nil file buffer'']\<rparr>, Some (Panic ''nil file buffer''))
      | Some b \<Rightarrow>
          (case Enqueue marshal tempfile b item of
             (b, None) \<Rightarrow> (self\<lparr>file_buffer := Some b\<rparr>, None)
           | (b, Some e) \<Rightarrow> (self\<lparr>file_buffer := Some b, ignored := ignored self @ [e]\<rparr>, Some e)))"

definition Send ::
  "('a \<Rightarrow> bytes result) \<Rightarrow> File result \<Rightarrow> bool \<Rightarrow> bool \<Rightarrow> 'a Listener \<Rightarrow> 'a \<Rightarrow> 'a Listener" where
  "Send marshal tempfile receiver cancel self item =
     (if closed self then self
      else if disable_file_buffering self then
        (if cancel then self
         else self\<lparr>received := received self @ [item], event_count := i64 (event_count self + 1)\<rparr>)
      else if file_buffer_active self then fst (buffer_item marshal tempfile self item)
      else if cancel then self
      else if receiver then self\<lparr>received := received self @ [item]\<rparr>
      else (case buffer_item marshal tempfile self item of
              (self, e) \<Rightarrow> if is_panic e then self else switchToFileMode self))"

text \<open>\<^verbatim>\<open>pumpFileBufferToOutput\<close>: leasing under the lock, and the delivery of one message.\<close>

definition pump_lease :: "(bytes \<Rightarrow> 'a option) \<Rightarrow> 'a Listener \<Rightarrow> 'a Listener" where
  "pump_lease unmarshal self =
     (case file_buffer self of
        None \<Rightarrow> self
      | Some b \<Rightarrow>
          (let lease_size = (if FileBufferLeaseSize self = 0 then 100 else FileBufferLeaseSize self);
               (items, b) = Lease unmarshal lease_size b;
               self = self\<lparr>file_buffer := Some b\<rparr>;
               self = (if length items = 0 then switchToDirectMode self else self)
           in self\<lparr>pump := Delivering items\<rparr>))"

definition Wg_Done :: "nat \<Rightarrow> 'a Listener \<Rightarrow> 'a Listener" where
  "Wg_Done n self =
     self\<lparr>file_buffer := map_option (\<lambda>b. b\<lparr>Wg := Wg b - n\<rparr>) (file_buffer self)\<rparr>"

definition pump_deliver :: "bool \<Rightarrow> 'a Listener \<Rightarrow> 'a Listener" where
  "pump_deliver cancel self =
     (case pump self of
        Delivering (item # items) \<Rightarrow>
          (let self = (if cancel then self else self\<lparr>received := received self @ [item]\<rparr>)
           in (Wg_Done 1 self)\<lparr>pump := Delivering items\<rparr>)
      | Delivering [] \<Rightarrow> self\<lparr>pump := Waiting\<rparr>
      | _ \<Rightarrow> self)"

text \<open>\<^verbatim>\<open>Close\<close> up to the wait for the messages in flight, and after it. \<open>sel\<close> says of which
  messages the final loop is told that the context is cancelled.\<close>

definition close_begin :: "'a Listener \<Rightarrow> 'a Listener" where
  "close_begin self = (switchToDirectMode (self\<lparr>closed := True\<rparr>))\<lparr>closing := True\<rparr>"

definition close_end :: "(bytes \<Rightarrow> 'a option) \<Rightarrow> (nat \<Rightarrow> bool) \<Rightarrow> 'a Listener \<Rightarrow> 'a Listener" where
  "close_end unmarshal sel self =
     (let self = (case file_buffer self of
                    None \<Rightarrow> self
                  | Some b \<Rightarrow>
                      (let (items, b) = Lease unmarshal 100 b;
                           sent = map snd (filter (\<lambda>p. \<not> sel (fst p)) (enumerate 0 items));
                           b = b\<lparr>Wg := Wg b - length items\<rparr>
                       in self\<lparr>received := received self @ sent, file_buffer := Some (Close b)\<rparr>))
      in self\<lparr>output_closed := True, ctx_done := True, closing := False\<rparr>)"

definition outstanding :: "'a Listener \<Rightarrow> nat" where
  "outstanding self = (case file_buffer self of None \<Rightarrow> 0 | Some b \<Rightarrow> Wg b)"

text \<open>The steps, with the messages accepted from senders.\<close>

inductive listener_step ::
  "('a \<Rightarrow> bytes result) \<Rightarrow> (bytes \<Rightarrow> 'a option) \<Rightarrow> 'a Listener \<Rightarrow> 'a list \<Rightarrow> 'a Listener \<Rightarrow> bool"
  for marshal unmarshal where
  send: "\<not> closing s \<Longrightarrow> \<not> closed s \<Longrightarrow> fresh_file tempfile \<Longrightarrow> cancel \<longrightarrow> ctx_done s \<Longrightarrow>
    listener_step marshal unmarshal s [item] (Send marshal tempfile receiver cancel s item)"
| pump_signal: "\<not> closing s \<Longrightarrow> pump s = Waiting \<Longrightarrow> file_buffer_ready s \<Longrightarrow>
    listener_step marshal unmarshal s [] (s\<lparr>pump := Ready\<rparr>)"
| pump_lease: "\<not> closing s \<Longrightarrow> pump s = Ready \<Longrightarrow>
    listener_step marshal unmarshal s [] (pump_lease unmarshal s)"
| pump_deliver: "pump s = Delivering items \<Longrightarrow> cancel \<longrightarrow> ctx_done s \<Longrightarrow>
    listener_step marshal unmarshal s [] (pump_deliver cancel s)"
| pump_stop: "pump s = Waiting \<Longrightarrow> ctx_done s \<Longrightarrow>
    listener_step marshal unmarshal s [] (s\<lparr>pump := Stopped\<rparr>)"
| cancel: "listener_step marshal unmarshal s [] (s\<lparr>ctx_done := True\<rparr>)"
| close_begin: "\<not> closing s \<Longrightarrow> \<not> closed s \<Longrightarrow> listener_step marshal unmarshal s [] (close_begin s)"
| close_end: "closing s \<Longrightarrow> outstanding s = 0 \<Longrightarrow> (\<exists>i. sel i) \<longrightarrow> ctx_done s \<Longrightarrow>
    listener_step marshal unmarshal s [] (close_end unmarshal sel s)"

inductive listener_run ::
  "('a \<Rightarrow> bytes result) \<Rightarrow> (bytes \<Rightarrow> 'a option) \<Rightarrow> 'a Listener \<Rightarrow> 'a list \<Rightarrow> 'a Listener \<Rightarrow> bool"
  for marshal unmarshal where
  init: "listener_run marshal unmarshal s [] s"
| step: "listener_run marshal unmarshal s tr s1 \<Longrightarrow> listener_step marshal unmarshal s1 ms s2 \<Longrightarrow>
    listener_run marshal unmarshal s (tr @ ms) s2"

section \<open>Order and completeness\<close>

fun in_flight :: "'a pump_state \<Rightarrow> 'a list" where
  "in_flight (Delivering items) = items"
| "in_flight _ = []"

text \<open>What is known of the messages \<open>ms\<close>: they are encoded without error, in a size that the
  buffer takes, and decoded to themselves.\<close>

definition encodes :: "('a \<Rightarrow> bytes result) \<Rightarrow> (bytes \<Rightarrow> 'a option) \<Rightarrow> 'a list \<Rightarrow> bool" where
  "encodes marshal unmarshal ms \<longleftrightarrow>
     (\<forall>m \<in> set ms. \<exists>b. marshal m = Ok b \<and> ok_item b \<and> unmarshal b = Some m)"

definition enc :: "('a \<Rightarrow> bytes result) \<Rightarrow> 'a \<Rightarrow> bytes" where
  "enc marshal m = (case marshal m of Ok b \<Rightarrow> b | Err _ \<Rightarrow> [])"

definition queued :: "('a \<Rightarrow> bytes result) \<Rightarrow> 'a Listener \<Rightarrow> 'a list \<Rightarrow> bool" where
  "queued marshal s ps \<longleftrightarrow>
     (case file_buffer s of
        None \<Rightarrow> disable_file_buffering s \<and> pump s = Stopped \<and> ps = [] \<and> \<not> file_buffer_active s
      | Some b \<Rightarrow> \<not> disable_file_buffering s \<and> jrel b (map (enc marshal) ps) \<and>
          Wg b = length (in_flight (pump s)))"

definition linv :: "('a \<Rightarrow> bytes result) \<Rightarrow> 'a list \<Rightarrow> 'a Listener \<Rightarrow> 'a list \<Rightarrow> bool" where
  "linv marshal tr s ps \<longleftrightarrow>
     queued marshal s ps \<and> (pump s = Stopped \<longrightarrow> ctx_done s \<or> disable_file_buffering s) \<and>
     (\<not> closed s \<longrightarrow> file_buffer_ready s = file_buffer_active s \<and>
        (file_buffer_active s \<or> in_flight (pump s) = [] \<and> ps = [])) \<and>
     subseq (received s @ in_flight (pump s) @ ps) tr \<and>
     (ignored s = [] \<and> \<not> ctx_done s \<longrightarrow> received s @ in_flight (pump s) @ ps = tr)"

lemma jrel_Wg [simp]: "jrel (b\<lparr>Wg := n\<rparr>) xs = jrel b xs"
  by (cases "fd b") (simp_all add: jrel_def)

lemma linv_New: "linv marshal [] (NewListener sz d n) []"
  by (simp add: linv_def queued_def NewListener_def jrel_New) (simp add: NewFileBasedRingBuffer_def)

lemma subseq_snoc: "subseq xs tr \<Longrightarrow> subseq (xs @ [m]) (tr @ [m])" "subseq xs tr \<Longrightarrow> subseq xs (tr @ [m])"
  by (auto intro: subseq_rev_drop_many)

lemma subseq_front: "subseq (xs @ ys) tr \<Longrightarrow> subseq xs tr"
  by (meson subseq_order.order_trans subseq_rev_drop_many subseq_order.order_refl)

lemma encodes_single:
  assumes "encodes marshal unmarshal [m]"
  shows "marshal m = Ok (enc marshal m)" "ok_item (enc marshal m)" "unmarshal (enc marshal m) = Some m"
  using assms by (auto simp: encodes_def enc_def)

lemma buffer_item_queued:
  assumes "queued marshal s ps" and "file_buffer s = Some b" and "encodes marshal unmarshal [m]"
    and "fresh_file tempfile" and "buffer_item marshal tempfile s m = (s', e)"
  shows "queued marshal s' (if e = None then ps @ [m] else [])"
    "received s' = received s" "pump s' = pump s" "file_buffer_active s' = file_buffer_active s"
    "file_buffer_ready s' = file_buffer_ready s" "closed s' = closed s" "ctx_done s' = ctx_done s"
    "ignored s' = ignored s @ (case e of None \<Rightarrow> [] | Some e \<Rightarrow> [e])"
proof -
  obtain b' where b': "Enqueue marshal tempfile b m = (b', e)" "s' = (case e of
      None \<Rightarrow> s\<lparr>file_buffer := Some b'\<rparr>
    | Some e \<Rightarrow> s\<lparr>file_buffer := Some b', ignored := ignored s @ [e]\<rparr>)"
    using assms(2,5) by (auto simp: buffer_item_def split: prod.splits option.splits)
  have q: "jrel b (map (enc marshal) ps)" "\<not> disable_file_buffering s" "Wg b = length (in_flight (pump s))"
    using assms(1,2) by (simp_all add: queued_def)
  show "queued marshal s' (if e = None then ps @ [m] else [])"
    using jEnqueue_rel(1) [OF q(1) encodes_single(1,2) [OF assms(3)] assms(4) b'(1)]
      Enqueue_keeps [OF b'(1)] q(2,3) b'(2) by (cases e) (simp_all add: queued_def)
  show "received s' = received s" "pump s' = pump s" "file_buffer_active s' = file_buffer_active s"
    "file_buffer_ready s' = file_buffer_ready s" "closed s' = closed s" "ctx_done s' = ctx_done s"
    "ignored s' = ignored s @ (case e of None \<Rightarrow> [] | Some e \<Rightarrow> [e])"
    using b'(2) by (auto split: option.splits)
qed

lemma queued_switch [simp]:
  "queued marshal (switchToFileMode s) ps = (queued marshal s ps \<and> file_buffer s \<noteq> None \<or>
     queued marshal s ps \<and> file_buffer_active s)"
  by (auto simp: queued_def switchToFileMode_def split: option.splits)

lemma Send_linv:
  assumes inv: "linv marshal tr s ps" and c: "\<not> closed s" and m: "encodes marshal unmarshal [m]"
    and tmp: "fresh_file tempfile" and can: "cancel \<longrightarrow> ctx_done s"
  shows "\<exists>ps'. linv marshal (tr @ [m]) (Send marshal tempfile receiver cancel s m) ps'"
proof (cases "file_buffer s")
  case None
  then have "disable_file_buffering s"
    using inv by (simp add: linv_def queued_def)
  then show ?thesis
    using inv c can None by (intro exI [of _ "[]"]) (auto simp: Send_def linv_def queued_def intro: subseq_snoc)
next
  case (Some b)
  then have d: "\<not> disable_file_buffering s"
    using inv by (simp add: linv_def queued_def)
  have q: "queued marshal s ps" "subseq (received s @ in_flight (pump s) @ ps) tr"
    "ignored s = [] \<and> \<not> ctx_done s \<longrightarrow> received s @ in_flight (pump s) @ ps = tr"
    "file_buffer_ready s = file_buffer_active s" "file_buffer_active s \<or> in_flight (pump s) = [] \<and> ps = []"
    "pump s = Stopped \<longrightarrow> ctx_done s"
    using inv c d by (simp_all add: linv_def)
  obtain s1 e where s1: "buffer_item marshal tempfile s m = (s1, e)"
    by fastforce
  note b = buffer_item_queued [OF q(1) Some m tmp s1]
  define ps' where "ps' = (if e = None then ps @ [m] else [])"
  have sub: "subseq (received s1 @ in_flight (pump s1) @ ps') (tr @ [m])"
    using q(2) b(2,3) subseq_snoc [of "received s @ in_flight (pump s) @ ps"]
      subseq_front [of "received s @ in_flight (pump s)" ps tr]
    by (auto simp: ps'_def intro: subseq_snoc)
  have eq: "ignored s1 = [] \<and> \<not> ctx_done s1 \<longrightarrow> received s1 @ in_flight (pump s1) @ ps' = tr @ [m]"
    using q(3) b(2,3,7,8) by (cases e) (auto simp: ps'_def)
  have fb: "file_buffer s1 \<noteq> None"
    using s1 Some by (auto simp: buffer_item_def split: prod.splits option.splits)
  consider "file_buffer_active s" | "\<not> file_buffer_active s" "cancel"
    | "\<not> file_buffer_active s" "\<not> cancel" "receiver" | "\<not> file_buffer_active s" "\<not> cancel" "\<not> receiver"
    by blast
  then show ?thesis
  proof cases
    case 1
    then have "Send marshal tempfile receiver cancel s m = s1"
      using c d s1 by (simp add: Send_def)
    then show ?thesis
      using sub eq b 1 q(4,6) by (intro exI [of _ ps']) (simp add: linv_def ps'_def)
  next
    case 2
    then show ?thesis
      using inv c d can by (intro exI [of _ ps]) (auto simp: Send_def linv_def intro: subseq_snoc)
  next
    case 3
    then show ?thesis
      using inv c d by (intro exI [of _ "[]"]) (auto simp: Send_def linv_def queued_def Some intro: subseq_snoc)
  next
    case 4
    then have "Send marshal tempfile receiver cancel s m = (if is_panic e then s1 else switchToFileMode s1)"
      using c d s1 by (simp add: Send_def)
    moreover have "is_panic e \<Longrightarrow> ps' = []"
      by (cases e) (auto simp: ps'_def is_panic_def)
    ultimately show ?thesis
      using sub eq b 4 q(4-6) fb by (intro exI [of _ ps'])
        (auto simp: linv_def switchToFileMode_def ps'_def queued_def split: option.splits)
  qed
qed

lemma encodes_subseq: "encodes marshal unmarshal tr \<Longrightarrow> subseq ps tr \<Longrightarrow> encodes marshal unmarshal ps"
  unfolding encodes_def by (meson subseq_order.order_trans subseq_singleton_left)

lemma subseq_tail: "subseq (xs @ ys) tr \<Longrightarrow> subseq ys tr"
  by (meson list_emb_append2 subseq_order.order_refl subseq_order.order_trans)

text \<open>A lease from the buffer of a listener: the first \<open>k\<close> of the queued messages.\<close>

lemma Lease_queued:
  assumes "jrel b (map (enc marshal) ps)" and "encodes marshal unmarshal ps"
    and "Lease unmarshal n b = (items, b')"
  shows "items = take (max 1 n) ps" "jrel b' (map (enc marshal) (drop (max 1 n) ps))" "Wg b' = Wg b + length items"
proof -
  have "\<forall>x \<in> set (map (enc marshal) ps). unmarshal x = Some (the (unmarshal x))"
    using assms(2) by (auto simp: encodes_def enc_def)
  note L = jLease_rel [OF assms(1) this refl assms(3)]
  have "map ((\<lambda>x. the (unmarshal x)) \<circ> enc marshal) (take (max 1 n) ps) = map id (take (max 1 n) ps)"
    using assms(2) by (intro map_cong) (auto simp: encodes_def enc_def dest!: in_set_takeD)
  then show "items = take (max 1 n) ps"
    using L(1) by (simp add: take_map)
  show "jrel b' (map (enc marshal) (drop (max 1 n) ps))" "Wg b' = Wg b + length items"
    using L(2,3) by (simp_all add: drop_map)
qed

lemma pump_lease_linv:
  assumes inv: "linv marshal tr s ps" and "pump s = Ready" and e: "encodes marshal unmarshal tr"
  shows "\<exists>k. linv marshal tr (pump_lease unmarshal s) (drop k ps) \<and>
    pump (pump_lease unmarshal s) = Delivering (take k ps) \<and> 0 < k"
proof -
  obtain b where b: "file_buffer s = Some b" "\<not> disable_file_buffering s"
    using inv assms(2) by (cases "file_buffer s") (auto simp: linv_def queued_def)
  define n where "n = (if FileBufferLeaseSize s = 0 then 100 else FileBufferLeaseSize s)"
  define k where "k = max 1 n"
  obtain items b' where l: "Lease unmarshal n b = (items, b')"
    by fastforce
  have j: "jrel b (map (enc marshal) ps)" "Wg b = 0" and sub: "subseq (received s @ ps) tr"
    using inv b assms(2) by (simp_all add: linv_def queued_def)
  note L = Lease_queued [OF j(1) encodes_subseq [OF e subseq_tail [OF sub]] l, folded k_def]
  have eq: "pump_lease unmarshal s =
      (if items = [] then switchToDirectMode (s\<lparr>file_buffer := Some b'\<rparr>) else s\<lparr>file_buffer := Some b'\<rparr>)\<lparr>pump := Delivering items\<rparr>"
    using b l by (simp add: pump_lease_def n_def [symmetric] Let_def)
  have k: "0 < k"
    by (simp add: k_def)
  have "linv marshal tr (pump_lease unmarshal s) (drop k ps)"
  proof (cases "items = []")
    case True
    then have "ps = []"
      using L(1) k by simp
    then show ?thesis
      using inv b L(2,3) j(2) assms(2) True unfolding eq
      by (simp add: linv_def queued_def switchToDirectMode_def)
  next
    case False
    then have "ps \<noteq> []"
      using L(1) by auto
    then show ?thesis
      using inv b L j(2) assms(2) False unfolding eq by (auto simp: linv_def queued_def)
  qed
  moreover have "pump (pump_lease unmarshal s) = Delivering (take k ps)"
    using L(1) by (simp add: eq)
  ultimately show ?thesis
    using k by blast
qed

lemma subseq_delete: "subseq (xs @ y # zs) tr \<Longrightarrow> subseq (xs @ zs) tr"
  by (meson list_emb_append_mono subseq_order.order_refl subseq_order.order_trans subseq_Cons')

lemma pump_deliver_linv:
  assumes inv: "linv marshal tr s ps" and p: "pump s = Delivering items" and "cancel \<longrightarrow> ctx_done s"
  shows "linv marshal tr (pump_deliver cancel s) ps"
proof -
  obtain b where b: "file_buffer s = Some b" "\<not> disable_file_buffering s"
    using inv p by (cases "file_buffer s") (auto simp: linv_def queued_def)
  show ?thesis
  proof (cases items)
    case Nil
    then show ?thesis
      using inv p b by (simp add: linv_def queued_def pump_deliver_def)
  next
    case (Cons x xs)
    then show ?thesis
      using inv p b assms(3) subseq_delete [of "received s" x "xs @ ps" tr]
      by (auto simp: linv_def queued_def pump_deliver_def Wg_Done_def)
  qed
qed

lemma filter_enumerate_subseq: "subseq (map snd (filter P (enumerate n xs))) xs"
  using subseq_map [OF subseq_filter_left, of snd P "enumerate n xs"] by simp

lemma close_end_linv:
  assumes inv: "linv marshal tr s ps" and cl: "closed s" and o: "outstanding s = 0"
    and e: "encodes marshal unmarshal tr"
  shows "linv marshal tr (close_end unmarshal sel s) []" "in_flight (pump s) = []"
    "\<not> disable_file_buffering s \<Longrightarrow> \<not> (\<exists>i. sel i) \<Longrightarrow>
      received (close_end unmarshal sel s) = received s @ take 100 ps"
proof -
  have "linv marshal tr (close_end unmarshal sel s) [] \<and> in_flight (pump s) = [] \<and>
    (\<not> disable_file_buffering s \<longrightarrow> \<not> (\<exists>i. sel i) \<longrightarrow> received (close_end unmarshal sel s) = received s @ take 100 ps)"
  proof (cases "file_buffer s")
    case None
    then show ?thesis
      using inv cl by (auto simp: linv_def queued_def close_end_def)
  next
    case (Some b)
    obtain items b' where l: "Lease unmarshal 100 b = (items, b')"
      by fastforce
    have j: "jrel b (map (enc marshal) ps)" "Wg b = 0" "in_flight (pump s) = []" "\<not> disable_file_buffering s"
      and sub: "subseq (received s @ ps) tr"
      using inv Some o by (simp_all add: linv_def queued_def outstanding_def)
    note L = Lease_queued [OF j(1) encodes_subseq [OF e subseq_tail [OF sub]] l]
    have "subseq (received s @ map snd (filter (\<lambda>p. \<not> sel (fst p)) (enumerate 0 items))) (received s @ items)"
      by (intro list_emb_append_mono subseq_order.order_refl filter_enumerate_subseq)
    moreover have "subseq (received s @ items) tr"
      using sub subseq_front [of "received s @ items" "drop 100 ps" tr] L(1) by simp
    ultimately have "subseq (received s @ map snd (filter (\<lambda>p. \<not> sel (fst p)) (enumerate 0 items))) tr"
      by (rule subseq_order.order_trans)
    moreover have "jrel (Close (b'\<lparr>Wg := 0\<rparr>)) []" "Wg (Close (b'\<lparr>Wg := 0\<rparr>)) = 0"
      by (simp_all add: jrel_def Close_def)
    ultimately show ?thesis
      using Some l L j cl by (auto simp: linv_def queued_def close_end_def Let_def)
  qed
  then show "linv marshal tr (close_end unmarshal sel s) []" "in_flight (pump s) = []"
    "\<not> disable_file_buffering s \<Longrightarrow> \<not> (\<exists>i. sel i) \<Longrightarrow>
      received (close_end unmarshal sel s) = received s @ take 100 ps"
    by blast+
qed

lemma step_linv:
  assumes "listener_step marshal unmarshal s ms s'" and "linv marshal tr s ps" and "encodes marshal unmarshal (tr @ ms)"
    and "closing s \<longrightarrow> closed s"
  shows "(\<exists>ps'. linv marshal (tr @ ms) s' ps') \<and> (closing s' \<longrightarrow> closed s')"
  using assms
proof (cases rule: listener_step.cases)
  case (send tempfile cancel item receiver)
  then have "closing s' = closing s"
    by (auto simp: Send_def buffer_item_def switchToFileMode_def split: option.splits prod.splits)
  moreover have "encodes marshal unmarshal [item]"
    using assms(3) send(1) by (simp add: encodes_def)
  ultimately show ?thesis
    using Send_linv [OF assms(2)] send by blast
next
  case pump_lease
  then have "closing s' = closing s"
    by (simp add: pump_lease_def switchToDirectMode_def Let_def split: option.splits prod.splits)
  then show ?thesis
    using pump_lease_linv [OF assms(2)] pump_lease assms(3) by auto
next
  case (pump_deliver items cancel)
  then have "closing s' = closing s" "closed s' = closed s"
    by (auto simp: pump_deliver_def Wg_Done_def Let_def split: list.splits)
  then show ?thesis
    using pump_deliver_linv [OF assms(2)] pump_deliver assms(4) by auto
next
  case (close_end sel)
  then show ?thesis
    using close_end_linv(1) [OF assms(2) _ close_end(4)] assms(3,4) by (auto simp: close_end_def)
next
  case close_begin
  then show ?thesis
    using assms(2) by (auto simp: linv_def queued_def close_begin_def switchToDirectMode_def split: option.splits)
qed (use assms in \<open>auto simp: linv_def queued_def split: option.splits\<close>)

lemma run_linv:
  fixes marshal :: "'a \<Rightarrow> bytes result"
  assumes "listener_run marshal unmarshal (NewListener sz d n) tr s" and "encodes marshal unmarshal tr"
  shows "(\<exists>ps. linv marshal tr s ps) \<and> (closing s \<longrightarrow> closed s)"
  using assms
proof (induction "NewListener sz d n :: 'a Listener" tr s rule: listener_run.induct)
  case init
  then show ?case
  proof -
    have "\<not> closing (NewListener sz d n :: 'a Listener)"
      by (simp add: NewListener_def)
    then show ?thesis
      using linv_New by blast
  qed
next
  case (step tr s1 ms s2)
  then have "encodes marshal unmarshal tr"
    by (simp add: encodes_def)
  then show ?case
    using step step_linv by blast
qed

text \<open>The messages that wait in the file of the buffer.\<close>

definition buffered :: "(bytes \<Rightarrow> 'a option) \<Rightarrow> 'a Listener \<Rightarrow> 'a list" where
  "buffered unmarshal s = (case file_buffer s of None \<Rightarrow> [] | Some b \<Rightarrow> fst (Lease unmarshal (nat (PendingSize b)) b))"

lemma linv_buffered:
  assumes inv: "linv marshal tr s ps" and e: "encodes marshal unmarshal tr"
  shows "buffered unmarshal s = ps"
proof (cases "file_buffer s")
  case None
  then show ?thesis
    using inv by (simp add: linv_def queued_def buffered_def)
next
  case (Some b)
  then have j: "jrel b (map (enc marshal) ps)"
    using inv by (simp add: linv_def queued_def)
  have "subseq ((received s @ in_flight (pump s)) @ ps) tr"
    using inv by (simp add: linv_def)
  then have "encodes marshal unmarshal ps"
    by (rule encodes_subseq [OF e subseq_tail])
  moreover have "length ps \<le> max 1 (nat (PendingSize b))"
  proof (cases "fd b")
    case None
    then show ?thesis
      using j by (simp add: jrel_def)
  next
    case (Some f)
    then obtain h where "header b = Some h" "WritePointer h = ReadPointer h + int (length (enc_records (map (enc marshal) ps)))"
        "50 \<le> ReadPointer h" "WritePointer h < 2 ^ 63"
      using j by (auto simp: jrel_def)
    then have "PendingSize b = int (length (enc_records (map (enc marshal) ps)))"
      by (simp add: PendingSize_def in_i64_def)
    then show ?thesis
      using length_le_enc [of "map (enc marshal) ps"] by simp
  qed
  ultimately show ?thesis
    using Lease_queued(1) [OF j, of unmarshal "nat (PendingSize b)"] Some
    by (cases "Lease unmarshal (nat (PendingSize b)) b") (simp add: buffered_def)
qed

lemma run_one: "listener_step marshal unmarshal s ms s' \<Longrightarrow> listener_run marshal unmarshal s ms s'"
  using listener_run.step [OF listener_run.init] by fastforce

text \<open>A concrete encoding, of bytes, and a listener that has diverted one message.\<close>

definition byte_marshal :: "8 word \<Rightarrow> bytes result" where
  "byte_marshal w = Ok [w]"

definition byte_unmarshal :: "bytes \<Rightarrow> 8 word option" where
  "byte_unmarshal b = (case b of [w] \<Rightarrow> Some w | _ \<Rightarrow> None)"

definition diverted :: "8 word Listener" where
  "diverted = Send byte_marshal (Ok \<lparr>content = [], faults = [], fd_closed = False\<rparr>) False False
     (NewListener None False 0) 5"

lemma byte_encodes: "encodes byte_marshal byte_unmarshal ms"
  by (simp add: encodes_def byte_marshal_def byte_unmarshal_def ok_item_def MAX_MEMORY_def)

lemma diverted_run: "listener_run byte_marshal byte_unmarshal (NewListener None False 0) [5] diverted"
  unfolding diverted_def
  by (intro run_one listener_step.send) (simp_all add: NewListener_def fresh_file_def)

lemma diverted_state:
  "ignored diverted = []" "\<not> ctx_done diverted" "\<not> closed diverted" "\<not> closing diverted" "received diverted = []"
  "outstanding diverted = 0"
  by (simp_all add: diverted_def Send_def buffer_item_def NewListener_def NewFileBasedRingBuffer_def Enqueue_def
      getFd_def write_item_def byte_marshal_def fresh_header_def FirstRecordOffset_def WriteAt_def Let_def
      in_i64_def switchToFileMode_def is_panic_def outstanding_def)

text \<open>C12: The consumer of a queue receives a subsequence of the messages sent to it, in order:
  what it received, then what is being delivered, then what waits in the file. As long as
  the listener was not cancelled and the buffer reported no error this is all of them:
  diverting messages to the file and going back to direct delivery neither loses, repeats
  nor reorders any, for every interleaving of the senders, the pump and \<^verbatim>\<open>Close\<close>.\<close>

theorem listener_order:
  assumes "listener_run marshal unmarshal (NewListener sz d n) tr s" and "encodes marshal unmarshal tr"
  shows "subseq (received s @ in_flight (pump s) @ buffered unmarshal s) tr \<and>
    (ignored s = [] \<and> \<not> ctx_done s \<longrightarrow> received s @ in_flight (pump s) @ buffered unmarshal s = tr)"
proof -
  obtain ps where ps: "linv marshal tr s ps"
    using run_linv [OF assms] by blast
  then show ?thesis
    unfolding linv_buffered [OF ps assms(2)] by (simp_all add: linv_def)
qed

theorem listener_order_witness:
  "received diverted @ in_flight (pump diverted) @ buffered byte_unmarshal diverted = [5]"
  using listener_order [OF diverted_run byte_encodes] diverted_state by simp

section \<open>The pump drains the buffer\<close>

lemma run_trans:
  assumes "listener_run marshal unmarshal s1 ms2 s2" and "listener_run marshal unmarshal s ms1 s1"
  shows "listener_run marshal unmarshal s (ms1 @ ms2) s2"
  using assms by (induction rule: listener_run.induct) (auto intro: listener_run.intros simp flip: append_assoc)

abbreviation live :: "'a Listener \<Rightarrow> bool" where
  "live s \<equiv> \<not> closed s \<and> \<not> closing s \<and> \<not> ctx_done s"

text \<open>Pump steps that keep the listener running; \<open>s'\<close> has the messages \<open>ps'\<close> left.\<close>

definition drains_to where
  "drains_to marshal unmarshal tr s s' ps' \<longleftrightarrow>
     listener_run marshal unmarshal s [] s' \<and> linv marshal tr s' ps' \<and> live s' \<and> ignored s' = ignored s"

lemma deliver_all:
  assumes "linv marshal tr s ps" and "pump s = Delivering items" and "live s"
  shows "\<exists>s'. drains_to marshal unmarshal tr s s' ps \<and> pump s' = Waiting \<and> file_buffer_active s' = file_buffer_active s"
  using assms
proof (induction items arbitrary: s)
  case Nil
  have "listener_run marshal unmarshal s [] (pump_deliver False s)"
    using Nil by (intro run_one listener_step.pump_deliver) auto
  moreover have "linv marshal tr (pump_deliver False s) ps"
    using pump_deliver_linv [OF Nil(1,2)] by simp
  ultimately show ?case
    using Nil by (intro exI [of _ "pump_deliver False s"]) (auto simp: drains_to_def pump_deliver_def)
next
  case (Cons x xs)
  define s1 where "s1 = pump_deliver False s"
  have r: "listener_run marshal unmarshal s [] s1"
    unfolding s1_def using Cons.prems by (intro run_one listener_step.pump_deliver) auto
  have "linv marshal tr s1 ps" "pump s1 = Delivering xs" "live s1" "ignored s1 = ignored s"
    "file_buffer_active s1 = file_buffer_active s"
    using pump_deliver_linv [OF Cons.prems(1,2)] Cons.prems(2,3) by (auto simp: s1_def pump_deliver_def Wg_Done_def)
  then show ?case
    using Cons.IH [of s1] run_trans [OF _ r] by (fastforce simp: drains_to_def)
qed

lemma lease_all:
  assumes "linv marshal tr s ps" and "pump s = Ready" and "live s" and "encodes marshal unmarshal tr"
  shows "\<exists>s' k. drains_to marshal unmarshal tr s s' (drop k ps) \<and> pump s' = Waiting \<and> 0 < k \<and>
    (ps = [] \<longrightarrow> \<not> file_buffer_active s')"
proof -
  obtain k where k: "linv marshal tr (pump_lease unmarshal s) (drop k ps)"
    "pump (pump_lease unmarshal s) = Delivering (take k ps)" "0 < k"
    using pump_lease_linv [OF assms(1,2,4)] by blast
  have r: "listener_run marshal unmarshal s [] (pump_lease unmarshal s)"
    using assms by (intro run_one listener_step.pump_lease) auto
  have l: "live (pump_lease unmarshal s)" "ignored (pump_lease unmarshal s) = ignored s"
    using assms(3) by (auto simp: pump_lease_def switchToDirectMode_def Let_def split: option.splits prod.splits)
  have a: "ps = [] \<longrightarrow> \<not> file_buffer_active (pump_lease unmarshal s)"
    using k(2) assms(1,2)
    by (auto simp: pump_lease_def switchToDirectMode_def Let_def linv_def queued_def split: option.splits prod.splits)
  from deliver_all [OF k(1,2) l(1), of unmarshal] obtain s' where
    "drains_to marshal unmarshal tr (pump_lease unmarshal s) s' (drop k ps)" "pump s' = Waiting"
    "file_buffer_active s' = file_buffer_active (pump_lease unmarshal s)"
    by blast
  then show ?thesis
    using run_trans [OF _ r] l(2) a k(3) by (fastforce simp: drains_to_def)
qed

lemma drain:
  assumes "linv marshal tr s ps" and "pump s = Waiting" and "live s" and "encodes marshal unmarshal tr"
  shows "\<exists>s'. drains_to marshal unmarshal tr s s' [] \<and> pump s' = Waiting \<and> \<not> file_buffer_active s'"
  using assms(1-3)
proof (induction "length ps" arbitrary: s ps rule: less_induct)
  case less
  show ?case
  proof (cases "file_buffer_active s")
    case False
    then have "ps = []"
      using less.prems by (simp add: linv_def)
    then show ?thesis
      using less.prems False listener_run.init by (auto simp: drains_to_def)
  next
    case True
    define s1 where "s1 = s\<lparr>pump := Ready\<rparr>"
    have s1: "linv marshal tr s1 ps" "pump s1 = Ready" "live s1" "ignored s1 = ignored s"
      using less.prems by (auto simp: s1_def linv_def queued_def split: option.splits)
    have r: "listener_run marshal unmarshal s [] s1"
      unfolding s1_def using less.prems True
      by (intro run_one listener_step.pump_signal) (auto simp: linv_def)
    obtain s2 k where s2: "drains_to marshal unmarshal tr s1 s2 (drop k ps)" "pump s2 = Waiting" "0 < k"
      "ps = [] \<longrightarrow> \<not> file_buffer_active s2"
      using lease_all [OF s1(1-3) assms(4)] by blast
    have r2: "listener_run marshal unmarshal s [] s2"
      using run_trans [OF _ r] s2(1) by (fastforce simp: drains_to_def)
    show ?thesis
    proof (cases "ps = []")
      case True
      then show ?thesis
        using s2 r2 s1(4) by (auto simp: drains_to_def)
    next
      case False
      then have "length (drop k ps) < length ps"
        using s2(3) by simp
      then obtain s3 where "drains_to marshal unmarshal tr s2 s3 []" "pump s3 = Waiting" "\<not> file_buffer_active s3"
        using less.hyps [of "drop k ps" s2] s2(1,2) by (auto simp: drains_to_def)
      then show ?thesis
        using run_trans [OF _ r2] s2(1) s1(4) by (fastforce simp: drains_to_def)
    qed
  qed
qed

lemma run_enabled:
  assumes "listener_run marshal unmarshal s tr s'"
  shows "disable_file_buffering s' = disable_file_buffering s"
  using assms
proof (induction rule: listener_run.induct)
  case (step s tr s1 ms s2)
  from step(2) have "disable_file_buffering s2 = disable_file_buffering s1"
    by (cases rule: listener_step.cases)
      (auto simp: Send_def buffer_item_def switchToFileMode_def switchToDirectMode_def pump_lease_def pump_deliver_def
        Wg_Done_def close_begin_def close_end_def Let_def
        split: option.splits prod.splits list.splits pump_state.splits)
  with step show ?case by simp
qed simp

lemma drain_any:
  assumes "linv marshal tr s ps" and "live s" and "encodes marshal unmarshal tr" and "\<not> disable_file_buffering s"
  shows "\<exists>s'. drains_to marshal unmarshal tr s s' [] \<and> pump s' = Waiting \<and> \<not> file_buffer_active s'"
proof -
  have "\<exists>s1 ps1. drains_to marshal unmarshal tr s s1 ps1 \<and> pump s1 = Waiting"
  proof (cases "pump s")
    case Waiting
    then show ?thesis
      using assms listener_run.init by (fastforce simp: drains_to_def)
  next
    case Ready
    then show ?thesis
      using lease_all [OF assms(1) _ assms(2,3)] by blast
  next
    case (Delivering items)
    then show ?thesis
      using deliver_all [OF assms(1) _ assms(2)] by blast
  next
    case Stopped
    then show ?thesis
      using assms by (simp add: linv_def)
  qed
  then obtain s1 ps1 where s1: "drains_to marshal unmarshal tr s s1 ps1" "pump s1 = Waiting"
    by blast
  then obtain s2 where "drains_to marshal unmarshal tr s1 s2 []" "pump s2 = Waiting" "\<not> file_buffer_active s2"
    using drain [of marshal tr s1 ps1 unmarshal] assms(3) by (auto simp: drains_to_def)
  then show ?thesis
    using run_trans [of marshal unmarshal s1 "[]" s2 s "[]"] s1(1) by (auto simp: drains_to_def)
qed



text \<open>\<^verbatim>\<open>Close\<close> is meant to drain the buffer but leases only once: of the messages waiting in
  the file when nothing is in flight any more, the consumer gets the first hundred and no
  other.\<close>

theorem Close_drains_hundred:
  assumes "listener_run marshal unmarshal (NewListener sz False n) tr s" and "encodes marshal unmarshal tr"
    and "closing s" and "outstanding s = 0" and "\<not> ctx_done s" and "ignored s = []"
  shows "received (close_end unmarshal (\<lambda>_. False) s) = take (length (received s) + 100) tr"
proof -
  obtain ps where ps: "linv marshal tr s ps" "closed s"
    using run_linv [OF assms(1,2)] assms(3) by blast
  have "\<not> disable_file_buffering s"
    using run_enabled [OF assms(1)] by (simp add: NewListener_def)
  then have "received (close_end unmarshal (\<lambda>_. False) s) = received s @ take 100 ps" "in_flight (pump s) = []"
    using close_end_linv(2) [OF ps assms(4,2)] close_end_linv(3) [OF ps assms(4,2), of "\<lambda>_. False"] by simp_all
  moreover have "tr = received s @ in_flight (pump s) @ ps"
    using ps(1) assms(5,6) by (simp add: linv_def)
  ultimately show ?thesis by simp
qed

end
