(* ===== verification/Queue_Pool.thy ===== *)
theory Queue_Pool
  imports Listener
begin

text \<open>
  The pool of listeners of the server's event queues, \<^verbatim>\<open>file_store/directory/queue.go\<close>. The
  registrations map a queue name to the listeners registered for it, by their unique id;
  \<open>heap\<close> holds the listener objects. Whether a consumer waits, whether a select is told that
  its context is cancelled and the temporary file of a buffer are inputs, per listener.
\<close>

section \<open>Definitions\<close>

record 'a QueuePool =
  registrations :: "string \<Rightarrow> nat list option"
  heap :: "nat \<Rightarrow> 'a Listener"
  next_id :: nat

record QueueOptions =
  DisableFileBuffering :: bool
  LeaseSize :: nat

record inputs =
  receivers :: "nat \<Rightarrow> bool"
  cancels :: "nat \<Rightarrow> bool"
  tempfiles :: "nat \<Rightarrow> File result"

definition NewQueuePool :: "'a QueuePool" where
  "NewQueuePool = \<lparr>registrations = (\<lambda>_. None), heap = (\<lambda>_. NewListener None False 0), next_id = 0\<rparr>"

definition GetWatchers :: "'a QueuePool \<Rightarrow> string set" where
  "GetWatchers self = dom (registrations self)"

text \<open>\<^verbatim>\<open>utils.GetId\<close> gives the listener a number never used before.\<close>

definition Register :: "int option \<Rightarrow> string \<Rightarrow> QueueOptions \<Rightarrow> 'a QueuePool \<Rightarrow> 'a QueuePool \<times> nat" where
  "Register MaxJournalBufferSize queue_name options self =
     (let regs = (case registrations self queue_name of None \<Rightarrow> [] | Some r \<Rightarrow> r);
          reg_id = next_id self + 1;
          new_registration = NewListener MaxJournalBufferSize (DisableFileBuffering options) (LeaseSize options)
      in (self\<lparr>registrations := (registrations self)(queue_name \<mapsto> regs @ [reg_id]),
               heap := (heap self)(reg_id := new_registration), next_id := reg_id\<rparr>, reg_id))"

text \<open>\<^verbatim>\<open>Listener.Close\<close> as a whole, once nothing is in flight.\<close>

definition close_listener :: "(bytes \<Rightarrow> 'a option) \<Rightarrow> 'a Listener \<Rightarrow> 'a Listener" where
  "close_listener unmarshal l = close_end unmarshal (\<lambda>_. False) (close_begin l)"

fun unregister_loop ::
  "(bytes \<Rightarrow> 'a option) \<Rightarrow> nat \<Rightarrow> nat list \<Rightarrow> (nat \<Rightarrow> 'a Listener) \<times> nat list \<times> bool \<Rightarrow>
   (nat \<Rightarrow> 'a Listener) \<times> nat list \<times> bool" where
  "unregister_loop unmarshal reg_id [] st = st"
| "unregister_loop unmarshal reg_id (item # items) (h, new_registrations, found) =
     (if reg_id = item
      then unregister_loop unmarshal reg_id items (h(item := close_listener unmarshal (h item)), new_registrations, True)
      else unregister_loop unmarshal reg_id items (h, new_registrations @ [item], found))"

definition unregister :: "(bytes \<Rightarrow> 'a option) \<Rightarrow> string \<Rightarrow> nat \<Rightarrow> 'a QueuePool \<Rightarrow> 'a QueuePool \<times> bool" where
  "unregister unmarshal queue_name reg_id self =
     (case registrations self queue_name of
        None \<Rightarrow> (self, False)
      | Some regs \<Rightarrow>
          (let (h, new_registrations, found) = unregister_loop unmarshal reg_id regs (heap self, [], False);
               self = self\<lparr>heap := h\<rparr>;
               self = self\<lparr>registrations := (registrations self)(queue_name \<mapsto> new_registrations)\<rparr>;
               self = (if length new_registrations = 0
                       then self\<lparr>registrations := (registrations self)(queue_name := None)\<rparr> else self)
           in (self, found)))"

definition getRegistrations :: "string \<Rightarrow> 'a QueuePool \<Rightarrow> nat list" where
  "getRegistrations queue_name self = (case registrations self queue_name of Some r \<Rightarrow> r | None \<Rightarrow> [])"

definition send_to :: "('a \<Rightarrow> bytes result) \<Rightarrow> inputs \<Rightarrow> 'a \<Rightarrow> nat \<Rightarrow> 'a QueuePool \<Rightarrow> 'a QueuePool" where
  "send_to marshal i row reg_id self =
     self\<lparr>heap := (heap self)(reg_id := Send marshal (tempfiles i reg_id) (receivers i reg_id) (cancels i reg_id) (heap self reg_id) row)\<rparr>"

definition Broadcast :: "('a \<Rightarrow> bytes result) \<Rightarrow> inputs \<Rightarrow> string \<Rightarrow> 'a \<Rightarrow> 'a QueuePool \<Rightarrow> 'a QueuePool" where
  "Broadcast marshal i queue_name row self = fold (send_to marshal i row) (getRegistrations queue_name self) self"

text \<open>\<open>parse\<close> stands for the parsing of JSON lines; every row has its own inputs.\<close>

definition BroadcastJsonl ::
  "('a \<Rightarrow> bytes result) \<Rightarrow> (bytes \<Rightarrow> 'a list option) \<Rightarrow> (nat \<Rightarrow> inputs) \<Rightarrow> string \<Rightarrow> bytes \<Rightarrow>
   'a QueuePool \<Rightarrow> 'a QueuePool" where
  "BroadcastJsonl marshal parse i queue_name jsonl self =
     (let regs = getRegistrations queue_name self
      in if length regs > 0
         then (case parse jsonl of
                 None \<Rightarrow> self
               | Some rows \<Rightarrow> fold (\<lambda>(k, row) self. fold (send_to marshal (i k) row) regs self) (enumerate 0 rows) self)
         else self)"

text \<open>\<^verbatim>\<open>DirectoryQueueManager.Broadcast\<close>; \<open>set_ts\<close> sets the time stamp of a row.\<close>

definition manager_Broadcast ::
  "('a \<Rightarrow> bytes result) \<Rightarrow> ('a \<Rightarrow> 'a) \<Rightarrow> (nat \<Rightarrow> inputs) \<Rightarrow> string \<Rightarrow> 'a list \<Rightarrow> 'a QueuePool \<Rightarrow> 'a QueuePool" where
  "manager_Broadcast marshal set_ts i queue_name dict_rows self =
     fold (\<lambda>(k, row) self. Broadcast marshal (i k) queue_name (set_ts row) self) (enumerate 0 dict_rows) self"

section \<open>Well-formed pools\<close>

text \<open>No queue without listeners is registered, and every listener is registered once.\<close>

definition pool_ok :: "'a QueuePool \<Rightarrow> bool" where
  "pool_ok p \<longleftrightarrow>
     (\<forall>q r. registrations p q = Some r \<longrightarrow> r \<noteq> [] \<and> distinct r \<and> (\<forall>reg_id \<in> set r. reg_id \<le> next_id p)) \<and>
     (\<forall>q q' reg_id. reg_id \<in> set (getRegistrations q p) \<and> reg_id \<in> set (getRegistrations q' p) \<longrightarrow> q = q')"

lemma pool_ok_New: "pool_ok NewQueuePool"
  by (simp add: pool_ok_def NewQueuePool_def getRegistrations_def)

lemma unregister_loop_eq:
  "\<exists>h'. unregister_loop u reg_id items (h, acc, found) =
     (h', acc @ filter (\<lambda>x. x \<noteq> reg_id) items, found \<or> reg_id \<in> set items) \<and> (\<forall>x. x \<noteq> reg_id \<longrightarrow> h' x = h x) \<and>
     (distinct items \<longrightarrow> h' reg_id = (if reg_id \<in> set items then close_listener u (h reg_id) else h reg_id))"
proof (induction items arbitrary: h acc found)
  case (Cons x items)
  show ?case
  proof (cases "reg_id = x")
    case True
    define g where "g = h(x := close_listener u (h x))"
    obtain h' where "unregister_loop u reg_id items (g, acc, True) = (h', acc @ filter (\<lambda>x. x \<noteq> reg_id) items, True)"
      "\<forall>y. y \<noteq> reg_id \<longrightarrow> h' y = g y"
      "distinct items \<longrightarrow> h' reg_id = (if reg_id \<in> set items then close_listener u (g reg_id) else g reg_id)"
      using Cons.IH [of g acc True] by auto
    then show ?thesis
      using True by (intro exI [of _ h']) (auto simp: g_def)
  next
    case False
    then show ?thesis
      using Cons.IH [of h "acc @ [x]" found] by auto
  qed
qed simp

lemma unregister_regs:
  "getRegistrations q' (fst (unregister u q reg_id p)) =
     (if q' = q then filter (\<lambda>x. x \<noteq> reg_id) (getRegistrations q p) else getRegistrations q' p)"
  "registrations (fst (unregister u q reg_id p)) q' = Some r \<Longrightarrow> pool_ok p \<Longrightarrow> r \<noteq> []"
  "next_id (fst (unregister u q reg_id p)) = next_id p"
  "snd (unregister u q reg_id p) = (reg_id \<in> set (getRegistrations q p))"
  "x \<noteq> reg_id \<Longrightarrow> heap (fst (unregister u q reg_id p)) x = heap p x"
  using unregister_loop_eq [of u reg_id "case registrations p q of Some r \<Rightarrow> r | None \<Rightarrow> []" "heap p" "[]" False]
  by (auto simp: unregister_def getRegistrations_def pool_ok_def Let_def split: option.splits if_splits)

lemma regs_iff: "registrations p q = Some r \<Longrightarrow> getRegistrations q p = r"
  by (simp add: getRegistrations_def)

lemma unregister_ok:
  assumes "pool_ok p"
  shows "pool_ok (fst (unregister u q reg_id p))"
proof -
  let ?p = "fst (unregister u q reg_id p)"
  have d: "distinct (getRegistrations q' p) \<and> (\<forall>x \<in> set (getRegistrations q' p). x \<le> next_id p)" for q'
    using assms by (cases "registrations p q'") (auto simp: pool_ok_def getRegistrations_def)
  have sub: "set (getRegistrations q' ?p) \<subseteq> set (getRegistrations q' p)"
    "distinct (getRegistrations q' ?p)" for q'
    using d by (auto simp: unregister_regs(1))
  show ?thesis
    unfolding pool_ok_def
  proof (intro conjI allI impI)
    fix q' r
    assume r: "registrations ?p q' = Some r"
    show "r \<noteq> []"
      by (rule unregister_regs(2) [OF r assms])
    show "distinct r" "\<forall>x \<in> set r. x \<le> next_id ?p"
      using sub [of q'] d [of q'] regs_iff [OF r] by (auto simp: unregister_regs(3))
  next
    fix q1 q2 x
    assume "x \<in> set (getRegistrations q1 ?p) \<and> x \<in> set (getRegistrations q2 ?p)"
    then show "q1 = q2"
      using assms sub by (meson pool_ok_def subset_iff)
  qed
qed

lemma Register_regs:
  "getRegistrations q' (fst (Register sz q opt p)) =
     (if q' = q then getRegistrations q p @ [next_id p + 1] else getRegistrations q' p)"
  by (simp add: Register_def getRegistrations_def Let_def split: option.splits)

lemma Register_ok:
  assumes "pool_ok p"
  shows "pool_ok (fst (Register sz q opt p))"
proof -
  have d: "r \<noteq> [] \<and> distinct r \<and> (\<forall>x \<in> set r. x \<le> next_id p)" if "registrations p q' = Some r" for q' r
    using assms that by (simp add: pool_ok_def)
  have new: "next_id p + 1 \<notin> set (getRegistrations q' p)" for q'
    using d [of q'] by (cases "registrations p q'") (auto simp: getRegistrations_def)
  have "r \<noteq> [] \<and> distinct r \<and> (\<forall>x \<in> set r. x \<le> Suc (next_id p))"
    if "registrations (fst (Register sz q opt p)) q' = Some r" for q' r
    using that d [of q'] d [of q] by (fastforce simp: Register_def Let_def split: if_splits option.splits)
  moreover have "q1 = q2" if "x \<in> set (getRegistrations q1 (fst (Register sz q opt p)))"
    "x \<in> set (getRegistrations q2 (fst (Register sz q opt p)))" for q1 q2 x
  proof -
    have uniq: "q1 = q2" if "x \<in> set (getRegistrations q1 p)" "x \<in> set (getRegistrations q2 p)" for q1 q2 x
      using that assms unfolding pool_ok_def by blast
    show ?thesis
      using that new uniq by (auto simp: Register_regs split: if_splits)
  qed
  moreover have "next_id (fst (Register sz q opt p)) = Suc (next_id p)"
    by (simp add: Register_def Let_def)
  ultimately show ?thesis
    unfolding pool_ok_def by auto
qed

lemma fold_send:
  "registrations (fold (send_to marshal i row) ids p) = registrations p"
  "next_id (fold (send_to marshal i row) ids p) = next_id p"
  "distinct ids \<Longrightarrow> heap (fold (send_to marshal i row) ids p) x =
     (if x \<in> set ids then Send marshal (tempfiles i x) (receivers i x) (cancels i x) (heap p x) row else heap p x)"
  by (induction ids arbitrary: p) (auto simp: send_to_def)

lemma Broadcast_ok: "pool_ok p \<Longrightarrow> pool_ok (Broadcast marshal i q row p)"
  by (simp add: pool_ok_def Broadcast_def getRegistrations_def fold_send)

datatype 'a pool_op = OpRegister string QueueOptions | OpUnregister string nat | OpBroadcast string 'a inputs

fun pool_step :: "('a \<Rightarrow> bytes result) \<Rightarrow> (bytes \<Rightarrow> 'a option) \<Rightarrow> 'a pool_op \<Rightarrow> 'a QueuePool \<Rightarrow> 'a QueuePool" where
  "pool_step marshal unmarshal (OpRegister q opt) p = fst (Register None q opt p)"
| "pool_step marshal unmarshal (OpUnregister q reg_id) p = fst (unregister unmarshal q reg_id p)"
| "pool_step marshal unmarshal (OpBroadcast q row i) p = Broadcast marshal i q row p"

definition pool_run :: "('a \<Rightarrow> bytes result) \<Rightarrow> (bytes \<Rightarrow> 'a option) \<Rightarrow> 'a pool_op list \<Rightarrow> 'a QueuePool" where
  "pool_run marshal unmarshal ops = fold (pool_step marshal unmarshal) ops NewQueuePool"

lemma pool_steps_ok: "pool_ok p \<Longrightarrow> pool_ok (fold (pool_step marshal unmarshal) ops p)"
proof (induction ops arbitrary: p)
  case (Cons op ops)
  have "pool_ok (pool_step marshal unmarshal op p)"
    using Cons.prems by (cases op) (simp_all add: Register_ok unregister_ok Broadcast_ok)
  then show ?case
    using Cons.IH by simp
qed simp

lemma pool_run_ok: "pool_ok (pool_run marshal unmarshal ops)"
  unfolding pool_run_def by (rule pool_steps_ok [OF pool_ok_New])


text \<open>A registered listener is the last one of its queue until it is unregistered;
  unregistering it finds it, gives back the registrations as they were and leaves every other
  listener alone.\<close>

theorem register_unregister:
  assumes "Register sz q opt (pool_run marshal unmarshal ops) = (p', reg_id)"
    and "unregister unmarshal q reg_id p' = (p'', found)"
  shows "getRegistrations q p' = getRegistrations q (pool_run marshal unmarshal ops) @ [reg_id] \<and>
    found \<and> (\<forall>q'. getRegistrations q' p'' =
      getRegistrations q' (pool_run marshal unmarshal ops)) \<and>
    (\<forall>x. x \<noteq> reg_id \<longrightarrow> heap p'' x = heap (pool_run marshal unmarshal ops) x)"
proof -
  define p where "p = pool_run marshal unmarshal ops"
  have ok: "pool_ok p"
    unfolding p_def by (rule pool_run_ok)
  have reg_id: "reg_id = next_id p + 1" "p' = fst (Register sz q opt p)"
    using assms(1) by (auto simp: p_def Register_def Let_def)
  have "\<forall>x \<in> set (getRegistrations q p). x \<le> next_id p"
    using ok by (cases "registrations p q") (auto simp: pool_ok_def getRegistrations_def)
  then have new: "reg_id \<notin> set (getRegistrations q p)"
    using reg_id by auto
  have regs: "getRegistrations q' p' = (if q' = q then getRegistrations q p @ [reg_id] else getRegistrations q' p)" for q'
    unfolding reg_id by (simp add: Register_regs)
  have "filter (\<lambda>x. x \<noteq> reg_id) (getRegistrations q p) = getRegistrations q p"
    using new by (intro filter_True) auto
  then have "getRegistrations q' p'' = getRegistrations q' p" for q'
    using unregister_regs(1) [of q' unmarshal q reg_id p'] regs assms(2) by simp
  moreover have "found"
    using unregister_regs(4) [of unmarshal q reg_id p'] regs assms(2) by simp
  moreover have "heap p'' x = heap p x" if "x \<noteq> reg_id" for x
    using unregister_regs(5) [OF that, of unmarshal q p'] assms(2) that reg_id by (simp add: Register_def Let_def)
  ultimately show ?thesis
    using regs by (simp add: p_def)
qed

end
