(* ===== verification/Cache_Spec.thy ===== *)
theory Cache_Spec
  imports Prelude
begin

text \<open>
  What the caches of the program promise: a lookup returns the value last stored under its
  key or nothing. A cache may forget an entry at any time but never returns an old value.
\<close>

datatype ('k, 'v) cache_op = CSet 'k 'v | CGet 'k

text \<open>The values last stored, of a cache that forgets nothing.\<close>

definition stored :: "('k, 'v) cache_op list \<Rightarrow> 'k \<Rightarrow> 'v option" where
  "stored ops = fold (\<lambda>op m. case op of CSet k v \<Rightarrow> m(k \<mapsto> v) | CGet _ \<Rightarrow> m) ops Map.empty"

lemma stored_Nil [simp]: "stored [] = Map.empty"
  by (simp add: stored_def)

lemma stored_snoc [simp]:
  "stored (ops @ [CSet k v]) = (stored ops)(k \<mapsto> v)" "stored (ops @ [CGet k]) = stored ops"
  by (simp_all add: stored_def)

locale forgetful_map =
  fixes lookup :: "'s \<Rightarrow> 'k \<Rightarrow> 'v option"
    and get :: "'k \<Rightarrow> 's \<Rightarrow> 's \<times> 'v option"
    and set :: "'k \<Rightarrow> 'v \<Rightarrow> 's \<Rightarrow> 's"
    and ok :: "'s \<Rightarrow> bool"
  assumes get_ok: "ok s \<Longrightarrow> ok (fst (get k s))"
    and get_lookup: "ok s \<Longrightarrow> snd (get k s) = lookup s k"
    and get_keeps: "ok s \<Longrightarrow> lookup (fst (get k s)) k' = lookup s k'"
    and set_ok: "ok s \<Longrightarrow> ok (set k v s)"
    and set_lookup: "ok s \<Longrightarrow> lookup (set k v s) k' = Some w \<Longrightarrow>
      (if k' = k then w = v else lookup s k' = Some w)"
begin

fun cache_run :: "('k, 'v) cache_op list \<Rightarrow> 's \<Rightarrow> 's" where
  "cache_run [] s = s"
| "cache_run (CSet k v # ops) s = cache_run ops (set k v s)"
| "cache_run (CGet k # ops) s = cache_run ops (fst (get k s))"

lemma cache_run_append: "cache_run (xs @ ys) s = cache_run ys (cache_run xs s)"
  by (induction xs s rule: cache_run.induct) simp_all

lemma never_stale:
  assumes "ok s" and "\<And>k. lookup s k = None"
  shows "ok (cache_run ops s) \<and> (\<forall>k w. lookup (cache_run ops s) k = Some w \<longrightarrow> stored ops k = Some w)"
proof (induction ops rule: rev_induct)
  case Nil
  then show ?case
    using assms by simp
next
  case (snoc op ops)
  then show ?case
  proof (cases op)
    case (CSet k v)
    have ok: "ok (cache_run ops s)"
      using snoc by blast
    have "stored (ops @ [op]) k' = Some w" if "lookup (set k v (cache_run ops s)) k' = Some w" for k' w
      using set_lookup [OF ok that] snoc CSet by (cases "k' = k") simp_all
    then show ?thesis
      using set_ok [OF ok] CSet by (simp add: cache_run_append)
  next
    case (CGet k)
    then show ?thesis
      using snoc get_ok get_keeps by (simp add: cache_run_append)
  qed
qed

end

end
