(* ===== verification/Lru.thy ===== *)
theory Lru
  imports Cache_Spec
begin

text \<open>
  The cache of pages, \<^verbatim>\<open>utils/lru.go\<close>. The doubly linked list of entries is a list of keys and
  values, the most recently used first, and the map from keys to list elements is the set of
  its keys; the invariant \<open>lru_ok\<close> says that the two agree. \<open>evicted\<close> records the calls of the
  eviction callback.
\<close>

section \<open>Definitions\<close>

record 'v LRU =
  lru_size :: int
  evictList :: "(int \<times> 'v) list"
  items :: "int set"
  evicted :: "(int \<times> 'v) list"
  hits :: int
  miss :: int
  total :: int

definition NewLRU :: "int \<Rightarrow> 'v LRU result" where
  "NewLRU sz =
     (if sz \<le> 0 then Err (Errorf ''Must provide a positive size'')
      else Ok \<lparr>lru_size = sz, evictList = [], items = {}, evicted = [], hits = 0, miss = 0, total = 0\<rparr>)"

text \<open>The element a key maps to.\<close>

definition element :: "int \<Rightarrow> 'v LRU \<Rightarrow> 'v option" where
  "element key self = map_of (evictList self) key"

definition MoveToFront :: "int \<Rightarrow> 'v \<Rightarrow> 'v LRU \<Rightarrow> 'v LRU" where
  "MoveToFront key value self =
     self\<lparr>evictList := (key, value) # filter (\<lambda>e. fst e \<noteq> key) (evictList self)\<rparr>"

text \<open>The order in which \<^verbatim>\<open>Purge\<close> calls the callback is that of the map: any order.\<close>

definition Purge :: "'v LRU \<Rightarrow> 'v LRU" where
  "Purge self = self\<lparr>evicted := evicted self @ evictList self, items := {}, evictList := []\<rparr>"

definition removeElement :: "int \<times> 'v \<Rightarrow> 'v LRU \<Rightarrow> 'v LRU" where
  "removeElement e self =
     self\<lparr>evictList := filter (\<lambda>x. fst x \<noteq> fst e) (evictList self),
          items := items self - {fst e}, evicted := evicted self @ [e]\<rparr>"

definition removeOldest :: "'v LRU \<Rightarrow> 'v LRU" where
  "removeOldest self =
     (if evictList self = [] then self else removeElement (last (evictList self)) self)"

definition Add :: "int \<Rightarrow> 'v \<Rightarrow> 'v LRU \<Rightarrow> 'v LRU \<times> bool" where
  "Add key value self =
     (let self = self\<lparr>total := i64 (total self + 1)\<rparr>
      in if key \<in> items self then (MoveToFront key value self, False)
         else (let self = self\<lparr>evictList := (key, value) # evictList self, items := insert key (items self)\<rparr>;
                   evict = (int (length (evictList self)) > lru_size self);
                   self = (if evict then removeOldest self else self)
               in (self, evict)))"

definition Touch :: "int \<Rightarrow> 'v LRU \<Rightarrow> 'v LRU" where
  "Touch key self =
     (if key \<in> items self
      then (case element key self of Some v \<Rightarrow> MoveToFront key v self | None \<Rightarrow> self) else self)"

definition Get :: "int \<Rightarrow> 'v LRU \<Rightarrow> 'v LRU \<times> 'v option" where
  "Get key self =
     (if key \<in> items self
      then (case element key self of
              Some v \<Rightarrow> ((MoveToFront key v self)\<lparr>hits := i64 (hits self + 1)\<rparr>, Some v)
            | None \<Rightarrow> (self, None))
      else (self\<lparr>miss := i64 (miss self + 1)\<rparr>, None))"

definition Contains :: "int \<Rightarrow> 'v LRU \<Rightarrow> bool" where
  "Contains key self \<longleftrightarrow> key \<in> items self"

definition Peek :: "int \<Rightarrow> 'v LRU \<Rightarrow> 'v option" where
  "Peek key self = (if key \<in> items self then element key self else None)"

definition Remove :: "int \<Rightarrow> 'v LRU \<Rightarrow> 'v LRU \<times> bool" where
  "Remove key self =
     (if key \<in> items self
      then (case element key self of Some v \<Rightarrow> (removeElement (key, v) self, True) | None \<Rightarrow> (self, True))
      else (self, False))"

definition RemoveOldest :: "'v LRU \<Rightarrow> 'v LRU \<times> (int \<times> 'v) option" where
  "RemoveOldest self =
     (if evictList self = [] then (self, None)
      else (removeElement (last (evictList self)) self, Some (last (evictList self))))"

definition GetOldest :: "'v LRU \<Rightarrow> (int \<times> 'v) option" where
  "GetOldest self = (if evictList self = [] then None else Some (last (evictList self)))"

definition Keys :: "'v LRU \<Rightarrow> int list" where
  "Keys self = rev (map fst (evictList self))"

definition Len :: "'v LRU \<Rightarrow> nat" where
  "Len self = length (evictList self)"

section \<open>The invariant\<close>

definition lru_ok :: "'v LRU \<Rightarrow> bool" where
  "lru_ok self \<longleftrightarrow> distinct (map fst (evictList self)) \<and> items self = set (map fst (evictList self)) \<and>
     0 < lru_size self \<and> int (length (evictList self)) \<le> lru_size self"

lemma lru_ok_New: "NewLRU sz = Ok c \<Longrightarrow> lru_ok c \<and> evictList c = []"
  by (auto simp: NewLRU_def lru_ok_def split: if_splits)

lemma items_element: "lru_ok c \<Longrightarrow> (key \<in> items c) = (element key c \<noteq> None)"
  by (auto simp: lru_ok_def element_def map_of_eq_None_iff)

lemma Peek_element: "lru_ok c \<Longrightarrow> Peek key c = element key c"
  using items_element [of c key] by (simp add: Peek_def)

lemma distinct_filter_keys: "distinct (map fst xs) \<Longrightarrow> distinct (map fst (filter P xs))"
  by (induction xs) auto

lemma filter_key_id: "key \<notin> fst ` set xs \<Longrightarrow> filter (\<lambda>e. fst e \<noteq> key) xs = xs"
  by (induction xs) auto

lemma length_filter_key:
  "distinct (map fst xs) \<Longrightarrow> key \<in> fst ` set xs \<Longrightarrow> Suc (length (filter (\<lambda>e. fst e \<noteq> key) xs)) = length xs"
  by (induction xs) (auto simp: filter_key_id)

lemma map_of_filter_key: "map_of (filter (\<lambda>e. fst e \<noteq> key) xs) k = (if k = key then None else map_of xs k)"
  by (induction xs) auto

lemma MoveToFront_ok:
  assumes "lru_ok c" and "key \<in> items c"
  shows "lru_ok (MoveToFront key v c)" "element k (MoveToFront key v c) = (if k = key then Some v else element k c)"
  using assms distinct_filter_keys [of "evictList c" "\<lambda>e. fst e \<noteq> key"] length_filter_key [of "evictList c" key]
  by (auto simp: lru_ok_def MoveToFront_def element_def map_of_filter_key)

lemma last_filter:
  "distinct (map fst xs) \<Longrightarrow> xs \<noteq> [] \<Longrightarrow> filter (\<lambda>e. fst e \<noteq> fst (last xs)) xs = butlast xs"
  by (cases xs rule: rev_cases) (auto simp: filter_key_id)

lemma removeElement_ok:
  assumes "lru_ok c"
  shows "lru_ok (removeElement e c)" "element k (removeElement e c) = (if k = fst e then None else element k c)"
  using assms distinct_filter_keys [of "evictList c" "\<lambda>x. fst x \<noteq> fst e"]
  by (auto simp: lru_ok_def removeElement_def element_def map_of_filter_key
      intro: order_trans [OF iffD2 [OF of_nat_le_iff length_filter_le]])

text \<open>Adding a new key to the list, before the oldest entry is evicted.\<close>

lemma Add_new:
  assumes "lru_ok c" and "key \<notin> items c" and "Add key v c = (c', e)"
  shows "evictList c' = take (nat (lru_size c)) ((key, v) # evictList c)" "lru_size c' = lru_size c"
    "items c' = set (map fst (evictList c'))"
proof -
  define xs where "xs = (key, v) # evictList c"
  have d: "distinct (map fst xs)" and len: "int (length xs) \<le> lru_size c + 1" and pos: "0 < lru_size c"
    and it: "insert key (items c) = set (map fst xs)"
    using assms(1,2) by (auto simp: lru_ok_def xs_def)
  have key: "fst (last xs) \<notin> set (map fst (butlast xs))"
    using d by (cases xs rule: rev_cases) auto
  have split: "set (map fst xs) = insert (fst (last xs)) (set (map fst (butlast xs)))"
    by (cases xs rule: rev_cases) (auto simp: xs_def)
  have "evictList c' = take (nat (lru_size c)) xs \<and> lru_size c' = lru_size c \<and> items c' = set (map fst (evictList c'))"
  proof (cases "int (length xs) > lru_size c")
    case True
    then have "nat (lru_size c) = length xs - 1"
      using len pos by linarith
    then have "take (nat (lru_size c)) xs = butlast xs"
      by (simp add: butlast_conv_take)
    moreover have "c' = removeOldest (c\<lparr>total := i64 (total c + 1), evictList := xs, items := insert key (items c)\<rparr>)"
      using True assms(2,3) by (auto simp: Add_def Let_def xs_def)
    then have "evictList c' = butlast xs" "lru_size c' = lru_size c" "items c' = set (map fst xs) - {fst (last xs)}"
      using last_filter [OF d] it by (simp_all add: removeOldest_def removeElement_def xs_def)
    ultimately show ?thesis
      using key split by auto
  next
    case False
    then have "c' = c\<lparr>total := i64 (total c + 1), evictList := xs, items := insert key (items c)\<rparr>"
      using assms(2,3) by (auto simp: Add_def Let_def xs_def)
    moreover have "take (nat (lru_size c)) xs = xs"
      using False by simp
    ultimately show ?thesis
      using it by (simp del: set_map)
  qed
  then show "evictList c' = take (nat (lru_size c)) ((key, v) # evictList c)" "lru_size c' = lru_size c"
    "items c' = set (map fst (evictList c'))"
    by (simp_all add: xs_def)
qed

lemma Add_ok:
  assumes "lru_ok c" and "Add key v c = (c', e)"
  shows "lru_ok c' \<and> lru_size c' = lru_size c \<and> element key c' = Some v \<and>
    (\<forall>k w. element k c' = Some w \<longrightarrow> k = key \<and> w = v \<or> element k c = Some w)"
proof (cases "key \<in> items c")
  case True
  define c1 where "c1 = c\<lparr>total := i64 (total c + 1)\<rparr>"
  have "lru_ok c1" "key \<in> items c1" "\<And>k. element k c1 = element k c" "lru_size c1 = lru_size c"
    using assms(1) True by (simp_all add: c1_def lru_ok_def element_def)
  moreover have "c' = MoveToFront key v c1"
    using assms(2) True by (simp add: Add_def c1_def)
  ultimately show ?thesis
    using MoveToFront_ok(1) [of c1 key v] MoveToFront_ok(2) [of c1 key _ v] by (auto simp: MoveToFront_def)
next
  case False
  note a = Add_new [OF assms(1) False assms(2)]
  have key: "key \<notin> fst ` set (evictList c)" and pos: "0 < lru_size c"
    using False assms(1) by (auto simp: lru_ok_def)
  obtain n where n: "nat (lru_size c) = Suc n"
    using pos by (metis gr0_implies_Suc zero_less_nat_eq)
  have ev: "evictList c' = (key, v) # take n (evictList c)"
    using a(1) n by simp
  have "distinct (map fst (take n (evictList c)))"
    using assms(1) by (simp add: lru_ok_def flip: take_map)
  moreover have "key \<notin> fst ` set (take n (evictList c))"
    using key by (meson image_mono in_mono set_take_subset)
  ultimately have ok: "lru_ok c'"
    using ev a n pos by (simp add: lru_ok_def)
  have "element k c = Some w" if "element k c' = Some w" "k \<noteq> key" for k w
  proof -
    have "map_of (take n (evictList c)) k = Some w"
      using that ev by (simp add: element_def)
    then have "(k, w) \<in> set (evictList c)"
      by (meson map_of_SomeD in_set_takeD)
    then show ?thesis
      using assms(1) by (simp add: element_def lru_ok_def)
  qed
  then show ?thesis
    using ok a(2) ev by (auto simp: element_def)
qed

lemma Get_ok:
  assumes "lru_ok c" and "Get key c = (c', r)"
  shows "lru_ok c' \<and> lru_size c' = lru_size c \<and> r = element key c \<and> (\<forall>k. element k c' = element k c)"
proof (cases "key \<in> items c")
  case True
  then obtain v where v: "element key c = Some v"
    using items_element [OF assms(1)] by auto
  have "c' = (MoveToFront key v c)\<lparr>hits := i64 (hits c + 1)\<rparr>" "r = Some v"
    using assms(2) True v by (auto simp: Get_def)
  then show ?thesis
    using MoveToFront_ok(1) [OF assms(1) True, of v] MoveToFront_ok(2) [OF assms(1) True, of _ v] v by (auto simp: lru_ok_def element_def MoveToFront_def)
next
  case False
  then show ?thesis
  proof -
    have "c' = c\<lparr>miss := i64 (miss c + 1)\<rparr>" "r = None"
      using assms(2) False by (auto simp: Get_def)
    moreover have "element key c = None"
      using False items_element [OF assms(1)] by simp
    ultimately show ?thesis
      using assms(1) by (simp add: lru_ok_def element_def)
  qed
qed

text \<open>The cache never returns a stale page.\<close>

interpretation lcache: forgetful_map "\<lambda>c k. element k c" Get "\<lambda>k v c. fst (Add k v c)" lru_ok
proof (unfold_locales, goal_cases)
  case (4 s k v)
  then show ?case
    using Add_ok [OF 4 prod.collapse [symmetric]] by blast
next
  case (5 s k v k' w)
  then show ?case
    using Add_ok [OF 5(1) prod.collapse [symmetric], of k v] by auto
qed (use Get_ok [OF _ prod.collapse [symmetric]] in blast)+

section \<open>The most recently used entries\<close>

text \<open>The specification keeps every entry ever added, the last used first. The cache holds the
  front of this list.\<close>

datatype 'v lru_op = LAdd int 'v | LGet int | LTouch int

fun lru_step :: "'v lru_op \<Rightarrow> 'v LRU \<Rightarrow> 'v LRU" where
  "lru_step (LAdd k v) c = fst (Add k v c)"
| "lru_step (LGet k) c = fst (Get k c)"
| "lru_step (LTouch k) c = Touch k c"

definition mru_use :: "nat \<Rightarrow> int \<Rightarrow> (int \<times> 'v) list \<Rightarrow> (int \<times> 'v) list" where
  "mru_use n k m =
     (case map_of (take n m) k of None \<Rightarrow> m | Some v \<Rightarrow> (k, v) # filter (\<lambda>e. fst e \<noteq> k) m)"

fun mru_step :: "nat \<Rightarrow> 'v lru_op \<Rightarrow> (int \<times> 'v) list \<Rightarrow> (int \<times> 'v) list" where
  "mru_step n (LAdd k v) m = (k, v) # filter (\<lambda>e. fst e \<noteq> k) m"
| "mru_step n (LGet k) m = mru_use n k m"
| "mru_step n (LTouch k) m = mru_use n k m"

lemma take_filter_key:
  assumes "distinct (map fst m)"
  shows "take n (filter (\<lambda>e. fst e \<noteq> k) m) =
    (if k \<in> fst ` set (take (Suc n) m) then filter (\<lambda>e. fst e \<noteq> k) (take (Suc n) m) else take n m)"
  using assms
proof (induction m arbitrary: n)
  case (Cons x m)
  show ?case
  proof (cases "fst x = k")
    case True
    then have "k \<notin> fst ` set m" "k \<notin> fst ` set (take n m)"
      using Cons.prems by (auto dest: in_set_takeD)
    with True show ?thesis
      by (simp add: filter_key_id)
  next
    case False
    then show ?thesis
      using Cons by (cases n) auto
  qed
qed simp

definition lru_rel :: "'v LRU \<Rightarrow> (int \<times> 'v) list \<Rightarrow> bool" where
  "lru_rel c m \<longleftrightarrow> lru_ok c \<and> distinct (map fst m) \<and> evictList c = take (nat (lru_size c)) m"

lemma lru_rel_front:
  assumes "lru_rel c m" and "evictList c' = take (nat (lru_size c)) ((k, v) # evs)" and "lru_ok c'"
    and "lru_size c' = lru_size c" and "k \<in> items c \<Longrightarrow> evs = filter (\<lambda>e. fst e \<noteq> k) (evictList c)"
    and "k \<notin> items c \<Longrightarrow> evs = evictList c"
  shows "lru_rel c' ((k, v) # filter (\<lambda>e. fst e \<noteq> k) m)"
proof -
  obtain n where n: "nat (lru_size c) = Suc n"
    using assms(1) by (metis gr0_implies_Suc lru_ok_def lru_rel_def zero_less_nat_eq)
  have d: "distinct (map fst m)" and ev: "evictList c = take (Suc n) m"
    and it: "items c = fst ` set (evictList c)"
    using assms(1) n by (simp_all add: lru_rel_def lru_ok_def)
  have "take n evs = take n (filter (\<lambda>e. fst e \<noteq> k) m)"
  proof (cases "k \<in> items c")
    case True
    then have "take n (filter (\<lambda>e. fst e \<noteq> k) m) = filter (\<lambda>e. fst e \<noteq> k) (evictList c)"
      using take_filter_key [OF d, of n k] it ev by simp
    then show ?thesis
      using assms(5) [OF True] by (metis length_take min.cobounded2 take_all_iff)
  next
    case False
    then show ?thesis
      using take_filter_key [OF d, of n k] it ev assms(6) by simp
  qed
  then show ?thesis
    using assms(2-4) n d by (auto simp: lru_rel_def distinct_filter_keys)
qed

lemma element_take: "lru_rel c m \<Longrightarrow> element k c = map_of (take (nat (lru_size c)) m) k"
  by (simp add: lru_rel_def element_def)

lemma take_MoveToFront:
  assumes "lru_ok c" and "k \<in> items c"
  shows "evictList (MoveToFront k v c) = take (nat (lru_size c)) ((k, v) # filter (\<lambda>e. fst e \<noteq> k) (evictList c))"
proof -
  have "Suc (length (filter (\<lambda>e. fst e \<noteq> k) (evictList c))) \<le> nat (lru_size c)"
    using assms length_filter_key [of "evictList c" k] by (auto simp: lru_ok_def)
  then show ?thesis
    by (simp add: MoveToFront_def)
qed

lemma use_rel:
  assumes rel: "lru_rel c m" and k: "k \<in> items c" and v: "element k c = Some v"
    and c': "evictList c' = evictList (MoveToFront k v c)" "items c' = items c" "lru_size c' = lru_size c"
  shows "lru_rel c' (mru_use (nat (lru_size c)) k m)"
proof -
  have ok: "lru_ok c"
    using rel by (simp add: lru_rel_def)
  have "lru_ok c'"
    using MoveToFront_ok(1) [OF ok k, of v] c' by (simp add: lru_ok_def MoveToFront_def)
  then have "lru_rel c' ((k, v) # filter (\<lambda>e. fst e \<noteq> k) m)"
    using lru_rel_front [OF rel, of c' k v] c' take_MoveToFront [OF ok k] k by auto
  moreover have "map_of (take (nat (lru_size c)) m) k = Some v"
    using v element_take [OF rel] by simp
  ultimately show ?thesis
    by (simp add: mru_use_def)
qed

lemma lru_rel_miss [simp]: "lru_rel (c\<lparr>miss := n\<rparr>) m = lru_rel c m"
  by (simp add: lru_rel_def lru_ok_def)

lemma step_rel:
  assumes rel: "lru_rel c m"
  shows "lru_rel (lru_step op c) (mru_step (nat (lru_size c)) op m) \<and> lru_size (lru_step op c) = lru_size c"
proof -
  have ok: "lru_ok c"
    using rel by (simp add: lru_rel_def)
  have absent: "mru_use (nat (lru_size c)) k m = m" if "k \<notin> items c" for k
    using that items_element [OF ok] element_take [OF rel] by (simp add: mru_use_def)
  show ?thesis
  proof (cases op)
    case (LAdd k v)
    obtain c' e where a: "Add k v c = (c', e)"
      by fastforce
    have "evictList c' = take (nat (lru_size c)) ((k, v) #
        (if k \<in> items c then filter (\<lambda>e. fst e \<noteq> k) (evictList c) else evictList c))"
    proof (cases "k \<in> items c")
      case True
      then have "evictList c' = evictList (MoveToFront k v c)"
        using a by (auto simp: Add_def MoveToFront_def)
      then show ?thesis
        using take_MoveToFront [OF ok True] True by simp
    next
      case False
      then show ?thesis
        using Add_new(1) [OF ok False a] by simp
    qed
    then show ?thesis
      using lru_rel_front [OF rel, of c' k v] Add_ok [OF ok a] a LAdd by simp
  next
    case (LGet k)
    show ?thesis
    proof (cases "k \<in> items c")
      case True
      then obtain v where v: "element k c = Some v"
        using items_element [OF ok] by auto
      then show ?thesis
        using use_rel [OF rel True v, of "fst (Get k c)"] True LGet by (simp add: Get_def MoveToFront_def)
    next
      case False
      then show ?thesis
        using rel absent [OF False] LGet False by (simp add: Get_def)
    qed
  next
    case (LTouch k)
    show ?thesis
    proof (cases "k \<in> items c")
      case True
      then obtain v where v: "element k c = Some v"
        using items_element [OF ok] by auto
      then show ?thesis
        using use_rel [OF rel True v, of "Touch k c"] True LTouch by (simp add: Touch_def MoveToFront_def)
    next
      case False
      then show ?thesis
        using rel absent [OF False] LTouch False by (simp add: Touch_def)
    qed
  qed
qed

lemma run_rel:
  assumes "lru_rel c m"
  shows "lru_rel (fold lru_step ops c) (fold (mru_step (nat (lru_size c))) ops m) \<and>
    lru_size (fold lru_step ops c) = lru_size c"
  using assms
proof (induction ops arbitrary: c m)
  case (Cons op ops)
  have "lru_rel (lru_step op c) (mru_step (nat (lru_size c)) op m)" "lru_size (lru_step op c) = lru_size c"
    using step_rel [OF Cons.prems, of op] by blast+
  then show ?case
    using Cons.IH [of "lru_step op c" "mru_step (nat (lru_size c)) op m"] by simp
qed simp

text \<open>C29: After any sequence of additions and lookups the cache holds exactly the most recently
  used entries, as many as its size allows, in order of their last use, each with the value
  last added for its key; a lookup finds these entries and no other.\<close>

theorem lru_most_recent:
  assumes "NewLRU sz = Ok c"
  shows "evictList (fold lru_step ops c) = take (nat sz) (fold (mru_step (nat sz)) ops []) \<and>
    snd (Get k (fold lru_step ops c)) = map_of (take (nat sz) (fold (mru_step (nat sz)) ops [])) k \<and>
    Keys (fold lru_step ops c) = rev (map fst (take (nat sz) (fold (mru_step (nat sz)) ops [])))"
proof -
  have sz: "lru_size c = sz"
    using assms by (auto simp: NewLRU_def split: if_splits)
  have "lru_rel c []"
    using lru_ok_New [OF assms] by (simp add: lru_rel_def)
  note r = run_rel [OF this, of ops, unfolded sz]
  define c' where "c' = fold lru_step ops c"
  define m where "m = fold (mru_step (nat sz)) ops []"
  have rel: "lru_rel c' m" "lru_size c' = sz"
    using r by (simp_all add: c'_def m_def)
  have ev: "evictList c' = take (nat sz) m"
    using rel by (simp add: lru_rel_def)
  have "lru_ok c'"
    using rel(1) by (simp only: lru_rel_def)
  then have "snd (Get k c') = element k c'"
    using Get_ok [of c' k "fst (Get k c')" "snd (Get k c')"] by simp
  with ev show ?thesis
    by (simp add: element_def Keys_def c'_def [symmetric] m_def [symmetric])
qed

theorem lru_most_recent_witness:
  "evictList (fold lru_step [LAdd 1 ''a'', LAdd 2 ''b'', LGet 1, LAdd 3 ''c'']
     \<lparr>lru_size = 2, evictList = [], items = {}, evicted = [], hits = 0, miss = 0, total = 0\<rparr>) =
   [(3, ''c''), (1, ''a'')]"
proof -
  have "NewLRU 2 = Ok \<lparr>lru_size = 2, evictList = [], items = {}, evicted = [], hits = 0, miss = 0, total = 0\<rparr>"
    by (simp add: NewLRU_def)
  from lru_most_recent [OF this, of "[LAdd 1 ''a'', LAdd 2 ''b'', LGet 1, LAdd 3 ''c'']" 0]
  show ?thesis
    by (simp add: mru_use_def numeral_2_eq_2)
qed

end
