(* ===== verification/Paged_Reader.thy ===== *)
theory Paged_Reader
  imports Lru Byte_File
begin

text \<open>
  Reading a file through a cache of pages, \<^verbatim>\<open>utils/paged_reader.go\<close>. A page is a buffer of the
  page size with the number of bytes that were read into it; buffers are recycled through a
  free list, with whatever they held. \<open>reader\<close> is the underlying \<^verbatim>\<open>io.ReaderAt\<close>: for a length
  and an offset the bytes read and an error. Offsets and sizes are natural numbers: no caller
  passes a negative one. The loop is defined for any cache; the locale \<open>page_cache\<close> says what
  it needs of one, and the cache of \<open>Lru\<close> provides it.
\<close>

section \<open>Definitions\<close>

type_synonym page = "bytes \<times> nat"

record 'c PagedReader =
  pagesize :: nat
  cache :: 'c
  file_size :: nat
  freelist :: "bytes list"
  Hits :: nat
  Miss :: nat

definition FreeList_Get :: "'c PagedReader \<Rightarrow> bytes \<times> 'c PagedReader" where
  "FreeList_Get self =
     (if length (freelist self) = 0 then (replicate (pagesize self) 0, self)
      else (last (freelist self), self\<lparr>freelist := butlast (freelist self)\<rparr>))"

definition FreeList_Put :: "bytes \<Rightarrow> 'c PagedReader \<Rightarrow> 'c PagedReader" where
  "FreeList_Put buf self = self\<lparr>freelist := freelist self @ [buf]\<rparr>"

text \<open>The page of a number: from the cache or read into a free buffer, which goes to the cache.
  The pages the cache evicts go to the free list. An error ends the read.\<close>

definition fetch_page ::
  "(nat \<Rightarrow> nat \<Rightarrow> bytes \<times> go_error option) \<Rightarrow> (nat \<Rightarrow> 'c \<Rightarrow> 'c \<times> page option) \<Rightarrow>
   (nat \<Rightarrow> page \<Rightarrow> 'c \<Rightarrow> 'c \<times> page list) \<Rightarrow> nat \<Rightarrow> 'c PagedReader \<Rightarrow> 'c PagedReader \<times> bytes result" where
  "fetch_page reader get add page_number self =
     (case get page_number (cache self) of
        (c, Some (buf, n)) \<Rightarrow> (self\<lparr>cache := c, Hits := Hits self + 1\<rparr>, Ok (take n buf))
      | (c, None) \<Rightarrow>
          (let self = self\<lparr>cache := c, Miss := Miss self + 1\<rparr>;
               (page_buf, self) = FreeList_Get self;
               (data, err) = reader (pagesize self) (page_number * pagesize self)
           in if err \<noteq> None \<and> err \<noteq> Some EOF then (self, Err (the err))
              else if length data = 0 then (self, Err EOF)
              else (let page = (data @ drop (length data) page_buf, length data);
                        (c, evicted) = add page_number page (cache self);
                        self = fold (\<lambda>p. FreeList_Put (fst p)) evicted (self\<lparr>cache := c\<rparr>)
                    in (self, Ok data))))"

text \<open>The loop of \<^verbatim>\<open>ReadAt\<close>: \<open>out\<close> is the part of the buffer of length \<open>n\<close> filled so far.\<close>

function read_loop ::
  "('c PagedReader \<Rightarrow> nat \<Rightarrow> 'c PagedReader \<times> bytes result) \<Rightarrow> nat \<Rightarrow> nat \<Rightarrow> nat \<Rightarrow> bytes \<Rightarrow>
   'c PagedReader \<Rightarrow> 'c PagedReader \<times> bytes \<times> go_error option" where
  "read_loop fetch ps n off out self =
     (if ps = 0 then (self, out, Some (Panic ''integer divide by zero''))
      else
        (let to_read = min (ps - off mod ps) (n - length out)
         in if to_read = 0 then (self, out, None)
            else (case fetch self (off div ps) of
              (self, Err e) \<Rightarrow> (self, out, Some e)
            | (self, Ok page_buf) \<Rightarrow>
                if off mod ps > length page_buf then (self, [], Some EOF)
                else if off mod ps + to_read > length page_buf
                  then (self, out @ drop (off mod ps) page_buf, Some EOF)
                else read_loop fetch ps n (off + to_read)
                       (out @ take to_read (drop (off mod ps) page_buf)) self)))"
  by pat_completeness auto
termination
  by (relation "measure (\<lambda>(_, _, n, _, out, _). n - length out)")
    (auto intro!: diff_less_mono2)

declare read_loop.simps [simp del]

definition ReadAt_paged ::
  "(nat \<Rightarrow> nat \<Rightarrow> bytes \<times> go_error option) \<Rightarrow> (nat \<Rightarrow> 'c \<Rightarrow> 'c \<times> page option) \<Rightarrow>
   (nat \<Rightarrow> page \<Rightarrow> 'c \<Rightarrow> 'c \<times> page list) \<Rightarrow> nat \<Rightarrow> nat \<Rightarrow> 'c PagedReader \<Rightarrow>
   'c PagedReader \<times> bytes \<times> go_error option" where
  "ReadAt_paged reader get add n off self =
     (if file_size self > 0 \<and> off \<ge> file_size self then (self, [], Some EOF)
      else
        (let n = (if file_size self > 0 \<and> n + off > file_size self then file_size self - off else n)
         in read_loop (\<lambda>s pn. fetch_page reader get add pn s) (pagesize self) n off [] self))"

definition SetSize :: "nat \<Rightarrow> 'c PagedReader \<Rightarrow> 'c PagedReader" where
  "SetSize sz self = self\<lparr>file_size := sz\<rparr>"

text \<open>The cache of the code, with the pages its eviction callback is called for.\<close>

definition page_get :: "nat \<Rightarrow> page LRU \<Rightarrow> page LRU \<times> page option" where
  "page_get pn c = Get (int pn) c"

definition page_add :: "nat \<Rightarrow> page \<Rightarrow> page LRU \<Rightarrow> page LRU \<times> page list" where
  "page_add pn page c =
     (let c' = fst (Add (int pn) page c) in (c', map snd (drop (length (evicted c)) (evicted c'))))"

definition PagedReadAt ::
  "(nat \<Rightarrow> nat \<Rightarrow> bytes \<times> go_error option) \<Rightarrow> nat \<Rightarrow> nat \<Rightarrow> page LRU PagedReader \<Rightarrow>
   page LRU PagedReader \<times> bytes \<times> go_error option" where
  "PagedReadAt reader n off self = ReadAt_paged reader page_get page_add n off self"

text \<open>\<^verbatim>\<open>Flush\<close>, whose callback returns every page to the free list.\<close>

definition Flush :: "page LRU PagedReader \<Rightarrow> page LRU PagedReader" where
  "Flush self =
     fold (\<lambda>e. FreeList_Put (fst (snd e))) (evictList (cache self)) (self\<lparr>cache := Purge (cache self)\<rparr>)"

definition NewPagedReader :: "nat \<Rightarrow> int \<Rightarrow> page LRU PagedReader result" where
  "NewPagedReader ps cache_size =
     (case NewLRU cache_size of
        Err e \<Rightarrow> Err e
      | Ok c \<Rightarrow> Ok \<lparr>pagesize = ps, cache = c, file_size = 0, freelist = [], Hits = 0, Miss = 0\<rparr>)"

section \<open>Reading through a cache\<close>

text \<open>A file that does not change, and its pages.\<close>

definition direct :: "bytes \<Rightarrow> nat \<Rightarrow> nat \<Rightarrow> bytes \<times> go_error option" where
  "direct c n off = (take n (drop off c), if length (take n (drop off c)) < n then Some EOF else None)"

definition page_of :: "bytes \<Rightarrow> nat \<Rightarrow> nat \<Rightarrow> bytes" where
  "page_of c ps pn = take ps (drop (pn * ps) c)"

text \<open>The direct read of a request, cut off at the size that was set (0 if none was).\<close>

definition direct_limited :: "nat \<Rightarrow> bytes \<Rightarrow> nat \<Rightarrow> nat \<Rightarrow> bytes \<times> go_error option" where
  "direct_limited sz c n off =
     (if sz > 0 \<and> off \<ge> sz then ([], Some EOF)
      else direct c (if sz > 0 then min n (sz - off) else n) off)"

text \<open>What the reader needs of a cache: a lookup returns a cached page and keeps all of them;
  adding a page makes no other page appear.\<close>

locale page_cache =
  fixes get :: "nat \<Rightarrow> 'c \<Rightarrow> 'c \<times> page option"
    and add :: "nat \<Rightarrow> page \<Rightarrow> 'c \<Rightarrow> 'c \<times> page list"
    and ok :: "'c \<Rightarrow> bool"
    and has :: "'c \<Rightarrow> nat \<Rightarrow> page \<Rightarrow> bool"
  assumes get_ok: "ok c \<Longrightarrow> get pn c = (c', r) \<Longrightarrow> ok c' \<and> (\<forall>k p. has c' k p \<longrightarrow> has c k p)"
    and get_has: "ok c \<Longrightarrow> get pn c = (c', Some p) \<Longrightarrow> has c pn p"
    and add_ok: "ok c \<Longrightarrow> add pn p c = (c', ev) \<Longrightarrow>
      ok c' \<and> (\<forall>k q. has c' k q \<longrightarrow> k = pn \<and> q = p \<or> has c k q)"
begin

definition caches :: "bytes \<Rightarrow> nat \<Rightarrow> 'c PagedReader \<Rightarrow> bool" where
  "caches c ps r \<longleftrightarrow> pagesize r = ps \<and> ok (cache r) \<and>
     (\<forall>pn p. has (cache r) pn p \<longrightarrow> take (snd p) (fst p) = page_of c ps pn \<and> page_of c ps pn \<noteq> [])"

lemma fold_Put [simp]:
  "pagesize (fold (\<lambda>p. FreeList_Put (fst p)) ev r) = pagesize r"
  "cache (fold (\<lambda>p. FreeList_Put (fst p)) ev r) = cache r"
  "file_size (fold (\<lambda>p. FreeList_Put (fst p)) ev r) = file_size r"
  by (induction ev arbitrary: r) (auto simp: FreeList_Put_def)

lemma fetch_page_ok:
  assumes inv: "caches c ps r" and f: "fetch_page (direct c) get add pn r = (r', res)"
  shows "caches c ps r' \<and> file_size r' = file_size r \<and>
    res = (if page_of c ps pn = [] then Err EOF else Ok (page_of c ps pn))"
proof -
  obtain c1 p1 where g: "get pn (cache r) = (c1, p1)"
    by fastforce
  have ok: "ok (cache r)" "pagesize r = ps"
    and pages: "\<And>pn p. has (cache r) pn p \<Longrightarrow> take (snd p) (fst p) = page_of c ps pn \<and> page_of c ps pn \<noteq> []"
    using inv by (auto simp: caches_def)
  have ok1: "ok c1" "\<And>k p. has c1 k p \<Longrightarrow> has (cache r) k p"
    using get_ok [OF ok(1) g] by auto
  have pages1: "take (snd p) (fst p) = page_of c ps k \<and> page_of c ps k \<noteq> []" if "has c1 k p" for k p
    using ok1(2) [OF that] pages by blast
  show ?thesis
  proof (cases p1)
    case (Some p)
    then have "has (cache r) pn p"
      using get_has [OF ok(1)] g by simp
    then have "take (snd p) (fst p) = page_of c ps pn" "page_of c ps pn \<noteq> []"
      using pages by blast+
    moreover have "r' = r\<lparr>cache := c1, Hits := Hits r + 1\<rparr>" "res = Ok (take (snd p) (fst p))"
      using f g Some by (auto simp: fetch_page_def split: prod.splits)
    ultimately show ?thesis
      using pages1 ok1(1) ok(2) by (simp add: caches_def)
  next
    case None
    obtain buf r1 where fl: "FreeList_Get (r\<lparr>cache := c1, Miss := Miss r + 1\<rparr>) = (buf, r1)"
      by fastforce
    have r1: "pagesize r1 = ps" "cache r1 = c1" "file_size r1 = file_size r"
      using fl ok by (auto simp: FreeList_Get_def split: if_splits)
    define d where "d = page_of c ps pn"
    have rd: "fst (direct c ps (pn * ps)) = d" "snd (direct c ps (pn * ps)) = None \<or> snd (direct c ps (pn * ps)) = Some EOF"
      by (auto simp: direct_def d_def page_of_def)
    show ?thesis
    proof (cases "d = []")
      case True
      then have "r' = r1" "res = Err EOF"
        using f g None fl r1 rd by (auto simp: fetch_page_def Let_def split: prod.splits)
      then show ?thesis
        using True r1 ok1(1) pages1 by (simp add: caches_def d_def)
    next
      case False
      obtain c2 ev where a: "add pn (d @ drop (length d) buf, length d) c1 = (c2, ev)"
        by fastforce
      have "r' = fold (\<lambda>p. FreeList_Put (fst p)) ev (r1\<lparr>cache := c2\<rparr>)" "res = Ok d"
        using f g None fl r1 rd a False by (auto simp: fetch_page_def Let_def split: prod.splits)
      moreover have "ok c2" "\<And>k q. has c2 k q \<Longrightarrow> k = pn \<and> q = (d @ drop (length d) buf, length d) \<or> has c1 k q"
        using add_ok [OF ok1(1) a] by blast+
      then have "take (snd q) (fst q) = page_of c ps k \<and> page_of c ps k \<noteq> []" if "has c2 k q" for k q
        using that pages1 False by (fastforce simp: d_def)
      ultimately show ?thesis
        using False \<open>ok c2\<close> r1 by (simp add: caches_def d_def)
    qed
  qed
qed

lemma page_of_mod:
  assumes "0 < ps" and "0 < k" and "k \<le> ps - off mod ps"
  shows "take k (drop (off mod ps) (page_of c ps (off div ps))) = take k (drop off c)"
    "length (page_of c ps (off div ps)) < off mod ps + k \<longleftrightarrow> length (drop off c) < k"
    "length (page_of c ps (off div ps)) \<le> off mod ps \<Longrightarrow> drop off c = []"
    "length (page_of c ps (off div ps)) < off mod ps + k \<Longrightarrow>
      drop (off mod ps) (page_of c ps (off div ps)) = drop off c"
proof -
  define a m where "a = off div ps * ps" and "m = off mod ps"
  have off: "off = a + m"
    by (simp add: a_def m_def)
  have m: "m < ps" "k \<le> ps - m"
    using assms by (simp_all add: m_def)
  have p: "drop m (page_of c ps (off div ps)) = take (ps - m) (drop off c)"
    unfolding page_of_def a_def [symmetric] by (simp add: drop_take off add.commute)
  have len: "length (page_of c ps (off div ps)) = min ps (length c - a)"
    by (simp add: page_of_def a_def min.commute)
  show "take k (drop (off mod ps) (page_of c ps (off div ps))) = take k (drop off c)"
    using m(2) unfolding m_def [symmetric] by (simp add: p min_def)
  show lt: "length (page_of c ps (off div ps)) < off mod ps + k \<longleftrightarrow> length (drop off c) < k"
    unfolding len m_def [symmetric] using m assms(2) off by (simp add: min_def) linarith
  show "drop off c = []" if "length (page_of c ps (off div ps)) \<le> off mod ps"
    using that m(1) off unfolding len m_def [symmetric] by (simp add: min_def split: if_splits)
  show "drop (off mod ps) (page_of c ps (off div ps)) = drop off c"
    if "length (page_of c ps (off div ps)) < off mod ps + k"
    using that lt m unfolding m_def [symmetric] by (simp add: p)
qed

lemma read_loop_ok:
  assumes "caches c ps r" and "0 < ps" and "length out \<le> n" and "out = [] \<or> off mod ps = 0 \<or> length out = n"
    and "read_loop (\<lambda>s pn. fetch_page (direct c) get add pn s) ps n off out r = (r', data, err)"
  shows "caches c ps r' \<and> file_size r' = file_size r \<and> data = out @ take (n - length out) (drop off c) \<and>
    err = (if length data < n then Some EOF else None)"
  using assms
proof (induction "n - length out" arbitrary: r off out rule: less_induct)
  case less
  define k where "k = min (ps - off mod ps) (n - length out)"
  define pg where "pg = page_of c ps (off div ps)"
  have m: "off mod ps < ps"
    using less.prems(2) by simp
  show ?case
  proof (cases "k = 0")
    case True
    then have "n = length out"
      using m less.prems(3) by (simp add: k_def min_def split: if_splits)
    moreover have "r' = r" "data = out" "err = None"
      using less.prems(2,5) True by (simp_all add: read_loop.simps k_def Let_def)
    ultimately show ?thesis
      using less.prems(1) by simp
  next
    case False
    then have k: "0 < k" "k \<le> ps - off mod ps" "k \<le> n - length out"
      by (simp_all add: k_def)
    note pm = page_of_mod [OF less.prems(2) k(1,2), of c, folded pg_def]
    obtain r1 res where f: "fetch_page (direct c) get add (off div ps) r = (r1, res)"
      by fastforce
    have r1: "caches c ps r1" "file_size r1 = file_size r" "res = (if pg = [] then Err EOF else Ok pg)"
      using fetch_page_ok [OF less.prems(1) f] by (simp_all add: pg_def)
    note step = less.prems(5) [unfolded read_loop.simps [of _ ps n off out r] Let_def k_def [symmetric] f]
    show ?thesis
    proof (cases "length pg < off mod ps + k")
      case True
      then have short: "length (drop off c) < k" "drop (off mod ps) pg = drop off c"
        using pm(2,4) by simp_all
      have "r' = r1 \<and> data = out @ drop off c \<and> err = Some EOF"
      proof (cases "length pg \<le> off mod ps")
        case le: True
        then have "drop off c = []"
          by (rule pm(3))
        moreover have "out = [] \<or> off mod ps = 0"
          using less.prems(4) k by auto
        ultimately show ?thesis
          using step False less.prems(2) r1(3) le short(2) True by (auto split: if_splits)
      next
        case gt: False
        then have "pg \<noteq> []"
          by auto
        then show ?thesis
          using step False less.prems(2) r1(3) gt short(2) True by auto
      qed
      then show ?thesis
        using r1 short(1) k by auto
    next
      case full: False
      define out1 where "out1 = out @ take k (drop off c)"
      have long: "k \<le> length (drop off c)" "pg \<noteq> []"
        using full pm(2) k(1) by auto
      have step1: "read_loop (\<lambda>s pn. fetch_page (direct c) get add pn s) ps n (off + k) out1 r1 = (r', data, err)"
        using step False less.prems(2) r1(3) full long(2) pm(1) by (simp add: out1_def)
      have len: "length out1 = length out + k"
        using long(1) by (simp add: out1_def)
      have "(off + k) mod ps = 0 \<or> length out1 = n"
      proof (cases "k = n - length out")
        case True
        then show ?thesis
          using len k less.prems(3) by simp
      next
        case neq: False
        then have "k = ps - off mod ps"
          by (simp add: k_def min_def split: if_splits)
        then have "off + k = (off div ps + 1) * ps"
          using m by (metis Suc_eq_plus1 add.commute add_diff_inverse_nat div_mult_mod_eq less_imp_le_nat
              linorder_not_less mult_Suc ab_semigroup_add_class.add_ac(1))
        then show ?thesis
          by simp
      qed
      then have "caches c ps r' \<and> file_size r' = file_size r1 \<and>
          data = out1 @ take (n - length out1) (drop (off + k) c) \<and> err = (if length data < n then Some EOF else None)"
        using less.hyps [OF _ r1(1) less.prems(2) _ _ step1] len k by simp
      moreover have "out1 @ take (n - length out1) (drop (off + k) c) = out @ take (n - length out) (drop off c)"
      proof -
        have "k + (n - length out - k) = n - length out"
          using k(3) by simp
        then have "take (n - length out) (drop off c) = take k (drop off c) @ take (n - length out - k) (drop (off + k) c)"
          using take_add [of k "n - length out - k" "drop off c"] by (metis add.commute drop_drop)
        then show ?thesis
          unfolding len by (simp add: out1_def)
      qed
      ultimately show ?thesis
        using r1(2) by simp
    qed
  qed
qed

lemma ReadAt_paged_ok:
  assumes "caches c ps r" and "0 < ps" and "ReadAt_paged (direct c) get add n off r = (r', res)"
  shows "caches c ps r' \<and> file_size r' = file_size r \<and> res = direct_limited (file_size r) c n off"
proof (cases "file_size r > 0 \<and> off \<ge> file_size r")
  case True
  then show ?thesis
    using assms(1,3) by (auto simp: ReadAt_paged_def direct_limited_def)
next
  case False
  define n' where "n' = (if file_size r > 0 then min n (file_size r - off) else n)"
  have n': "n' = (if file_size r > 0 \<and> n + off > file_size r then file_size r - off else n)"
    using False by (auto simp: n'_def)
  obtain data err where res: "res = (data, err)"
    by fastforce
  have "read_loop (\<lambda>s pn. fetch_page (direct c) get add pn s) ps n' off [] r = (r', data, err)"
    using assms(3) [unfolded ReadAt_paged_def if_not_P [OF False] Let_def] assms(1)
    unfolding n' caches_def res by simp
  from read_loop_ok [OF assms(1,2) _ _ this] show ?thesis
    unfolding direct_limited_def if_not_P [OF False] n'_def [symmetric] res by (simp add: direct_def)
qed

end

section \<open>The code's cache\<close>

definition lru_has :: "page LRU \<Rightarrow> nat \<Rightarrow> page \<Rightarrow> bool" where
  "lru_has c pn p \<longleftrightarrow> element (int pn) c = Some p"

interpretation lc: page_cache page_get page_add lru_ok lru_has
proof unfold_locales
  fix c c' :: "page LRU" and pn r
  assume "lru_ok c" "page_get pn c = (c', r)"
  then show "lru_ok c' \<and> (\<forall>k p. lru_has c' k p \<longrightarrow> lru_has c k p)"
    using Get_ok [of c "int pn" c' r] by (auto simp: page_get_def lru_has_def)
next
  fix c c' :: "page LRU" and pn p
  assume "lru_ok c" "page_get pn c = (c', Some p)"
  then show "lru_has c pn p"
    using Get_ok [of c "int pn" c' "Some p"] by (simp add: page_get_def lru_has_def)
next
  fix c c' :: "page LRU" and pn p ev
  assume "lru_ok c" "page_add pn p c = (c', ev)"
  then show "lru_ok c' \<and> (\<forall>k q. lru_has c' k q \<longrightarrow> k = pn \<and> q = p \<or> lru_has c k q)"
    using Add_ok [of c "int pn" p c' "snd (Add (int pn) p c)"]
    by (fastforce simp: page_add_def lru_has_def Let_def)
qed

text \<open>Reads of a new reader one after the other, with their results.\<close>

fun paged_reads ::
  "(nat \<Rightarrow> nat \<Rightarrow> bytes \<times> go_error option) \<Rightarrow> (nat \<times> nat) list \<Rightarrow> page LRU PagedReader \<Rightarrow>
   (bytes \<times> go_error option) list" where
  "paged_reads reader [] r = []"
| "paged_reads reader ((n, off) # reqs) r =
     (let (r', res) = PagedReadAt reader n off r in res # paged_reads reader reqs r')"

lemma paged_reads_eq:
  assumes "lc.caches c ps r" and "0 < ps" and "file_size r = sz"
  shows "paged_reads (direct c) reqs r = map (\<lambda>(n, off). direct_limited sz c n off) reqs"
  using assms
proof (induction reqs arbitrary: r)
  case (Cons q reqs)
  obtain n off where q: "q = (n, off)"
    by fastforce
  obtain r' res where rd: "PagedReadAt (direct c) n off r = (r', res)"
    by (rule prod.exhaust)
  have ok: "lc.caches c ps r'" "file_size r' = sz" "res = direct_limited sz c n off"
    using lc.ReadAt_paged_ok [OF Cons.prems(1,2), of n off] rd Cons.prems(3) unfolding PagedReadAt_def by auto
  then show ?case
    using Cons.IH [OF ok(1) Cons.prems(2) ok(2)] rd by (simp add: q)
qed simp

lemma new_reader_caches:
  assumes "NewPagedReader ps cs = Ok r"
  shows "lc.caches c ps (SetSize sz r)" "file_size (SetSize sz r) = sz"
proof -
  obtain l where l: "NewLRU cs = Ok l" "r = \<lparr>pagesize = ps, cache = l, file_size = 0, freelist = [], Hits = 0, Miss = 0\<rparr>"
    using assms by (auto simp: NewPagedReader_def split: sum.splits)
  then show "lc.caches c ps (SetSize sz r)" "file_size (SetSize sz r) = sz"
    using lru_ok_New [OF l(1)] by (auto simp: lc.caches_def SetSize_def lru_has_def element_def)
qed

text \<open>C10: Reading a file that does not change through the page cache gives, for every sequence of
  reads and every size of the pages and of the cache, the bytes and the error that reading the
  file directly gives for the request cut off at the size that was set. Recycled buffers never
  show, and neither does what other reads have cached or evicted.\<close>

theorem paged_read_direct:
  assumes "NewPagedReader ps cs = Ok r" and "0 < ps"
  shows "paged_reads (direct c) reqs (SetSize sz r) = map (\<lambda>(n, off). direct_limited sz c n off) reqs"
  using new_reader_caches [OF assms(1)] assms(2) by (intro paged_reads_eq)

theorem paged_read_direct_witness:
  "\<exists>r. NewPagedReader 2 1 = Ok r \<and>
     map fst (paged_reads (direct [1, 2, 3, 4, 5]) [(3, 1), (4, 3), (9, 0)] (SetSize 0 r)) =
     [[2, 3, 4], [4, 5], [1, 2, 3, 4, 5]]"
proof -
  obtain r where r: "NewPagedReader 2 1 = Ok r"
    by (simp add: NewPagedReader_def NewLRU_def)
  show ?thesis
    using paged_read_direct [OF r, of "[1, 2, 3, 4, 5]" "[(3, 1), (4, 3), (9, 0)]" 0] r
    by (simp add: direct_limited_def direct_def)
qed

end
