(* ===== verification/Prefix_Tree.thy ===== *)
theory Prefix_Tree
  imports Slices "HOL-Library.Sublist" "HOL-Library.AList"
begin

text \<open>
  The tree of path prefixes that the rules for file access use, \<^verbatim>\<open>utils/prefix.go\<close>. The map
  of children is an association list. \<open>u\<close> are the Unicode case tables of \<^verbatim>\<open>strings.ToLower\<close>.
\<close>

section \<open>Definitions\<close>

datatype PrefixNode =
  PrefixNode (Name: string) (Depth: nat) (Sentinel: bool) (Children: "(string \<times> PrefixNode) list") (CaseInsensitive: bool)

definition NewPrefixNode :: "string \<Rightarrow> bool \<Rightarrow> nat \<Rightarrow> PrefixNode" where
  "NewPrefixNode name case_insensitive depth = PrefixNode name depth False [] case_insensitive"

definition node_ToLower :: "(string \<Rightarrow> string) \<Rightarrow> bool \<Rightarrow> string \<Rightarrow> string" where
  "node_ToLower u case_insensitive s = (if case_insensitive then ToLower u s else s)"

text \<open>The child for a component, a new one if there is none.\<close>

definition child_of :: "PrefixNode \<Rightarrow> string \<Rightarrow> PrefixNode" where
  "child_of self first =
     (case map_of (Children self) first of
        Some child \<Rightarrow> child
      | None \<Rightarrow> NewPrefixNode first (CaseInsensitive self) (Depth self + 1))"

fun node_Add :: "(string \<Rightarrow> string) \<Rightarrow> PrefixNode \<Rightarrow> string list \<Rightarrow> PrefixNode" where
  "node_Add u self [] = PrefixNode (Name self) (Depth self) True (Children self) (CaseInsensitive self)"
| "node_Add u self (c # components) =
     (let first = node_ToLower u (CaseInsensitive self) c;
          child = node_Add u (child_of self first) components
      in PrefixNode (Name self) (Depth self) (Sentinel self) (AList.update first child (Children self))
           (CaseInsensitive self))"

fun node_Present :: "(string \<Rightarrow> string) \<Rightarrow> PrefixNode \<Rightarrow> string list \<Rightarrow> bool \<times> nat" where
  "node_Present u self [] = (if Sentinel self then (True, Depth self) else (False, 0))"
| "node_Present u self (c # components) =
     (let first = node_ToLower u (CaseInsensitive self) c
      in case map_of (Children self) first of
           None \<Rightarrow> (Sentinel self, Depth self)
         | Some child \<Rightarrow>
             (let (match, depth) = node_Present u child components
              in if match then (match, depth) else (Sentinel self, Depth self)))"

definition NewPrefixTree :: "bool \<Rightarrow> PrefixNode" where
  "NewPrefixTree case_insensitive = NewPrefixNode [] case_insensitive 0"

definition tree_Add :: "(string \<Rightarrow> string) \<Rightarrow> PrefixNode \<Rightarrow> string list \<Rightarrow> PrefixNode" where
  "tree_Add u self components = node_Add u self components"

definition tree_Present :: "(string \<Rightarrow> string) \<Rightarrow> PrefixNode \<Rightarrow> string list \<Rightarrow> bool \<times> nat" where
  "tree_Present u self components = node_Present u self (FilterSlice components [])"

section \<open>The paths of a tree\<close>

text \<open>Whether a path of components in lower case was added.\<close>

fun has_path :: "PrefixNode \<Rightarrow> string list \<Rightarrow> bool" where
  "has_path self [] = Sentinel self"
| "has_path self (c # cs) = (case map_of (Children self) c of None \<Rightarrow> False | Some child \<Rightarrow> has_path child cs)"

lemma has_path_New [simp]: "has_path (NewPrefixNode nm ci d) p = False"
  by (cases p) (simp_all add: NewPrefixNode_def)

text \<open>The nodes at depth \<open>d\<close> and below are labelled with their depth and the case mode.\<close>

inductive labelled :: "bool \<Rightarrow> nat \<Rightarrow> PrefixNode \<Rightarrow> bool" where
  "CaseInsensitive n = ci \<Longrightarrow> Depth n = d \<Longrightarrow>
   (\<And>c child. map_of (Children n) c = Some child \<Longrightarrow> labelled ci (Suc d) child) \<Longrightarrow> labelled ci d n"

inductive_cases labelledE: "labelled ci d n"

lemma labelledD:
  "labelled ci d n \<Longrightarrow> CaseInsensitive n = ci \<and> Depth n = d \<and>
     (\<forall>c child. map_of (Children n) c = Some child \<longrightarrow> labelled ci (Suc d) child)"
  by (erule labelledE) blast

lemma labelled_New: "labelled ci d (NewPrefixNode nm ci d)"
  by (rule labelled.intros) (simp_all add: NewPrefixNode_def)

lemma labelled_child: "labelled ci d n \<Longrightarrow> labelled ci (Suc d) (child_of n c)"
  by (erule labelledE) (auto simp: child_of_def labelled_New split: option.splits)

lemma labelled_Add: "labelled ci d n \<Longrightarrow> labelled ci d (node_Add u n p)"
proof (induction p arbitrary: n d)
  case Nil
  have "CaseInsensitive n = ci" "Depth n = d"
    "\<And>c child. map_of (Children n) c = Some child \<Longrightarrow> labelled ci (Suc d) child"
    using labelledD [OF Nil] by blast+
  then show ?case
    by - (rule labelled.intros, simp_all)
next
  case (Cons c p)
  let ?f = "node_ToLower u (CaseInsensitive n) c"
  have new: "labelled ci (Suc d) (node_Add u (child_of n ?f) p)"
    by (rule Cons.IH [OF labelled_child [OF Cons.prems]])
  have n: "CaseInsensitive n = ci" "Depth n = d"
    "\<And>c child. map_of (Children n) c = Some child \<Longrightarrow> labelled ci (Suc d) child"
    using labelledD [OF Cons.prems] by blast+
  show ?case
  proof (rule labelled.intros)
    fix a child
    assume "map_of (Children (node_Add u n (c # p))) a = Some child"
    then have "map_of (AList.update ?f (node_Add u (child_of n ?f) p) (Children n)) a = Some child"
      by (simp add: Let_def)
    then have "child = node_Add u (child_of n ?f) p \<or> map_of (Children n) a = Some child"
      by (auto simp: update_conv' split: if_splits)
    then show "labelled ci (Suc d) child"
      using new n(3) by blast
  qed (simp_all add: n Let_def)
qed

lemma has_path_child: "has_path (child_of n c) p = has_path n (c # p)"
  by (simp add: child_of_def split: option.splits)

lemma has_path_Add:
  assumes "labelled ci d n"
  shows "has_path (node_Add u n p) q \<longleftrightarrow> has_path n q \<or> q = map (node_ToLower u ci) p"
  using assms
proof (induction p arbitrary: n d q)
  case Nil
  then show ?case
    by (cases q) auto
next
  case (Cons c p)
  let ?f = "node_ToLower u ci c"
  have ci: "CaseInsensitive n = ci"
    using Cons.prems by (rule labelledE)
  note IH = Cons.IH [OF labelled_child [OF Cons.prems, of ?f]]
  show ?case
  proof (cases q)
    case Nil
    then show ?thesis
      by (simp add: Let_def)
  next
    case (Cons a r)
    then show ?thesis
      using IH [of r] has_path_child [of n ?f r] ci by (auto simp: Let_def update_conv')
  qed
qed

text \<open>The longest of the paths that are a prefix of the given components.\<close>

definition matches :: "PrefixNode \<Rightarrow> string list \<Rightarrow> nat set" where
  "matches n cs = {k. k \<le> length cs \<and> has_path n (take k cs)}"

lemma finite_matches [simp]: "finite (matches n cs)"
  by (rule finite_subset [of _ "{..length cs}"]) (auto simp: matches_def)

lemma matches_Cons:
  "matches n (c # cs) = (if Sentinel n then {0} else {}) \<union>
     (case map_of (Children n) c of None \<Rightarrow> {} | Some child \<Rightarrow> Suc ` matches child cs)"
proof -
  have "k \<in> matches n (c # cs) \<longleftrightarrow> k \<in> (if Sentinel n then {0} else {}) \<union>
     (case map_of (Children n) c of None \<Rightarrow> {} | Some child \<Rightarrow> Suc ` matches child cs)" for k
    by (cases k) (auto simp: matches_def split: option.splits)
  then show ?thesis by blast
qed

lemma node_Present_eq:
  assumes "labelled ci d n"
  shows "node_Present u n p = (m, k) \<Longrightarrow>
    m = (matches n (map (node_ToLower u ci) p) \<noteq> {}) \<and>
    (m \<longrightarrow> k = d + Max (matches n (map (node_ToLower u ci) p)))"
  using assms
proof (induction p arbitrary: n d m k)
  case Nil
  have "Depth n = d"
    using Nil(2) by (rule labelledE)
  moreover have "matches n [] = (if Sentinel n then {0} else {})"
    by (auto simp: matches_def)
  ultimately show ?case
    using Nil(1) by (auto split: if_splits)
next
  case (Cons c p)
  define f cs where "f = node_ToLower u ci c" and "cs = map (node_ToLower u ci) p"
  have n: "CaseInsensitive n = ci" "Depth n = d"
    "\<And>c child. map_of (Children n) c = Some child \<Longrightarrow> labelled ci (Suc d) child"
    using labelledD [OF Cons.prems(2)] by blast+
  show ?case
  proof (cases "map_of (Children n) f")
    case None
    then have "m = Sentinel n" "k = d" "matches n (f # cs) = (if Sentinel n then {0} else {})"
      using Cons.prems(1) n(1,2) by (auto simp: matches_Cons Let_def f_def)
    then show ?thesis
      by (simp add: f_def cs_def)
  next
    case (Some child)
    obtain m1 k1 where ch: "node_Present u child p = (m1, k1)"
      by fastforce
    have IH: "m1 = (matches child cs \<noteq> {})" "m1 \<longrightarrow> k1 = Suc d + Max (matches child cs)"
      using Cons.IH [OF ch n(3) [OF Some]] by (simp_all add: cs_def)
    have mk: "(m, k) = (if m1 then (m1, k1) else (Sentinel n, d))"
      using Cons.prems(1) Some ch n(1,2) by (auto simp: Let_def f_def split: if_splits)
    have ms: "matches n (f # cs) = (if Sentinel n then {0} else {}) \<union> Suc ` matches child cs"
      using Some by (simp add: matches_Cons)
    show ?thesis
    proof (cases "m1")
      case True
      then have "matches child cs \<noteq> {}"
        using IH(1) by simp
      then have "Max (matches n (f # cs)) = Suc (Max (matches child cs))"
        unfolding ms by (simp add: Max_insert mono_Max_commute [symmetric] mono_Suc)
      then show ?thesis
        using True IH mk ms by (auto simp: f_def cs_def)
    next
      case False
      then have "matches n (f # cs) = (if Sentinel n then {0} else {})"
        using IH(1) ms by simp
      then show ?thesis
        using False mk by (simp add: f_def cs_def)
    qed
  qed
qed

lemma fold_Add:
  assumes "labelled ci 0 n"
  shows "labelled ci 0 (fold (\<lambda>p t. tree_Add u t p) ps n) \<and>
    (\<forall>q. has_path (fold (\<lambda>p t. tree_Add u t p) ps n) q \<longleftrightarrow> has_path n q \<or> q \<in> map (node_ToLower u ci) ` set ps)"
  using assms
proof (induction ps arbitrary: n)
  case (Cons p ps)
  have "labelled ci 0 (tree_Add u n p)"
    unfolding tree_Add_def by (rule labelled_Add [OF Cons.prems])
  then show ?case
    using Cons.IH [of "tree_Add u n p"] has_path_Add [OF Cons.prems, of u p] by (auto simp: tree_Add_def)
qed simp

text \<open>The lengths of the added paths that match.\<close>

definition matching :: "(string \<Rightarrow> string) \<Rightarrow> bool \<Rightarrow> string list list \<Rightarrow> string list \<Rightarrow> nat set" where
  "matching u ci ps components =
     {length p | p. p \<in> set ps \<and>
        prefix (map (node_ToLower u ci) p) (map (node_ToLower u ci) (filter (\<lambda>c. c \<noteq> []) components))}"

lemma tree_Present_matching:
  fixes ps :: "string list list"
  assumes "tree_Present u (fold (\<lambda>p t. tree_Add u t p) ps (NewPrefixTree ci)) components = (m, k)"
  shows "m = (matching u ci ps components \<noteq> {}) \<and> (m \<longrightarrow> k = Max (matching u ci ps components))"
proof -
  define t where "t = fold (\<lambda>p t. tree_Add u t p) ps (NewPrefixTree ci)"
  define path where "path = map (node_ToLower u ci) (filter (\<lambda>c. c \<noteq> []) components)"
  have l: "labelled ci 0 (NewPrefixTree ci)"
    unfolding NewPrefixTree_def by (rule labelled_New)
  have lab: "labelled ci 0 t" and has: "has_path t q \<longleftrightarrow> q \<in> map (node_ToLower u ci) ` set ps" for q
    using fold_Add [OF l, of u ps] by (simp_all add: t_def NewPrefixTree_def)
  have "matches t path = matching u ci ps components"
  proof (intro set_eqI iffI)
    fix k
    assume "k \<in> matches t path"
    then obtain p where p: "p \<in> set ps" "take k path = map (node_ToLower u ci) p" "k \<le> length path"
      by (auto simp: matches_def has)
    then have "k = length p" "prefix (map (node_ToLower u ci) p) path"
      by (metis length_map length_take min.absorb2, metis take_is_prefix)
    then show "k \<in> matching u ci ps components"
      using p(1) by (auto simp: matching_def path_def)
  next
    fix k
    assume "k \<in> matching u ci ps components"
    then obtain p where p: "k = length p" "p \<in> set ps" "prefix (map (node_ToLower u ci) p) path"
      by (auto simp: matching_def path_def)
    then have "take k path = map (node_ToLower u ci) p" "k \<le> length path"
      by (auto simp: prefix_def)
    then show "k \<in> matches t path"
      using p(2) by (auto simp: matches_def has)
  qed
  then show ?thesis
    using node_Present_eq [OF lab, of u "filter (\<lambda>c. c \<noteq> []) components" m k] assms
    unfolding t_def [symmetric] path_def [symmetric] by (simp add: tree_Present_def path_def)
qed

text \<open>A path is present in a prefix tree exactly when one of the added paths is a prefix of
  its non-empty components, in lower case where the tree ignores case, and the depth reported
  is the length of the longest such path: the most specific rule decides.\<close>

theorem tree_Present_longest:
  fixes ps :: "string list list"
  shows "let t = fold (\<lambda>p t. tree_Add u t p) ps (NewPrefixTree ci);
      path = map (node_ToLower u ci) (filter (\<lambda>c. c \<noteq> []) components);
      found = {length p | p. p \<in> set ps \<and> prefix (map (node_ToLower u ci) p) path}
    in fst (tree_Present u t components) = (found \<noteq> {}) \<and>
       (if found = {} then True else snd (tree_Present u t components) = Max found)"
  using tree_Present_matching [of u ps ci components]
  by (cases "tree_Present u (fold (\<lambda>p t. tree_Add u t p) ps (NewPrefixTree ci)) components")
     (simp add: Let_def matching_def)

end
