(* ===== verification/Zip_Names.thy ===== *)
theory Zip_Names
  imports Sanitize
begin

text \<open>
  Names of the members of zip files, \<^verbatim>\<open>SanitizeStringForZip\<close> of \<^verbatim>\<open>utils/sanitize.go\<close>. It goes
  over the name rune by rune, so Go's decoding of UTF-8 and the encoding of runes are
  defined here; a rune is a natural number.
\<close>

section \<open>UTF-8\<close>

abbreviation byte :: "char \<Rightarrow> nat" where
  "byte c \<equiv> of_char c"

definition RuneError :: nat where
  "RuneError = 0xFFFD"

definition cont :: "char \<Rightarrow> bool" where
  "cont c \<longleftrightarrow> 0x80 \<le> byte c \<and> byte c \<le> 0xBF"

text \<open>The first rune of a string and its width in bytes; an invalid sequence is an error of
  width one.\<close>

definition decode2 :: "char \<Rightarrow> char \<Rightarrow> nat option" where
  "decode2 a b =
     (if 0xC2 \<le> byte a \<and> byte a \<le> 0xDF \<and> cont b then Some ((byte a - 0xC0) * 64 + (byte b - 0x80)) else None)"

definition decode3 :: "char \<Rightarrow> char \<Rightarrow> char \<Rightarrow> nat option" where
  "decode3 a b c =
     (if 0xE0 \<le> byte a \<and> byte a \<le> 0xEF \<and> cont b \<and> cont c \<and>
         (byte a = 0xE0 \<longrightarrow> 0xA0 \<le> byte b) \<and> (byte a = 0xED \<longrightarrow> byte b \<le> 0x9F)
      then Some ((byte a - 0xE0) * 4096 + (byte b - 0x80) * 64 + (byte c - 0x80)) else None)"

definition decode4 :: "char \<Rightarrow> char \<Rightarrow> char \<Rightarrow> char \<Rightarrow> nat option" where
  "decode4 a b c d =
     (if 0xF0 \<le> byte a \<and> byte a \<le> 0xF4 \<and> cont b \<and> cont c \<and> cont d \<and>
         (byte a = 0xF0 \<longrightarrow> 0x90 \<le> byte b) \<and> (byte a = 0xF4 \<longrightarrow> byte b \<le> 0x8F)
      then Some ((byte a - 0xF0) * 262144 + (byte b - 0x80) * 4096 + (byte c - 0x80) * 64 + (byte d - 0x80))
      else None)"

definition decode_rune :: "string \<Rightarrow> nat \<times> nat" where
  "decode_rune s =
     (case s of
        [] \<Rightarrow> (RuneError, 0)
      | a # s1 \<Rightarrow>
          if byte a < 0x80 then (byte a, 1)
          else (case s1 of
            [] \<Rightarrow> (RuneError, 1)
          | b # s2 \<Rightarrow>
              (case decode2 a b of
                 Some r \<Rightarrow> (r, 2)
               | None \<Rightarrow>
                   (case s2 of
                      [] \<Rightarrow> (RuneError, 1)
                    | c # s3 \<Rightarrow>
                        (case decode3 a b c of
                           Some r \<Rightarrow> (r, 3)
                         | None \<Rightarrow>
                             (case s3 of
                                [] \<Rightarrow> (RuneError, 1)
                              | d # _ \<Rightarrow>
                                  (case decode4 a b c d of
                                     Some r \<Rightarrow> (r, 4)
                                   | None \<Rightarrow> (RuneError, 1))))))))"

definition encode_rune :: "nat \<Rightarrow> string" where
  "encode_rune r =
     (let r = (if r > 0x10FFFF \<or> 0xD800 \<le> r \<and> r \<le> 0xDFFF then RuneError else r)
      in map char_of
        (if r < 0x80 then [r]
         else if r < 0x800 then [0xC0 + r div 64, 0x80 + r mod 64]
         else if r < 0x10000 then [0xE0 + r div 4096, 0x80 + r div 64 mod 64, 0x80 + r mod 64]
         else [0xF0 + r div 262144, 0x80 + r div 4096 mod 64, 0x80 + r div 64 mod 64, 0x80 + r mod 64]))"

section \<open>Definitions\<close>

definition escapeChar :: "nat \<Rightarrow> nat list" where
  "escapeChar c = [byte (CHR ''%''), byte (hexTable ! (c div 16)), byte (hexTable ! (c mod 16))]"

text \<open>The loop over the runes: the position, the rest of the name and the result.\<close>

function zip_loop :: "nat \<Rightarrow> string \<Rightarrow> nat list \<Rightarrow> nat list" where
  "zip_loop pos rest result =
     (if rest = [] then result
      else
        (let (r, width) = decode_rune rest; next_rest = drop (max 1 width) rest; next_pos = pos + max 1 width
         in if pos = 0 \<and> (r = byte (CHR ''.'') \<or> r = byte (CHR '' '')) then
              zip_loop next_pos next_rest (result @ escapeChar r)
            else if r = RuneError then
              zip_loop next_pos next_rest (result @ escapeChar (byte (hd rest)))
            else
              (let result = (if r \<in> set (map byte (''?*:|<>%/'' @ [CHR 0x22, CHR 0x5C])) then result @ escapeChar r else result @ [r])
               in if pos > 1024 then result else zip_loop next_pos next_rest result)))"
  by pat_completeness auto
termination
  by (relation "measure (\<lambda>(pos, rest, result). length rest)") auto

declare zip_loop.simps [simp del]

definition SanitizeStringForZip :: "string \<Rightarrow> string" where
  "SanitizeStringForZip component =
     (let result = zip_loop 0 component []
      in if result = [] then ''''
         else
           (let suffix = last result;
                result = (if suffix = byte (CHR ''.'') \<or> suffix = byte (CHR '' '') then butlast result @ escapeChar suffix else result)
            in concat (map encode_rune result)))"

section \<open>Decoding and encoding\<close>

lemma byte_less: "byte c < 256"
  by (rule of_char_less)

lemma char_of_byte: "n = byte c \<Longrightarrow> char_of n = c"
  by simp

lemma encode_decode2: "decode2 a b = Some r \<Longrightarrow> encode_rune r = [a, b] \<and> 0x80 \<le> r \<and> r < 0x800"
proof -
  assume "decode2 a b = Some r"
  then have a: "0xC2 \<le> byte a" "byte a \<le> 0xDF" "0x80 \<le> byte b" "byte b \<le> 0xBF"
    and r: "r = (byte a - 0xC0) * 64 + (byte b - 0x80)"
    by (simp_all add: decode2_def cont_def split: if_splits)
  define x y where "x = byte a - 0xC0" and "y = byte b - 0x80"
  have xy: "2 \<le> x" "x < 32" "y < 64" "byte a = 0xC0 + x" "byte b = 0x80 + y" "r = x * 64 + y"
    using a r by (auto simp: x_def y_def)
  then have "r div 64 = x" "r mod 64 = y" "0x80 \<le> r" "r < 0x800"
    by simp_all
  then show ?thesis
    using char_of_byte [of "0xC0 + x" a] char_of_byte [of "0x80 + y" b] xy by (simp add: encode_rune_def Let_def)
qed

lemma divmod64:
  fixes q z :: nat
  assumes "z < 64"
  shows "(q * 64 + z) div 64 = q" "(q * 64 + z) mod 64 = z"
  using assms by (simp_all add: div_mult_self1 mod_mult_self1)

lemma encode_decode3:
  "decode3 a b c = Some r \<Longrightarrow> encode_rune r = [a, b, c] \<and> 0x800 \<le> r \<and> r < 0x10000"
proof -
  assume "decode3 a b c = Some r"
  then have a: "0xE0 \<le> byte a" "byte a \<le> 0xEF" "0x80 \<le> byte b" "byte b \<le> 0xBF" "0x80 \<le> byte c" "byte c \<le> 0xBF"
    "byte a = 0xE0 \<longrightarrow> 0xA0 \<le> byte b" "byte a = 0xED \<longrightarrow> byte b \<le> 0x9F"
    and r: "r = (byte a - 0xE0) * 4096 + (byte b - 0x80) * 64 + (byte c - 0x80)"
    by (simp_all add: decode3_def cont_def split: if_splits)
  define x y z where "x = byte a - 0xE0" and "y = byte b - 0x80" and "z = byte c - 0x80"
  have xy: "x < 16" "y < 64" "z < 64" "byte a = 0xE0 + x" "byte b = 0x80 + y" "byte c = 0x80 + z"
    "r = (x * 64 + y) * 64 + z" "x = 0 \<longrightarrow> 32 \<le> y" "x = 13 \<longrightarrow> y < 32"
    using a r by (auto simp: x_def y_def z_def)
  have d: "r div 64 = x * 64 + y" "r mod 64 = z"
    unfolding xy(7) by (rule divmod64 [OF xy(3)])+
  have "r div 4096 = r div 64 div 64"
    by (simp flip: div_mult2_eq)
  then have "r div 4096 = x" "r div 64 mod 64 = y"
    using d divmod64 [OF xy(2), of x] by simp_all
  moreover have "\<not> (0xD800 \<le> r \<and> r \<le> 0xDFFF)"
  proof -
    consider "x \<le> 12" | "x = 13" | "14 \<le> x"
      by linarith
    then show ?thesis
      using xy(2,3,7,9) by cases auto
  qed
  moreover have "0x800 \<le> r" "r < 0x10000"
    using xy(1-3,7,8) by (cases "x = 0"; simp)+
  ultimately show ?thesis
    using d char_of_byte [of "0xE0 + x" a] char_of_byte [of "0x80 + y" b] char_of_byte [of "0x80 + z" c] xy(4-6)
    by (auto simp: encode_rune_def Let_def)
qed

lemma encode_decode4:
  "decode4 a b c d = Some r \<Longrightarrow> encode_rune r = [a, b, c, d] \<and> 0x10000 \<le> r"
proof -
  assume "decode4 a b c d = Some r"
  then have a: "0xF0 \<le> byte a" "byte a \<le> 0xF4" "0x80 \<le> byte b" "byte b \<le> 0xBF" "0x80 \<le> byte c" "byte c \<le> 0xBF"
    "0x80 \<le> byte d" "byte d \<le> 0xBF" "byte a = 0xF0 \<longrightarrow> 0x90 \<le> byte b" "byte a = 0xF4 \<longrightarrow> byte b \<le> 0x8F"
    and r: "r = (byte a - 0xF0) * 262144 + (byte b - 0x80) * 4096 + (byte c - 0x80) * 64 + (byte d - 0x80)"
    by (simp_all add: decode4_def cont_def split: if_splits)
  define w x y z where "w = byte a - 0xF0" and "x = byte b - 0x80" and "y = byte c - 0x80" and "z = byte d - 0x80"
  have xy: "w < 5" "x < 64" "y < 64" "z < 64" "byte a = 0xF0 + w" "byte b = 0x80 + x" "byte c = 0x80 + y" "byte d = 0x80 + z"
    "w = 0 \<longrightarrow> 16 \<le> x" "w = 4 \<longrightarrow> x < 16"
    using a by (auto simp: w_def x_def y_def z_def)
  have "r = w * 262144 + x * 4096 + y * 64 + z"
    unfolding r w_def x_def y_def z_def ..
  then have r': "r = ((w * 64 + x) * 64 + y) * 64 + z"
    by simp
  have d: "r div 64 = (w * 64 + x) * 64 + y" "r mod 64 = z"
    unfolding r' by (rule divmod64 [OF xy(4)])+
  have "r div 4096 = r div 64 div 64" "r div 262144 = r div 64 div 64 div 64"
    by (simp_all flip: div_mult2_eq)
  then have "r div 262144 = w" "r div 4096 mod 64 = x" "r div 64 mod 64 = y"
    using d divmod64 [OF xy(3), of "w * 64 + x"] divmod64 [OF xy(2), of w] by simp_all
  moreover have "r \<le> 0x10FFFF" "0x10000 \<le> r"
    using xy r' by auto
  ultimately show ?thesis
    using d char_of_byte [of "0xF0 + w" a] char_of_byte [of "0x80 + x" b] char_of_byte [of "0x80 + y" c]
      char_of_byte [of "0x80 + z" d] xy(5-8)
    by (simp add: encode_rune_def Let_def)
qed

text \<open>A rune is an ASCII byte, a longer sequence of bytes from 128 on, or an invalid byte.\<close>

lemma decode_rune_cases:
  assumes "s \<noteq> []" and "decode_rune s = (r, w)"
  obtains (ascii) c t where "s = c # t" "byte c < 0x80" "r = byte c" "w = 1"
  | (rune) xs t where "s = xs @ t" "length xs = w" "encode_rune r = xs" "0x80 \<le> r" "2 \<le> w"
      "\<forall>c \<in> set xs. 0x80 \<le> byte c"
  | (invalid) c t where "s = c # t" "0x80 \<le> byte c" "r = RuneError" "w = 1"
proof -
  obtain a s1 where s: "s = a # s1"
    using assms(1) by (cases s) auto
  show thesis
  proof (cases "byte a < 0x80")
    case True
    then show thesis
      using ascii [of a s1] assms(2) s by (simp add: decode_rune_def)
  next
    case big: False
    show thesis
    proof (cases "r = RuneError \<and> w = 1")
      case True
      then show thesis
        using invalid [of a s1] s big by simp
    next
      case False
      then obtain b s2 where s1: "s1 = b # s2"
        using assms(2) s big by (cases s1) (auto simp: decode_rune_def)
      consider (two) "decode2 a b = Some r" "w = 2"
        | (three) c s3 where "s2 = c # s3" "decode3 a b c = Some r" "w = 3"
        | (four) c d s4 where "s2 = c # d # s4" "decode4 a b c d = Some r" "w = 4"
        using assms(2) s big s1 False
        by (auto simp: decode_rune_def split: option.splits list.splits)
      then show thesis
      proof cases
        case two
        then show thesis
          using rune [of "[a, b]" s2] s s1 encode_decode2 [OF two(1)]
          by (auto simp: decode2_def cont_def split: if_splits)
      next
        case (three c s3)
        then show thesis
          using rune [of "[a, b, c]" s3] s s1 encode_decode3 [OF three(2)]
          by (auto simp: decode3_def cont_def split: if_splits)
      next
        case (four c d s4)
        then show thesis
          using rune [of "[a, b, c, d]" s4] s s1 encode_decode4 [OF four(2)]
          by (auto simp: decode4_def cont_def split: if_splits)
      qed
    qed
  qed
qed

section \<open>Sanitizing\<close>

lemma encode_ascii: "byte c < 0x80 \<Longrightarrow> encode_rune (byte c) = [c]"
  by (simp add: encode_rune_def)

text \<open>The special runes, which are escaped wherever they occur.\<close>

definition special :: "nat \<Rightarrow> bool" where
  "special r \<longleftrightarrow> r \<in> set (map byte (''?*:|<>%/'' @ [CHR 0x22, CHR 0x5C]))"

lemma special_less: "special r \<Longrightarrow> r < 0x80"
  by (auto simp: special_def)

text \<open>The runes that the loop makes of a name: each byte or rune is escaped or copied.\<close>

inductive zipped :: "nat list \<Rightarrow> string \<Rightarrow> bool" where
  zipped_Nil: "zipped [] []"
| zipped_escape: "zipped rs x \<Longrightarrow> zipped (rs @ escapeChar (byte c)) (x @ [c])"
| zipped_plain: "zipped rs x \<Longrightarrow> \<not> special r \<Longrightarrow> set (encode_rune r) \<inter> {c. special (byte c)} = {} \<Longrightarrow>
    (\<forall>c \<in> set (encode_rune r). 0x80 \<le> byte c) \<or> (\<exists>c. r = byte c \<and> encode_rune r = [c]) \<Longrightarrow>
    zipped (rs @ [r]) (x @ encode_rune r)"

lemma hex_nibbles: "byte c div 16 < 16" "byte c mod 16 < 16"
  using byte_less [of c] by (simp_all add: less_mult_imp_div_less)

lemma alnum_plain: "alnum c \<Longrightarrow> byte c < 0x80 \<and> \<not> special (byte c) \<and> c \<noteq> CHR ''.'' \<and> c \<noteq> CHR '' ''"
  by (auto simp: alnum_def Let_def special_def)

lemma encode_escape:
  "concat (map encode_rune (escapeChar (byte c))) = [CHR ''%'', hexTable ! (byte c div 16), hexTable ! (byte c mod 16)]"
proof -
  have "encode_rune (byte (hexTable ! n)) = [hexTable ! n]" if "n < 16" for n
    using that hex_digit [of n] alnum_plain encode_ascii by blast
  moreover have "encode_rune (byte (CHR ''%'')) = ''%''"
    by (rule encode_ascii) simp
  ultimately show ?thesis
    using hex_nibbles [of c] by (simp add: escapeChar_def)
qed

lemma unsanitize_escape:
  "unsanitize_loop acc (concat (map encode_rune (escapeChar (byte c))) @ rest) = unsanitize_loop (acc @ [c]) rest"
proof -
  have "unhex (hexTable ! (byte c div 16)) * 16 + unhex (hexTable ! (byte c mod 16)) = byte c"
    using hex_nibbles [of c] hex_digit by simp
  then show ?thesis
    by (simp add: encode_escape char_of_eq_iff)
qed

lemma unsanitize_plain:
  "CHR ''%'' \<notin> set xs \<Longrightarrow> unsanitize_loop acc (xs @ rest) = unsanitize_loop (acc @ xs) rest"
  by (induction xs arbitrary: acc) auto

lemma zipped_decodes:
  "zipped rs x \<Longrightarrow> unsanitize_loop acc (concat (map encode_rune rs) @ rest) = unsanitize_loop (acc @ x) rest"
proof (induction arbitrary: acc rest rule: zipped.induct)
  case (zipped_escape rs x c)
  then show ?case
    using unsanitize_escape [of "acc @ x" c rest] by simp
next
  case (zipped_plain rs x r)
  have "special (byte (CHR ''%''))"
    by (simp add: special_def)
  then have "CHR ''%'' \<notin> set (encode_rune r)"
    using zipped_plain.hyps by blast
  then show ?case
    using unsanitize_plain [of "encode_rune r" "acc @ x" rest] zipped_plain.IH by simp
qed simp

lemma zipped_last:
  assumes "zipped (rs @ [byte c]) x" and "c = CHR ''.'' \<or> c = CHR '' ''"
  shows "zipped (rs @ escapeChar (byte c)) x"
  using assms(1)
proof (cases rule: zipped.cases)
  case (zipped_escape ss y d)
  then have "byte c = byte (hexTable ! (byte d mod 16))"
    by (simp add: escapeChar_def)
  then have "c = hexTable ! (byte d mod 16)"
    by (simp only: of_char_eq_iff)
  then show ?thesis
    using assms(2) hex_digit [OF hex_nibbles(2) [of d]] alnum_plain by blast
next
  case (zipped_plain ss y r)
  moreover have "byte c < 0x80"
    using assms(2) by auto
  ultimately show ?thesis
    using encode_ascii [of c] zipped.zipped_escape by auto
qed simp

text \<open>No valid sequence of the name stands for the rune that marks errors.\<close>

function no_RuneError :: "string \<Rightarrow> bool" where
  "no_RuneError s =
     (if s = [] then True
      else (case decode_rune s of (r, w) \<Rightarrow>
        if r = RuneError \<and> w \<noteq> 1 then False else no_RuneError (drop (max 1 w) s)))"
  by pat_completeness auto
termination
  by (relation "measure length") auto

declare no_RuneError.simps [simp del]

lemma zip_loop_Nil [simp]: "zip_loop pos [] acc = acc"
  by (simp add: zip_loop.simps)

lemma zip_loop_Cons:
  assumes "s \<noteq> []" and "decode_rune s = (r, w)"
  shows "zip_loop pos s acc =
    (if pos = 0 \<and> (r = byte (CHR ''.'') \<or> r = byte (CHR '' ''))
     then zip_loop (pos + max 1 w) (drop (max 1 w) s) (acc @ escapeChar r)
     else if r = RuneError then zip_loop (pos + max 1 w) (drop (max 1 w) s) (acc @ escapeChar (byte (hd s)))
     else if pos > 1024 then acc @ (if special r then escapeChar r else [r])
     else zip_loop (pos + max 1 w) (drop (max 1 w) s) (acc @ (if special r then escapeChar r else [r])))"
  using assms by (subst zip_loop.simps) (simp add: Let_def special_def)

lemma zipped_step:
  assumes "s \<noteq> []" and "no_RuneError s" and "pos + length s \<le> 1026" and "zipped acc x"
  shows "\<exists>ys t acc'. s = ys @ t \<and> ys \<noteq> [] \<and> no_RuneError t \<and> zipped acc' (x @ ys) \<and>
    zip_loop pos s acc = zip_loop (pos + length ys) t acc'"
proof -
  obtain r w where rw: "decode_rune s = (r, w)"
    by (rule prod.exhaust)
  have nr: "r = RuneError \<longrightarrow> w = 1" "no_RuneError (drop (max 1 w) s)"
    using assms(1,2) rw by (auto simp: no_RuneError.simps [of s] split: if_splits)
  note loop = zip_loop_Cons [OF assms(1) rw, of pos acc]
  from assms(1) rw show ?thesis
  proof (cases rule: decode_rune_cases)
    case (ascii c t)
    have t: "drop (max 1 w) s = t" "r \<noteq> RuneError"
      using ascii by (auto simp: RuneError_def)
    have stop: "pos > 1024 \<Longrightarrow> t = []"
      using assms(3) ascii(1) by (cases t) auto
    have esc: "zipped (acc @ escapeChar r) (x @ [c])"
      unfolding ascii(3) by (rule zipped_escape [OF assms(4)])
    have plain: "zipped (acc @ [r]) (x @ [c])" if "\<not> special r"
      using zipped_plain [OF assms(4) that] that encode_ascii [OF ascii(2)] ascii(3) by simp
    have "\<exists>acc'. zipped acc' (x @ [c]) \<and> zip_loop pos s acc = zip_loop (pos + 1) t acc'"
      using loop t stop esc plain ascii(4) by (cases "pos > 1024") (auto split: if_splits)
    then show ?thesis
      using ascii(1) nr(2) t(1) by (intro exI [of _ "[c]"] exI [of _ t]) auto
  next
    case (rune xs t)
    have t: "drop (max 1 w) s = t" "max 1 w = length xs"
      using rune by auto
    have no: "\<not> pos > 1024" "r \<noteq> byte (CHR ''.'')" "r \<noteq> byte (CHR '' '')" "\<not> special r" "r \<noteq> RuneError"
      using assms(3) rune nr(1) special_less [of r] by auto
    have "set (encode_rune r) \<inter> {c. special (byte c)} = {}"
      using rune(3,6) special_less by fastforce
    then have "zipped (acc @ [r]) (x @ xs)"
      using zipped_plain [OF assms(4) no(4)] rune(3,6) by simp
    moreover have "zip_loop pos s acc = zip_loop (pos + length xs) t (acc @ [r])"
      using loop t no by simp
    ultimately show ?thesis
      using rune(1,2,5) nr(2) t(1) by (intro exI [of _ xs] exI [of _ t]) auto
  next
    case (invalid c t)
    have "zip_loop pos s acc = zip_loop (pos + 1) t (acc @ escapeChar (byte c))"
      using loop invalid by (simp add: RuneError_def)
    then show ?thesis
      using invalid nr(2) zipped_escape [OF assms(4), of c] by (intro exI [of _ "[c]"] exI [of _ t]) auto
  qed
qed

lemma zip_loop_zipped:
  assumes "pos + length s \<le> 1026" and "no_RuneError s" and "zipped acc x"
  shows "zipped (zip_loop pos s acc) (x @ s)"
  using assms
proof (induction "length s" arbitrary: pos s acc x rule: less_induct)
  case less
  show ?case
  proof (cases "s = []")
    case True
    then show ?thesis
      using less.prems by simp
  next
    case False
    then obtain ys t acc' where y: "s = ys @ t" "ys \<noteq> []" "no_RuneError t" "zipped acc' (x @ ys)"
      "zip_loop pos s acc = zip_loop (pos + length ys) t acc'"
      using zipped_step [OF False less.prems(2,1,3)] by blast
    then show ?thesis
      using less.hyps [of t "pos + length ys" acc' "x @ ys"] less.prems(1) by simp
  qed
qed

section \<open>The sanitized name\<close>

lemma zipped_no_special:
  "zipped rs x \<Longrightarrow> set (concat (map encode_rune rs)) \<inter> {c. special (byte c)} \<subseteq> {CHR ''%''}"
proof (induction rule: zipped.induct)
  case (zipped_escape rs x c)
  have "\<not> special (byte (hexTable ! (byte c div 16)))" "\<not> special (byte (hexTable ! (byte c mod 16)))"
    using hex_digit hex_nibbles [of c] alnum_plain by blast+
  then show ?case
    using zipped_escape.IH encode_escape [of c] by auto
qed auto

text \<open>The name does not end in a dot or a space.\<close>

lemma encode_rune_not_Nil: "encode_rune r \<noteq> []"
  by (simp add: encode_rune_def Let_def)

lemma zipped_ends:
  assumes "zipped rs x" and "rs \<noteq> []" and "last rs \<noteq> byte (CHR ''.'')" and "last rs \<noteq> byte (CHR '' '')"
  shows "last (concat (map encode_rune rs)) \<notin> {CHR ''.'', CHR '' ''}"
  using assms(1)
proof (cases rule: zipped.cases)
  case (zipped_escape ss y c)
  then have "last (concat (map encode_rune rs)) = hexTable ! (byte c mod 16)"
    using encode_escape [of c] by simp
  then show ?thesis
    using hex_digit [OF hex_nibbles(2) [of c]] alnum_plain by fastforce
next
  case (zipped_plain ss y r)
  then have l: "last (concat (map encode_rune rs)) = last (encode_rune r)" "last rs = r"
    using encode_rune_not_Nil [of r] by simp_all
  from zipped_plain(6) show ?thesis
  proof
    assume "\<forall>c \<in> set (encode_rune r). 0x80 \<le> byte c"
    then have "0x80 \<le> byte (last (encode_rune r))"
      using encode_rune_not_Nil by simp
    then show ?thesis
      using l(1) by auto
  next
    assume "\<exists>c. r = byte c \<and> encode_rune r = [c]"
    then show ?thesis
      using l assms(3,4) by auto
  qed
qed (use assms(2) in simp)

lemma last_escape: "last (escapeChar c) = byte (hexTable ! (c mod 16))"
  by (simp add: escapeChar_def)

lemma Sanitize_zipped_ends:
  assumes "length s \<le> 1026" and "no_RuneError s"
  shows "\<exists>rs. zipped rs s \<and> SanitizeStringForZip s = concat (map encode_rune rs) \<and>
    (rs \<noteq> [] \<longrightarrow> last rs \<noteq> byte (CHR ''.'') \<and> last rs \<noteq> byte (CHR '' ''))"
proof -
  define rs where "rs = zip_loop 0 s []"
  have z: "zipped rs s"
    using zip_loop_zipped [of 0 s "[]" "[]"] assms zipped_Nil by (simp add: rs_def)
  show ?thesis
  proof (cases "rs \<noteq> [] \<and> (last rs = byte (CHR ''.'') \<or> last rs = byte (CHR '' ''))")
    case True
    then obtain c where c: "last rs = byte c" "c = CHR ''.'' \<or> c = CHR '' ''"
      by blast
    define rs' where "rs' = butlast rs @ escapeChar (byte c)"
    have "rs = butlast rs @ [byte c]"
      using True c by (metis append_butlast_last_id)
    then have "zipped rs' s"
      using zipped_last [of "butlast rs" c s] c(2) z by (simp add: rs'_def)
    moreover have "last rs' = byte (hexTable ! (byte c mod 16))" "rs' \<noteq> []"
      using last_escape [of "byte c"] by (simp_all add: rs'_def escapeChar_def)
    then have "last rs' \<noteq> byte (CHR ''.'')" "last rs' \<noteq> byte (CHR '' '')"
      using hex_digit [OF hex_nibbles(2) [of c]] alnum_plain [of "hexTable ! (byte c mod 16)"] of_char_eq_iff by metis+
    moreover have "SanitizeStringForZip s = concat (map encode_rune rs')"
      using True c by (simp add: SanitizeStringForZip_def rs_def [symmetric] rs'_def Let_def)
    ultimately show ?thesis
      by blast
  next
    case False
    then show ?thesis
      using z by (intro exI [of _ rs]) (auto simp: SanitizeStringForZip_def rs_def [symmetric] Let_def)
  qed
qed

section \<open>Properties\<close>

text \<open>What a name must not contain, to be a component of a path that any file system accepts.\<close>

definition zip_safe :: "string \<Rightarrow> bool" where
  "zip_safe x \<longleftrightarrow> set x \<inter> (set ''?*:|<>/'' \<union> {CHR 0x22, CHR 0x5C}) = {} \<and> x \<noteq> [] \<and>
     last x \<noteq> CHR ''.'' \<and> last x \<noteq> CHR '' ''"

lemma Sanitize_zip_roundtrip:
  assumes "length s \<le> 1026" and "no_RuneError s"
  shows "UnsanitizeComponentForZip (SanitizeStringForZip s) = s"
proof -
  obtain rs where "zipped rs s" "SanitizeStringForZip s = concat (map encode_rune rs)"
    using Sanitize_zipped_ends [OF assms] by blast
  then show ?thesis
    using zipped_decodes [of rs s "[]" "[]"] by (simp add: UnsanitizeComponentForZip_def)
qed

lemma Sanitize_zip_safe:
  assumes "length s \<le> 1026" and "no_RuneError s" and "s \<noteq> []"
  shows "zip_safe (SanitizeStringForZip s)"
proof -
  obtain rs where z: "zipped rs s" "SanitizeStringForZip s = concat (map encode_rune rs)"
    "rs \<noteq> [] \<longrightarrow> last rs \<noteq> byte (CHR ''.'') \<and> last rs \<noteq> byte (CHR '' '')"
    using Sanitize_zipped_ends [OF assms(1,2)] by blast
  have ne: "SanitizeStringForZip s \<noteq> []"
    using Sanitize_zip_roundtrip [OF assms(1,2)] assms(3) by (auto simp: UnsanitizeComponentForZip_def)
  then have "rs \<noteq> []"
    using z(2) by auto
  then have "last (SanitizeStringForZip s) \<notin> {CHR ''.'', CHR '' ''}"
    using zipped_ends [OF z(1)] z(2,3) by simp
  moreover have "c \<notin> set (SanitizeStringForZip s)" if "special (byte c)" "c \<noteq> CHR ''%''" for c
    using zipped_no_special [OF z(1)] that z(2) by auto
  then have "set (SanitizeStringForZip s) \<inter> (set ''?*:|<>/'' \<union> {CHR 0x22, CHR 0x5C}) = {}"
    by (auto simp: special_def)
  ultimately show ?thesis
    using ne by (simp add: zip_safe_def)
qed

text \<open>C34: Names of zip members. Sanitizing the name of a member of a zip file is undone by the
  decoder: every string of at most 1026 bytes, valid UTF-8 or not, that does not hold the
  replacement character U+FFFD comes back unchanged. The sanitized name has no character that
  a file system reserves and does not end in a dot or a space.\<close>

theorem zip_name_roundtrip:
  assumes "length s \<le> 1026" and "no_RuneError s" and "s \<noteq> []"
  shows "UnsanitizeComponentForZip (SanitizeStringForZip s) = s \<and> zip_safe (SanitizeStringForZip s)"
  using Sanitize_zip_roundtrip [OF assms(1,2)] Sanitize_zip_safe [OF assms] by simp

theorem zip_name_roundtrip_witness:
  "UnsanitizeComponentForZip (SanitizeStringForZip (CHR 0xC3 # CHR 0xA9 # CHR 0xFF # ''/..'')) = CHR 0xC3 # CHR 0xA9 # CHR 0xFF # ''/..'' \<and>
   zip_safe (SanitizeStringForZip (CHR 0xC3 # CHR 0xA9 # CHR 0xFF # ''/..''))"
  by (rule zip_name_roundtrip)
     (simp_all add: no_RuneError.simps decode_rune_def decode2_def decode3_def decode4_def cont_def RuneError_def)

text \<open>The replacement character itself is taken for an invalid byte: only the first of its
  three bytes is kept.\<close>

lemma replacement_character_lost:
  "UnsanitizeComponentForZip (SanitizeStringForZip [CHR 0xEF, CHR 0xBF, CHR 0xBD]) = [CHR 0xEF]"
proof -
  have "decode_rune [CHR 0xEF, CHR 0xBF, CHR 0xBD] = (RuneError, 3)"
    by (simp add: decode_rune_def decode2_def decode3_def cont_def RuneError_def)
  then have "zip_loop 0 [CHR 0xEF, CHR 0xBF, CHR 0xBD] [] = escapeChar (byte (CHR 0xEF))"
    by (simp add: zip_loop_Cons RuneError_def)
  moreover have "escapeChar (byte (CHR 0xEF)) \<noteq> []" "last (escapeChar (byte (CHR 0xEF))) = byte (CHR ''F'')"
    by (simp_all add: escapeChar_def hexTable_def)
  ultimately have "SanitizeStringForZip [CHR 0xEF, CHR 0xBF, CHR 0xBD] = concat (map encode_rune (escapeChar (byte (CHR 0xEF))))"
    by (simp add: SanitizeStringForZip_def Let_def)
  then show ?thesis
    using unsanitize_escape [of "[]" "CHR 0xEF" "[]"] by (simp add: UnsanitizeComponentForZip_def)
qed

end
