(* ===== verification/OS_Paths.thy ===== *)
theory OS_Paths
  imports Components Zip_Names "HOL-Library.Countable"
begin

text \<open>
  The paths of the accessors: \<^verbatim>\<open>accessors/pathspec.go\<close>, \<^verbatim>\<open>accessors/manipulators.go\<close> and the type
  \<^verbatim>\<open>OSPath\<close> of \<^verbatim>\<open>accessors/api.go\<close>. A path is a list of components; a manipulator parses and
  prints it in the style of an operating system. Parameters: \<open>js\<close> and \<open>ju\<close> are the JSON encoding
  of path specifications and its decoding, \<open>us\<close> and \<open>up\<close> printing and parsing URLs, \<open>u\<close> and \<open>ef\<close>
  the Unicode tables of \<^verbatim>\<open>strings.ToUpper\<close> and \<^verbatim>\<open>strings.EqualFold\<close>. The lock and the metrics are
  left out. An operation that writes to its \<^verbatim>\<open>OSPath\<close> returns the new one.
\<close>

section \<open>Path specifications\<close>

datatype PathSpec =
  PathSpec (DelegateAccessor: string) (DelegatePath: string) (Delegate: "PathSpec option") (Path: string) (url_based: bool)

instance PathSpec :: countable
  by countable_datatype

abbreviation empty_spec :: PathSpec where
  "empty_spec \<equiv> PathSpec '''' '''' None '''' False"

definition set_Path :: "string \<Rightarrow> PathSpec \<Rightarrow> PathSpec" where
  "set_Path p self = PathSpec (DelegateAccessor self) (DelegatePath self) (Delegate self) p (url_based self)"

definition set_DelegatePath :: "string \<Rightarrow> PathSpec \<Rightarrow> PathSpec" where
  "set_DelegatePath p self = PathSpec (DelegateAccessor self) p (Delegate self) (Path self) (url_based self)"

definition PathSpec_String :: "(PathSpec \<Rightarrow> string) \<Rightarrow> (string \<Rightarrow> string \<Rightarrow> string \<Rightarrow> string) \<Rightarrow> PathSpec \<Rightarrow> string" where
  "PathSpec_String js us self =
     (if url_based self then us (DelegateAccessor self) (DelegatePath self) (Path self) else js self)"

definition GetDelegatePath :: "(PathSpec \<Rightarrow> string) \<Rightarrow> (string \<Rightarrow> string \<Rightarrow> string \<Rightarrow> string) \<Rightarrow> PathSpec \<Rightarrow> string" where
  "GetDelegatePath js us self =
     (case Delegate self of Some d \<Rightarrow> PathSpec_String js us d | None \<Rightarrow> DelegatePath self)"

definition GetDelegateAccessor :: "PathSpec \<Rightarrow> string" where
  "GetDelegateAccessor self = DelegateAccessor self"

definition PathSpecFromString ::
  "(string \<Rightarrow> PathSpec option) \<Rightarrow> (string \<Rightarrow> (string \<times> string \<times> string) option) \<Rightarrow> string \<Rightarrow> PathSpec result" where
  "PathSpecFromString ju up parsed =
     (if length parsed = 0 then Ok empty_spec
      else if parsed ! 0 = CHR ''{'' then
        (case ju parsed of Some result \<Rightarrow> Ok result | None \<Rightarrow> Err (Errorf ''invalid JSON''))
      else
        (case up parsed of
           None \<Rightarrow> Err (Errorf ''Invalid PathSpec'')
         | Some (scheme, path, fragment) \<Rightarrow>
             if length scheme = 1 then Ok (PathSpec '''' parsed None '''' False)
             else Ok (PathSpec scheme path None fragment True)))"

definition maybeParsePathSpec :: "(string \<Rightarrow> PathSpec option) \<Rightarrow> string \<Rightarrow> PathSpec result" where
  "maybeParsePathSpec ju path =
     (if has_prefix path ''{'' then
        (case ju path of Some pathspec \<Rightarrow> Ok pathspec | None \<Rightarrow> Err (Errorf ''While decoding pathspec''))
      else Ok (PathSpec '''' '''' None path False))"

section \<open>Manipulators\<close>

datatype PathManipulator =
    GenericPathManipulator string
  | LinuxPathManipulator
  | WindowsPathManipulator
  | WindowsNTFSManipulator
  | WindowsRegistryPathManipulator
  | PathSpecPathManipulator
  | FileStorePathManipulator
  | RawFileManipulator
  | ZipFileManipulator

record OSPath =
  Components :: "string list"
  pathspec :: "PathSpec option"
  serialized :: "string option"
  Manipulator :: PathManipulator

definition EqualFold :: "(string \<Rightarrow> string \<Rightarrow> bool) \<Rightarrow> string \<Rightarrow> string \<Rightarrow> bool" where
  "EqualFold ef a b = (if list_all ascii (a @ b) then map ascii_lower a = map ascii_lower b else ef a b)"

definition ComponentEqual :: "(string \<Rightarrow> string \<Rightarrow> bool) \<Rightarrow> PathManipulator \<Rightarrow> string \<Rightarrow> string \<Rightarrow> bool" where
  "ComponentEqual ef m a b =
     (case m of
        WindowsPathManipulator \<Rightarrow> EqualFold ef a b
      | WindowsNTFSManipulator \<Rightarrow> EqualFold ef a b
      | ZipFileManipulator \<Rightarrow> EqualFold ef a b
      | _ \<Rightarrow> a = b)"

subsection \<open>Regular expressions for Windows devices\<close>

text \<open>How many bytes of the string \<^verbatim>\<open>[a-z]\<close> matches when case is ignored: the long s and the
  Kelvin sign fold to ASCII letters.\<close>

definition letter_len :: "string \<Rightarrow> nat" where
  "letter_len s =
     (case s of
        [] \<Rightarrow> 0
      | c # _ \<Rightarrow>
          if ascii_letter c then 1
          else if has_prefix s [CHR 0xC5, CHR 0xBF] then 2
          else if has_prefix s [CHR 0xE2, CHR 0x84, CHR 0xAA] then 3
          else 0)"

text \<open>What \<^verbatim>\<open>.*\<close> matches, and a letter followed by a colon: its length.\<close>

definition line :: "string \<Rightarrow> string" where
  "line s = takeWhile (\<lambda>c. c \<noteq> CHR 0x0A) s"

definition drive_len :: "string \<Rightarrow> nat option" where
  "drive_len s =
     (let n = letter_len s in if n > 0 \<and> has_prefix (drop n s) '':'' then Some (Suc n) else None)"

definition driveRegex :: "string \<Rightarrow> bool" where
  "driveRegex s \<longleftrightarrow> drive_len (if s \<noteq> [] \<and> is_sep (hd s) then tl s else s) \<noteq> None"

definition device_prefix :: "string \<Rightarrow> bool" where
  "device_prefix s \<longleftrightarrow>
     (case s of
        a # b # c # d # _ \<Rightarrow> a = CHR 0x5C \<and> b = CHR 0x5C \<and> (c = CHR ''?'' \<or> c = CHR ''.'') \<and> d = CHR 0x5C
      | _ \<Rightarrow> False)"

definition deviceDriveRegex :: "string \<Rightarrow> (string \<times> string) option" where
  "deviceDriveRegex s =
     (if device_prefix s then
        (case drive_len (drop 4 s) of
           Some n \<Rightarrow> Some (take (4 + n) s, line (drop (4 + n) s))
         | None \<Rightarrow> None)
      else None)"

definition globalroot :: string where
  "globalroot = ''globalroot'' @ [CHR 0x5C] @ ''device'' @ [CHR 0x5C]"

definition deviceDirectoryRegex :: "string \<Rightarrow> (string \<times> string) option" where
  "deviceDirectoryRegex s =
     (if device_prefix s \<and> map ascii_lower (take 18 (drop 4 s)) = globalroot then
        (let device = takeWhile (\<lambda>c. \<not> is_sep c) (drop 22 s); n = 22 + length device
         in if device \<noteq> [] then Some (take n s, line (drop n s)) else None)
      else None)"

definition uncRegex :: "string \<Rightarrow> (string \<times> string) option" where
  "uncRegex s =
     (if has_prefix s [CHR 0x5C, CHR 0x5C] then
        (let host = takeWhile (\<lambda>c. c \<noteq> CHR 0x5C) (drop 2 s); n = 2 + length host
         in if host \<noteq> [] \<and> n < length s then Some (take n s, line (drop (Suc n) s)) else None)
      else None)"

subsection \<open>Parsing\<close>

text \<open>The components of a path in each style.\<close>

fun slash_loop :: "string list \<Rightarrow> string list" where
  "slash_loop [] = []"
| "slash_loop (c # cs) = (if c = '''' \<or> c = ''.'' \<or> c = ''..'' then slash_loop cs else c # slash_loop cs)"

definition Windows_components :: "string \<Rightarrow> string list" where
  "Windows_components path =
     (case deviceDriveRegex path of
        Some (device, rest) \<Rightarrow> device # SplitComponents rest
      | None \<Rightarrow>
          (case deviceDirectoryRegex path of
             Some (device, rest) \<Rightarrow> device # SplitComponents rest
           | None \<Rightarrow>
               (case uncRegex path of
                  Some (host, rest) \<Rightarrow> host # SplitComponents rest
                | None \<Rightarrow> SplitComponents path)))"

definition ConvertToDevice :: "(string \<Rightarrow> string) \<Rightarrow> string \<Rightarrow> string" where
  "ConvertToDevice u component =
     (if driveRegex component then [CHR 0x5C, CHR 0x5C, CHR ''.'', CHR 0x5C] @ ToUpper u component else component)"

definition hive_name :: "(string \<Rightarrow> string) \<Rightarrow> string \<Rightarrow> string" where
  "hive_name u hive =
     (let caps = ToUpper u hive
      in if caps = ''HKCU'' then ''HKEY_CURRENT_USER''
         else if caps = ''HKLM'' then ''HKEY_LOCAL_MACHINE''
         else if caps = ''HKU'' then ''HKEY_USERS''
         else if has_prefix hive ''HKEY_'' then caps
         else hive)"

definition Generic_PathParse :: "(string \<Rightarrow> PathSpec option) \<Rightarrow> string \<Rightarrow> OSPath \<Rightarrow> OSPath result" where
  "Generic_PathParse ju path result =
     (case maybeParsePathSpec ju path of
        Err e \<Rightarrow> Err e
      | Ok spec \<Rightarrow> Ok (result\<lparr>pathspec := Some spec, Components := SplitComponents (Path spec)\<rparr>))"

definition Linux_PathParse :: "(string \<Rightarrow> PathSpec option) \<Rightarrow> string \<Rightarrow> OSPath \<Rightarrow> OSPath result" where
  "Linux_PathParse ju path result =
     (case maybeParsePathSpec ju path of
        Err e \<Rightarrow> Err e
      | Ok spec \<Rightarrow> Ok (result\<lparr>pathspec := Some spec, Components := slash_loop (split_on (CHR ''/'') (Path spec))\<rparr>))"

definition Windows_PathParse :: "(string \<Rightarrow> PathSpec option) \<Rightarrow> string \<Rightarrow> OSPath \<Rightarrow> OSPath result" where
  "Windows_PathParse ju path result =
     (case maybeParsePathSpec ju path of
        Err e \<Rightarrow> Err e
      | Ok spec \<Rightarrow> Ok (result\<lparr>pathspec := Some spec, Components := Windows_components (Path spec)\<rparr>))"

definition NTFS_PathParse :: "(string \<Rightarrow> string) \<Rightarrow> (string \<Rightarrow> PathSpec option) \<Rightarrow> string \<Rightarrow> OSPath \<Rightarrow> OSPath result" where
  "NTFS_PathParse u ju path result =
     (case Windows_PathParse ju path result of
        Err e \<Rightarrow> Err e
      | Ok result \<Rightarrow>
          Ok (case Components result of [] \<Rightarrow> result | c # cs \<Rightarrow> result\<lparr>Components := ConvertToDevice u c # cs\<rparr>))"

definition Registry_PathParse :: "(string \<Rightarrow> string) \<Rightarrow> (string \<Rightarrow> PathSpec option) \<Rightarrow> string \<Rightarrow> OSPath \<Rightarrow> OSPath result" where
  "Registry_PathParse u ju path result =
     (case maybeParsePathSpec ju path of
        Err e \<Rightarrow> Err e
      | Ok spec \<Rightarrow>
          Ok (result\<lparr>pathspec := Some spec,
                Components := (case SplitComponents (Path spec) of [] \<Rightarrow> [] | c # cs \<Rightarrow> hive_name u c # cs)\<rparr>))"

definition PathSpec_PathParse ::
  "(string \<Rightarrow> (string \<times> string \<times> string) option) \<Rightarrow> (string \<Rightarrow> PathSpec option) \<Rightarrow> string \<Rightarrow> OSPath \<Rightarrow> OSPath result" where
  "PathSpec_PathParse up ju path result =
     (case PathSpecFromString ju up path of
        Err e \<Rightarrow> Err e
      | Ok spec \<Rightarrow> Ok (result\<lparr>pathspec := Some spec, Components := [Path spec]\<rparr>))"

definition FileStore_PathParse :: "(string \<Rightarrow> PathSpec option) \<Rightarrow> string \<Rightarrow> OSPath \<Rightarrow> OSPath result" where
  "FileStore_PathParse ju path result =
     (case maybeParsePathSpec ju path of
        Err e \<Rightarrow> Err e
      | Ok spec \<Rightarrow>
          (let cs = SplitComponents (Path spec);
               fs = PathSpec ''fs'' ''fs:'' None '''' False; ds = PathSpec ''fs'' ''ds:'' None '''' False
           in if length cs > 0 \<and> cs ! 0 = ''fs:'' then Ok (result\<lparr>pathspec := Some fs, Components := tl cs\<rparr>)
              else if length cs > 0 \<and> cs ! 0 = ''ds:'' then Ok (result\<lparr>pathspec := Some ds, Components := tl cs\<rparr>)
              else Ok (result\<lparr>pathspec := Some fs, Components := cs\<rparr>)))"

definition Raw_PathParse :: "string \<Rightarrow> OSPath \<Rightarrow> OSPath result" where
  "Raw_PathParse path result = Ok (result\<lparr>Components := [path]\<rparr>)"

definition Zip_PathParse :: "(string \<Rightarrow> PathSpec option) \<Rightarrow> string \<Rightarrow> OSPath \<Rightarrow> OSPath result" where
  "Zip_PathParse ju path result =
     (case maybeParsePathSpec ju path of
        Err e \<Rightarrow> Err e
      | Ok spec \<Rightarrow> Ok (result\<lparr>pathspec := Some spec, Components := map UnsanitizeComponentForZip (slash_loop (split_on (CHR ''/'') (Path spec)))\<rparr>))"

definition PathParse ::
  "(string \<Rightarrow> PathSpec option) \<Rightarrow> (string \<Rightarrow> (string \<times> string \<times> string) option) \<Rightarrow> (string \<Rightarrow> string) \<Rightarrow>
   string \<Rightarrow> OSPath \<Rightarrow> OSPath result" where
  "PathParse ju up u path result =
     (case Manipulator result of
        GenericPathManipulator _ \<Rightarrow> Generic_PathParse ju path result
      | LinuxPathManipulator \<Rightarrow> Linux_PathParse ju path result
      | WindowsPathManipulator \<Rightarrow> Windows_PathParse ju path result
      | WindowsNTFSManipulator \<Rightarrow> NTFS_PathParse u ju path result
      | WindowsRegistryPathManipulator \<Rightarrow> Registry_PathParse u ju path result
      | PathSpecPathManipulator \<Rightarrow> PathSpec_PathParse up ju path result
      | FileStorePathManipulator \<Rightarrow> FileStore_PathParse ju path result
      | RawFileManipulator \<Rightarrow> Raw_PathParse path result
      | ZipFileManipulator \<Rightarrow> Zip_PathParse ju path result)"

lemmas PathParse_defs = PathParse_def Generic_PathParse_def Linux_PathParse_def Windows_PathParse_def NTFS_PathParse_def
  Registry_PathParse_def PathSpec_PathParse_def FileStore_PathParse_def Raw_PathParse_def Zip_PathParse_def

subsection \<open>Printing\<close>

definition spec_of :: "OSPath \<Rightarrow> PathSpec" where
  "spec_of path = (case pathspec path of Some spec \<Rightarrow> spec | None \<Rightarrow> empty_spec)"

text \<open>Most manipulators copy the specification of a path unless it has none; those for Windows
  paths, the registry and zip files write to the specification of the path itself.\<close>

definition copied :: "OSPath \<Rightarrow> string \<Rightarrow> OSPath \<times> PathSpec" where
  "copied path p =
     (let spec = set_Path p (spec_of path)
      in (if pathspec path = None then path\<lparr>pathspec := Some spec\<rparr> else path, spec))"

definition shared :: "OSPath \<Rightarrow> string \<Rightarrow> OSPath \<times> PathSpec" where
  "shared path p = (let spec = set_Path p (spec_of path) in (path\<lparr>pathspec := Some spec\<rparr>, spec))"

definition Generic_AsPathSpec :: "string \<Rightarrow> OSPath \<Rightarrow> OSPath \<times> PathSpec" where
  "Generic_AsPathSpec Sep path =
     (let sep = (if Sep = '''' then ''/'' else Sep)
      in (path, set_Path (JoinComponents (Components path) sep) (spec_of path)))"

definition Linux_AsPathSpec :: "OSPath \<Rightarrow> OSPath \<times> PathSpec" where
  "Linux_AsPathSpec path = copied path (''/'' @ join ''/'' (Components path))"

definition Windows_AsPathSpec :: "OSPath \<Rightarrow> OSPath \<times> PathSpec" where
  "Windows_AsPathSpec path =
     shared path (case Components path of [] \<Rightarrow> '''' | c # cs \<Rightarrow> c @ JoinComponents cs [CHR 0x5C])"

text \<open>An NTFS path without components keeps the text it has.\<close>

definition NTFS_AsPathSpec :: "OSPath \<Rightarrow> OSPath \<times> PathSpec" where
  "NTFS_AsPathSpec path =
     copied path (case Components path of
                    [] \<Rightarrow> Path (spec_of path)
                  | [c] \<Rightarrow> c
                  | c # cs \<Rightarrow> c @ JoinComponents cs [CHR 0x5C])"

definition Registry_AsPathSpec :: "OSPath \<Rightarrow> OSPath \<times> PathSpec" where
  "Registry_AsPathSpec path = shared path (trim_prefix (JoinComponents (Components path) [CHR 0x5C]) [CHR 0x5C])"

definition PathSpec_AsPathSpec :: "OSPath \<Rightarrow> OSPath \<times> PathSpec" where
  "PathSpec_AsPathSpec path = copied path (Path (spec_of path))"

definition FileStore_AsPathSpec :: "OSPath \<Rightarrow> OSPath \<times> PathSpec" where
  "FileStore_AsPathSpec path = copied path (trim_prefix (JoinComponents (Components path) ''/'') ''/'')"

definition Raw_AsPathSpec :: "OSPath \<Rightarrow> OSPath \<times> PathSpec" where
  "Raw_AsPathSpec path = (path, set_Path (case Components path of [] \<Rightarrow> '''' | c # _ \<Rightarrow> c) empty_spec)"

definition Zip_AsPathSpec :: "OSPath \<Rightarrow> OSPath \<times> PathSpec" where
  "Zip_AsPathSpec path =
     shared path (''/'' @ join ''/'' (map SanitizeStringForZip (filter (\<lambda>c. c \<noteq> '''') (Components path))))"

definition AsPathSpec :: "OSPath \<Rightarrow> OSPath \<times> PathSpec" where
  "AsPathSpec path =
     (case Manipulator path of
        GenericPathManipulator sep \<Rightarrow> Generic_AsPathSpec sep path
      | LinuxPathManipulator \<Rightarrow> Linux_AsPathSpec path
      | WindowsPathManipulator \<Rightarrow> Windows_AsPathSpec path
      | WindowsNTFSManipulator \<Rightarrow> NTFS_AsPathSpec path
      | WindowsRegistryPathManipulator \<Rightarrow> Registry_AsPathSpec path
      | PathSpecPathManipulator \<Rightarrow> PathSpec_AsPathSpec path
      | FileStorePathManipulator \<Rightarrow> FileStore_AsPathSpec path
      | RawFileManipulator \<Rightarrow> Raw_AsPathSpec path
      | ZipFileManipulator \<Rightarrow> Zip_AsPathSpec path)"

lemmas AsPathSpec_defs = AsPathSpec_def Generic_AsPathSpec_def Linux_AsPathSpec_def Windows_AsPathSpec_def NTFS_AsPathSpec_def
  Registry_AsPathSpec_def PathSpec_AsPathSpec_def FileStore_AsPathSpec_def Raw_AsPathSpec_def Zip_AsPathSpec_def
  copied_def shared_def spec_of_def set_Path_def

text \<open>A path with a delegate is printed as JSON.\<close>

definition Generic_PathJoin ::
  "(PathSpec \<Rightarrow> string) \<Rightarrow> (string \<Rightarrow> string \<Rightarrow> string \<Rightarrow> string) \<Rightarrow> OSPath \<Rightarrow> (OSPath \<times> string) result" where
  "Generic_PathJoin js us path =
     (let (path, result) = AsPathSpec path
      in Ok (path, if GetDelegateAccessor result = '''' \<and> GetDelegatePath js us result = ''''
                   then Path result else PathSpec_String js us result))"

definition PathSpec_PathJoin ::
  "(PathSpec \<Rightarrow> string) \<Rightarrow> (string \<Rightarrow> string \<Rightarrow> string \<Rightarrow> string) \<Rightarrow> OSPath \<Rightarrow> (OSPath \<times> string) result" where
  "PathSpec_PathJoin js us path =
     Ok (path, case pathspec path of
                 Some spec \<Rightarrow> PathSpec_String js us spec
               | None \<Rightarrow> (if length (Components path) = 1 then Components path ! 0 else ''''))"

definition FileStore_PathJoin :: "OSPath \<Rightarrow> (OSPath \<times> string) result" where
  "FileStore_PathJoin path =
     (case pathspec path of
        None \<Rightarrow> Err (Panic ''nil pathspec'')
      | Some spec \<Rightarrow> Ok (path, DelegatePath spec @ JoinComponents (Components path) ''/''))"

definition Raw_PathJoin :: "OSPath \<Rightarrow> (OSPath \<times> string) result" where
  "Raw_PathJoin path = Ok (path, if length (Components path) = 0 then '''' else Components path ! 0)"

definition PathJoin ::
  "(PathSpec \<Rightarrow> string) \<Rightarrow> (string \<Rightarrow> string \<Rightarrow> string \<Rightarrow> string) \<Rightarrow> OSPath \<Rightarrow> (OSPath \<times> string) result" where
  "PathJoin js us path =
     (case Manipulator path of
        RawFileManipulator \<Rightarrow> Raw_PathJoin path
      | PathSpecPathManipulator \<Rightarrow> PathSpec_PathJoin js us path
      | FileStorePathManipulator \<Rightarrow> FileStore_PathJoin path
      | _ \<Rightarrow> Generic_PathJoin js us path)"

lemmas PathJoin_defs = PathJoin_def Generic_PathJoin_def PathSpec_PathJoin_def FileStore_PathJoin_def Raw_PathJoin_def

section \<open>Operations of paths\<close>

definition new_path :: "PathManipulator \<Rightarrow> OSPath" where
  "new_path m = \<lparr>Components = [], pathspec = None, serialized = None, Manipulator = m\<rparr>"

definition NewOSPath ::
  "(string \<Rightarrow> PathSpec option) \<Rightarrow> (string \<Rightarrow> (string \<times> string \<times> string) option) \<Rightarrow> (string \<Rightarrow> string) \<Rightarrow>
   PathManipulator \<Rightarrow> string \<Rightarrow> OSPath result" where
  "NewOSPath ju up u m path = PathParse ju up u path (new_path m)"

text \<open>The native path of the operating system the program runs on.\<close>

definition NewNativePath ::
  "(string \<Rightarrow> PathSpec option) \<Rightarrow> (string \<Rightarrow> (string \<times> string \<times> string) option) \<Rightarrow> (string \<Rightarrow> string) \<Rightarrow>
   string \<Rightarrow> string \<Rightarrow> OSPath result" where
  "NewNativePath ju up u GOOS path =
     (if GOOS = ''windows'' then NewOSPath ju up u LinuxPathManipulator path
      else NewOSPath ju up u WindowsPathManipulator path)"

definition WindowsNTFSPathFromOSPath :: "(string \<Rightarrow> string) \<Rightarrow> OSPath \<Rightarrow> OSPath" where
  "WindowsNTFSPathFromOSPath u path =
     (new_path WindowsNTFSManipulator)\<lparr>Components :=
        (case Components path of [] \<Rightarrow> [] | c # cs \<Rightarrow> ConvertToDevice u c # cs)\<rparr>"

definition OS_Copy :: "OSPath \<Rightarrow> OSPath" where
  "OS_Copy self = self\<lparr>serialized := None\<rparr>"

definition SetPathSpec ::
  "(string \<Rightarrow> PathSpec option) \<Rightarrow> (string \<Rightarrow> (string \<times> string \<times> string) option) \<Rightarrow> (string \<Rightarrow> string) \<Rightarrow>
   PathSpec \<Rightarrow> OSPath \<Rightarrow> OSPath result" where
  "SetPathSpec ju up u spec self =
     (case PathParse ju up u (Path spec) self of
        Err e \<Rightarrow> Err e
      | Ok self \<Rightarrow> Ok (self\<lparr>pathspec := Some spec\<rparr>))"

text \<open>The printed path is kept.\<close>

definition OS_String ::
  "(PathSpec \<Rightarrow> string) \<Rightarrow> (string \<Rightarrow> string \<Rightarrow> string \<Rightarrow> string) \<Rightarrow> OSPath \<Rightarrow> (OSPath \<times> string) result" where
  "OS_String js us self =
     (case serialized self of
        Some s \<Rightarrow> Ok (self, s)
      | None \<Rightarrow>
          (case PathJoin js us self of
             Err e \<Rightarrow> Err e
           | Ok (self, res) \<Rightarrow> Ok (self\<lparr>serialized := Some res\<rparr>, res)))"

text \<open>A nested specification is printed into the delegate path, of the path itself where the
  manipulator does not copy it.\<close>

definition OS_DelegatePath :: "(PathSpec \<Rightarrow> string) \<Rightarrow> OSPath \<Rightarrow> OSPath \<times> string" where
  "OS_DelegatePath js self =
     (let (self, spec) = AsPathSpec self
      in case Delegate spec of
           Some d \<Rightarrow>
             if DelegatePath spec = '''' then
               (if Manipulator self \<in> {WindowsPathManipulator, WindowsRegistryPathManipulator, ZipFileManipulator}
                then self\<lparr>pathspec := Some (set_DelegatePath (js d) spec)\<rparr> else self, js d)
             else (self, DelegatePath spec)
         | None \<Rightarrow> (self, DelegatePath spec))"

definition OS_DelegateAccessor :: "OSPath \<Rightarrow> OSPath \<times> string" where
  "OS_DelegateAccessor self = map_prod id DelegateAccessor (AsPathSpec self)"

definition OS_Path :: "OSPath \<Rightarrow> OSPath \<times> string" where
  "OS_Path self = map_prod id Path (AsPathSpec self)"

definition OS_Parse ::
  "(string \<Rightarrow> PathSpec option) \<Rightarrow> (string \<Rightarrow> (string \<times> string \<times> string) option) \<Rightarrow> (string \<Rightarrow> string) \<Rightarrow>
   string \<Rightarrow> OSPath \<Rightarrow> OSPath result" where
  "OS_Parse ju up u path self = PathParse ju up u path (new_path (Manipulator self))"

definition OS_Equal ::
  "(PathSpec \<Rightarrow> string) \<Rightarrow> (string \<Rightarrow> string \<Rightarrow> string \<Rightarrow> string) \<Rightarrow> OSPath \<Rightarrow> OSPath \<Rightarrow> bool result" where
  "OS_Equal js us self other =
     (if Components self \<noteq> Components other then Ok False
      else (case (OS_String js us self, OS_String js us other) of
              (Ok (_, a), Ok (_, b)) \<Rightarrow> Ok (a = b)
            | (Err e, _) \<Rightarrow> Err e
            | (_, Err e) \<Rightarrow> Err e))"

definition Basename :: "OSPath \<Rightarrow> string" where
  "Basename self =
     (if length (Components self) > 0 then Components self ! (length (Components self) - 1) else '''')"

definition Dirname :: "OSPath \<Rightarrow> OSPath" where
  "Dirname self =
     (let result = OS_Copy self
      in if length (Components result) > 0
         then result\<lparr>Components := take (length (Components self) - 1) (Components result)\<rparr> else result)"

fun trim_loop :: "(string \<Rightarrow> string \<Rightarrow> bool) \<Rightarrow> string list \<Rightarrow> string list \<Rightarrow> string list" where
  "trim_loop eq [] cs = []"
| "trim_loop eq (c # rest) [] = c # rest"
| "trim_loop eq (c # rest) (d # ds) = (if \<not> eq c d then c # rest else trim_loop eq rest ds)"

definition TrimComponents :: "(string \<Rightarrow> string \<Rightarrow> bool) \<Rightarrow> string list \<Rightarrow> OSPath \<Rightarrow> OSPath" where
  "TrimComponents ef cs self =
     (if cs = [] then OS_Copy self
      else (OS_Copy self)\<lparr>Components := trim_loop (ComponentEqual ef (Manipulator self)) (Components self) cs\<rparr>)"

fun prefix_loop :: "(string \<Rightarrow> string \<Rightarrow> bool) \<Rightarrow> string list \<Rightarrow> string list \<Rightarrow> bool result" where
  "prefix_loop eq [] xs = Ok True"
| "prefix_loop eq (c # cs) [] = Err (Panic ''index out of range'')"
| "prefix_loop eq (c # cs) (x # xs) = (if \<not> eq c x then Ok False else prefix_loop eq cs xs)"

definition HasPrefix :: "(string \<Rightarrow> string \<Rightarrow> bool) \<Rightarrow> string list \<Rightarrow> OSPath \<Rightarrow> bool result" where
  "HasPrefix ef cs self =
     (if length (Components self) > length cs then Ok False
      else prefix_loop (ComponentEqual ef (Manipulator self)) cs (Components self))"

definition Append :: "string list \<Rightarrow> OSPath \<Rightarrow> OSPath" where
  "Append children self = (OS_Copy self)\<lparr>Components := Components self @ children\<rparr>"

definition OS_Clear :: "OSPath \<Rightarrow> OSPath" where
  "OS_Clear self = new_path (Manipulator self)"

section \<open>Printing and parsing components\<close>

text \<open>The text of a path and the components of a text, in each style.\<close>

definition NTFS_components :: "(string \<Rightarrow> string) \<Rightarrow> string \<Rightarrow> string list" where
  "NTFS_components u path =
     (case Windows_components path of [] \<Rightarrow> [] | c # cs \<Rightarrow> ConvertToDevice u c # cs)"

definition Registry_components :: "(string \<Rightarrow> string) \<Rightarrow> string \<Rightarrow> string list" where
  "Registry_components u path =
     (case SplitComponents path of [] \<Rightarrow> [] | c # cs \<Rightarrow> hive_name u c # cs)"

definition components_of :: "(string \<Rightarrow> string) \<Rightarrow> PathManipulator \<Rightarrow> string \<Rightarrow> string list" where
  "components_of u m path =
     (case m of
        LinuxPathManipulator \<Rightarrow> slash_loop (split_on (CHR ''/'') path)
      | WindowsPathManipulator \<Rightarrow> Windows_components path
      | WindowsNTFSManipulator \<Rightarrow> NTFS_components u path
      | WindowsRegistryPathManipulator \<Rightarrow> Registry_components u path
      | ZipFileManipulator \<Rightarrow> map UnsanitizeComponentForZip (slash_loop (split_on (CHR ''/'') path))
      | _ \<Rightarrow> SplitComponents path)"

definition path_text :: "OSPath \<Rightarrow> string" where
  "path_text path =
     (let cs = Components path;
          old = (case pathspec path of Some spec \<Rightarrow> Path spec | None \<Rightarrow> '''')
      in case Manipulator path of
           GenericPathManipulator sep \<Rightarrow> JoinComponents cs (if sep = '''' then ''/'' else sep)
         | LinuxPathManipulator \<Rightarrow> ''/'' @ join ''/'' cs
         | WindowsPathManipulator \<Rightarrow> (case cs of [] \<Rightarrow> '''' | c # cs \<Rightarrow> c @ JoinComponents cs [CHR 0x5C])
         | WindowsNTFSManipulator \<Rightarrow>
             (case cs of [] \<Rightarrow> old | [c] \<Rightarrow> c | c # cs \<Rightarrow> c @ JoinComponents cs [CHR 0x5C])
         | WindowsRegistryPathManipulator \<Rightarrow> trim_prefix (JoinComponents cs [CHR 0x5C]) [CHR 0x5C]
         | PathSpecPathManipulator \<Rightarrow> old
         | FileStorePathManipulator \<Rightarrow> trim_prefix (JoinComponents cs ''/'') ''/''
         | RawFileManipulator \<Rightarrow> (case cs of [] \<Rightarrow> '''' | c # _ \<Rightarrow> c)
         | ZipFileManipulator \<Rightarrow> ''/'' @ join ''/'' (map SanitizeStringForZip (filter (\<lambda>c. c \<noteq> '''') cs)))"

text \<open>Paths separated by slashes.\<close>

definition plain :: "string \<Rightarrow> bool" where
  "plain c \<longleftrightarrow> ordinary c \<and> CHR ''/'' \<notin> set c"

lemma slash_loop_ordinary: "list_all ordinary cs \<Longrightarrow> slash_loop cs = cs"
  by (induction cs) (auto simp: ordinary_def)

lemma slash_loop_filter: "slash_loop cs = filter ordinary cs"
  by (induction cs) (auto simp: ordinary_def)

lemma slash_roundtrip:
  assumes "list_all plain cs"
  shows "slash_loop (split_on (CHR ''/'') (''/'' @ join ''/'' cs)) = cs"
proof -
  have "list_all ordinary cs" "\<And>x. x \<in> set cs \<Longrightarrow> CHR ''/'' \<notin> set x"
    using assms by (simp_all add: list_all_iff plain_def)
  then show ?thesis
    using split_on_join [of cs "CHR ''/''"] by (cases "cs = []") (simp_all add: slash_loop_ordinary)
qed

text \<open>Windows paths: the first component is not quoted.\<close>

abbreviation backslash :: char where
  "backslash \<equiv> CHR 0x5C"

definition tail_ok :: "string list \<Rightarrow> bool" where
  "tail_ok cs \<longleftrightarrow> list_all ordinary cs \<and> (cs \<noteq> [] \<longrightarrow> \<not> drive_letter (hd cs)) \<and> list_all (\<lambda>c. CHR 0x0A \<notin> set c) cs"

lemma split_tail:
  assumes "list_all ordinary cs"
  shows "split_loop (JoinComponents cs [backslash]) acc = acc @ cs"
proof (cases cs)
  case Nil
  then show ?thesis
    by (simp add: JoinComponents_def)
next
  case (Cons c ds)
  have sep: "is_sep backslash"
    by (simp add: is_sep_def)
  then have "split_loop (join [backslash] (map escapeComponent cs)) acc = acc @ cs"
    using split_loop_join assms by blast
  then show ?thesis
    using JoinComponents_eq [of c ds "[backslash]"] assms Cons split_loop_sep [OF sep] by (auto split: if_splits)
qed

lemma tail_text:
  assumes "tail_ok cs"
  shows "JoinComponents cs [backslash] = [] \<longleftrightarrow> cs = []"
    "cs \<noteq> [] \<Longrightarrow> \<exists>t. JoinComponents cs [backslash] = backslash # t"
    "line (JoinComponents cs [backslash]) = JoinComponents cs [backslash]"
proof -
  have j: "cs \<noteq> [] \<Longrightarrow> JoinComponents cs [backslash] = backslash # join [backslash] (map escapeComponent cs)"
    using JoinComponents_eq [of "hd cs" "tl cs" "[backslash]"] assms by (auto simp: tail_ok_def)
  then show "JoinComponents cs [backslash] = [] \<longleftrightarrow> cs = []"
    "cs \<noteq> [] \<Longrightarrow> \<exists>t. JoinComponents cs [backslash] = backslash # t"
    by (auto simp: JoinComponents_def)
  have esc: "CHR 0x0A \<notin> set (escapeComponent c)" if "CHR 0x0A \<notin> set c" for c
    using that by (auto simp: escapeComponent_eq dbl_def split: if_splits)
  have "CHR 0x0A \<notin> set (join [backslash] xs)" if "\<forall>x \<in> set xs. CHR 0x0A \<notin> set x" for xs
    using that by (induction "[backslash]" xs rule: join.induct) auto
  then have "CHR 0x0A \<notin> set (join [backslash] (map escapeComponent cs))"
    using assms esc by (simp add: tail_ok_def list_all_iff)
  then have "CHR 0x0A \<notin> set (JoinComponents cs [backslash])"
    using j by (cases "cs = []") (auto simp: JoinComponents_def)
  then show "line (JoinComponents cs [backslash]) = JoinComponents cs [backslash]"
    unfolding line_def by (intro takeWhile_eq_all_conv [THEN iffD2]) auto
qed

text \<open>The four kinds of first components: a plain name such as a drive, the device of a drive,
  another device, and a host, which is only taken for one if something follows.\<close>

definition plain_first :: "string \<Rightarrow> bool" where
  "plain_first c \<longleftrightarrow> ordinary c \<and> \<not> needs_quote c \<and> hd c \<noteq> CHR ''{''"

definition device_drive :: "string \<Rightarrow> bool" where
  "device_drive c \<longleftrightarrow> device_prefix c \<and> drive_letter (drop 4 c)"

definition device_dir :: "string \<Rightarrow> bool" where
  "device_dir c \<longleftrightarrow> device_prefix c \<and> map ascii_lower (take 18 (drop 4 c)) = globalroot \<and>
     drop 22 c \<noteq> [] \<and> list_all (\<lambda>x. \<not> is_sep x) (drop 22 c)"

definition unc_host :: "string \<Rightarrow> bool" where
  "unc_host c \<longleftrightarrow> has_prefix c [backslash, backslash] \<and> backslash \<notin> set (drop 2 c) \<and> drop 2 c \<notin> {'''', ''?'', ''.''}"

fun windows_ok :: "string list \<Rightarrow> bool" where
  "windows_ok [] = True"
| "windows_ok (c # cs) = (tail_ok cs \<and> (plain_first c \<or> device_drive c \<or> device_dir c \<or> unc_host c \<and> cs \<noteq> []))"

lemma device_prefix_append: "device_prefix c \<Longrightarrow> device_prefix (c @ t) \<and> 4 \<le> length c"
  by (auto simp: device_prefix_def split: list.splits)

lemma deviceDriveRegex_drive:
  assumes "device_drive c"
  shows "deviceDriveRegex (c @ t) = Some (c, line t)"
proof -
  obtain l where l: "drop 4 c = [l, CHR '':'']" "ascii_letter l"
    using assms by (auto simp: device_drive_def drive_letter_def split: list.splits)
  have c: "device_prefix (c @ t)" "4 \<le> length c"
    using assms device_prefix_append by (simp_all add: device_drive_def)
  have "length (drop 4 c) = 2"
    by (simp add: l(1))
  then have len: "length c = 6"
    using c(2) by simp
  have "drive_len (drop 4 (c @ t)) = Some 2"
    using l c(2) by (simp add: drive_len_def letter_len_def has_prefix_def)
  then show ?thesis
    using c(1) len by (simp add: deviceDriveRegex_def)
qed

lemma deviceDirectoryRegex_dir:
  assumes "device_dir c" and "t = [] \<or> is_sep (hd t)"
  shows "deviceDriveRegex (c @ t) = None" "deviceDirectoryRegex (c @ t) = Some (c, line t)"
proof -
  have p: "device_prefix (c @ t)" and g: "map ascii_lower (take 18 (drop 4 c)) = globalroot"
    and d: "drop 22 c \<noteq> []" "list_all (\<lambda>x. \<not> is_sep x) (drop 22 c)"
    using assms(1) device_prefix_append by (simp_all add: device_dir_def)
  have len: "22 < length c"
    using d(1) by simp
  then have g': "map ascii_lower (take 18 (drop 4 (c @ t))) = globalroot"
    using g by simp
  have "Suc (Suc 0) \<le> length (drop 4 (c @ t))"
    using len by simp
  then obtain x y z where xy: "drop 4 (c @ t) = x # y # z"
    unfolding Suc_le_length_iff by blast
  then have "ascii_lower x = CHR ''g''" "ascii_lower y = CHR ''l''"
    using g' by (simp_all add: globalroot_def)
  then have "y \<noteq> CHR '':''" "letter_len (x # y # z) = 0 \<or> letter_len (x # y # z) = 1"
    by (auto simp: ascii_lower_def letter_len_def has_prefix_def)
  then have "drive_len (drop 4 (c @ t)) = None"
    unfolding xy by (elim disjE) (simp_all add: drive_len_def has_prefix_def)
  then show "deviceDriveRegex (c @ t) = None"
    by (simp add: deviceDriveRegex_def)
  have "takeWhile (\<lambda>c. \<not> is_sep c) (drop 22 (c @ t)) = drop 22 c"
    using d(2) len assms(2) by (cases t) (auto simp: list_all_iff takeWhile_append2)
  then show "deviceDirectoryRegex (c @ t) = Some (c, line t)"
    using p g' d(1) len by (simp add: deviceDirectoryRegex_def Let_def)
qed

lemma uncRegex_host:
  assumes "unc_host c" and "hd t = backslash" and "t \<noteq> []"
  shows "deviceDriveRegex (c @ t) = None" "deviceDirectoryRegex (c @ t) = None" "uncRegex (c @ t) = Some (c, line (tl t))"
proof -
  obtain h where c: "c = [backslash, backslash] @ h" "backslash \<notin> set h" "h \<noteq> ''''" "h \<noteq> ''?''" "h \<noteq> ''.''"
    using assms(1) by (auto simp: unc_host_def has_prefix_iff)
  obtain s where t: "t = backslash # s"
    using assms(2,3) by (cases t) auto
  have "\<not> device_prefix (c @ t)"
  proof (cases h)
    case (Cons x h')
    then show ?thesis
      using c t by (cases h') (auto simp: device_prefix_def)
  qed (use c in simp)
  then show "deviceDriveRegex (c @ t) = None" "deviceDirectoryRegex (c @ t) = None"
    by (simp_all add: deviceDriveRegex_def deviceDirectoryRegex_def)
  have "takeWhile (\<lambda>c. c \<noteq> backslash) (h @ t) = h"
    using c(2) t by (simp add: takeWhile_append2 takeWhile_tail) (metis (mono_tags, lifting) takeWhile_eq_all_conv)
  then show "uncRegex (c @ t) = Some (c, line (tl t))"
    using c t by (simp add: uncRegex_def has_prefix_def Let_def)
qed

lemma no_device_regex:
  assumes "s = [] \<or> hd s \<noteq> backslash"
  shows "deviceDriveRegex s = None" "deviceDirectoryRegex s = None" "uncRegex s = None"
proof -
  have "\<not> device_prefix s" "\<not> has_prefix s [backslash, backslash]"
    using assms by (cases s; auto simp: device_prefix_def has_prefix_def split: list.splits)+
  then show "deviceDriveRegex s = None" "deviceDirectoryRegex s = None" "uncRegex s = None"
    by (simp_all add: deviceDriveRegex_def deviceDirectoryRegex_def uncRegex_def)
qed

lemma Windows_roundtrip:
  assumes "windows_ok cs"
  shows "Windows_components (case cs of [] \<Rightarrow> '''' | c # ds \<Rightarrow> c @ JoinComponents ds [backslash]) = cs"
proof (cases cs)
  case Nil
  then show ?thesis
    by (simp add: Windows_components_def no_device_regex SplitComponents_def)
next
  case (Cons c ds)
  define t where "t = JoinComponents ds [backslash]"
  have ok: "tail_ok ds" and kind: "plain_first c \<or> device_drive c \<or> device_dir c \<or> unc_host c \<and> ds \<noteq> []"
    using assms Cons by simp_all
  then have ord: "list_all ordinary ds"
    by (simp add: tail_ok_def)
  note t = tail_text [OF ok, folded t_def]
  have split: "SplitComponents t = ds"
    using split_tail [OF ord, of "[]"] by (simp add: SplitComponents_def t_def)
  have sep: "t = [] \<or> is_sep (hd t)"
    using t(1,2) by (auto simp: is_sep_def)
  have "Windows_components (c @ t) = c # ds"
    using kind
  proof (elim disjE conjE)
    assume c: "plain_first c"
    then have "c \<noteq> []" "hd c \<noteq> backslash"
      by (auto simp: plain_first_def ordinary_def needs_quote_def is_sep_def)
    then have "Windows_components (c @ t) = SplitComponents (c @ t)"
      using no_device_regex [of "c @ t"] by (simp add: Windows_components_def)
    also have "\<dots> = split_loop t [c]"
      using split_loop_escaped [of c t "[]"] c sep by (simp add: SplitComponents_def plain_first_def escapeComponent_eq)
    finally show ?thesis
      using split_tail [OF ord, of "[c]"] by (simp add: t_def)
  next
    assume "device_drive c"
    then show ?thesis
      using deviceDriveRegex_drive [of c t] t(3) split by (simp add: Windows_components_def)
  next
    assume "device_dir c"
    then show ?thesis
      using deviceDirectoryRegex_dir [OF _ sep, of c] t(3) split by (simp add: Windows_components_def)
  next
    assume c: "unc_host c" and ne: "ds \<noteq> []"
    obtain s where s: "t = backslash # s"
      using t(2) [OF ne] by blast
    have "line (tl t) = s"
      using t(3) s by (simp add: line_def)
    moreover have "SplitComponents s = ds"
      using split split_loop_sep [of backslash s "[]"] s by (simp add: SplitComponents_def is_sep_def)
    ultimately show ?thesis
      using uncRegex_host [OF c, of t] s by (simp add: Windows_components_def)
  qed
  then show ?thesis
    using Cons by (simp add: t_def)
qed

section \<open>Properties\<close>

text \<open>Components that each manipulator can print without losing them.\<close>

definition path_ok :: "(string \<Rightarrow> string) \<Rightarrow> OSPath \<Rightarrow> bool" where
  "path_ok u p \<longleftrightarrow>
     (let cs = Components p
      in case Manipulator p of
           GenericPathManipulator sep \<Rightarrow> sep \<in> {'''', ''/'', [backslash]} \<and> list_all ordinary cs
         | LinuxPathManipulator \<Rightarrow> list_all plain cs
         | WindowsPathManipulator \<Rightarrow> windows_ok cs
         | WindowsNTFSManipulator \<Rightarrow> windows_ok cs \<and> cs \<noteq> [] \<and> \<not> driveRegex (hd cs)
         | WindowsRegistryPathManipulator \<Rightarrow>
             list_all ordinary cs \<and> (cs \<noteq> [] \<longrightarrow> hive_name u (hd cs) = hd cs \<and> hd (hd cs) \<noteq> CHR ''{'')
         | ZipFileManipulator \<Rightarrow> list_all (\<lambda>c. c \<noteq> '''' \<and> length c \<le> 1026 \<and> no_RuneError c) cs
         | FileStorePathManipulator \<Rightarrow>
             list_all ordinary cs \<and> (cs \<noteq> [] \<longrightarrow> \<not> drive_letter (hd cs)) \<and>
             (case pathspec p of
                Some (PathSpec a d None _ False) \<Rightarrow> a = ''fs'' \<and> (d = ''fs:'' \<or> d = ''ds:'')
              | _ \<Rightarrow> False)
         | RawFileManipulator \<Rightarrow> length cs = 1
         | PathSpecPathManipulator \<Rightarrow> False)"

text \<open>Specifications that JSON can hold: the mark of a URL is not encoded.\<close>

fun json_spec :: "PathSpec \<Rightarrow> bool" where
  "json_spec (PathSpec a d nested p url) = (\<not> url \<and> (case nested of None \<Rightarrow> True | Some q \<Rightarrow> json_spec q))"

definition text_style :: "PathManipulator \<Rightarrow> bool" where
  "text_style m \<longleftrightarrow> m \<notin> {FileStorePathManipulator, RawFileManipulator, PathSpecPathManipulator}"

lemma Join_first:
  assumes "list_all ordinary cs" and "is_sep c"
  shows "\<not> has_prefix (JoinComponents cs [c]) ''{''"
proof (cases cs)
  case (Cons x xs)
  then have "JoinComponents cs [c] = (if drive_letter x then '''' else [c]) @ join [c] (map escapeComponent cs)"
    using JoinComponents_eq [of x xs "[c]"] assms(1) by simp
  moreover have "escapeComponent x = x" "x \<noteq> []" "hd x \<noteq> CHR ''{''" if "drive_letter x"
    using that by (auto simp: drive_letter_def ascii_letter_def escapeComponent_eq needs_quote_def is_sep_def Let_def split: list.splits)
  ultimately show ?thesis
    using assms(2) Cons by (cases xs; cases x) (auto simp: has_prefix_def is_sep_def)
qed (simp add: JoinComponents_def has_prefix_def)

lemma Windows_first:
  assumes "windows_ok (c # cs)"
  shows "c \<noteq> []" "hd c \<noteq> CHR ''{''"
  using assms
  by (auto simp: plain_first_def ordinary_def device_drive_def device_dir_def device_prefix_def unc_host_def has_prefix_iff
      split: list.splits)

lemma no_brace: "s \<noteq> [] \<Longrightarrow> hd s \<noteq> CHR ''{'' \<Longrightarrow> \<not> has_prefix (s @ t) ''{''"
  by (cases s) (auto simp: has_prefix_def)

lemma Registry_text:
  assumes "list_all ordinary cs"
  shows "trim_prefix (JoinComponents cs [backslash]) [backslash] = join [backslash] (map escapeComponent cs)"
proof (cases cs)
  case Nil
  then show ?thesis
    by (simp add: JoinComponents_def trim_prefix_def has_prefix_def)
next
  case (Cons x xs)
  then have j: "JoinComponents cs [backslash] = (if drive_letter x then '''' else [backslash]) @ join [backslash] (map escapeComponent cs)"
    using JoinComponents_eq [of x xs "[backslash]"] assms by simp
  have "escapeComponent x = x \<and> x \<noteq> [] \<and> hd x \<noteq> backslash" if "drive_letter x"
    using that by (auto simp: drive_letter_def ascii_letter_def escapeComponent_eq needs_quote_def is_sep_def Let_def split: list.splits)
  then have "\<not> has_prefix (join [backslash] (map escapeComponent cs)) [backslash]" if "drive_letter x"
    using that Cons by (cases xs; cases x) (auto simp: has_prefix_def)
  then show ?thesis
    using j by (auto simp: trim_prefix_def has_prefix_def)
qed

lemma escape_first: "c \<noteq> [] \<Longrightarrow> hd c \<noteq> CHR ''{'' \<Longrightarrow> escapeComponent c \<noteq> [] \<and> hd (escapeComponent c) \<noteq> CHR ''{''"
  by (simp add: escapeComponent_eq)

lemma join_first: "xs \<noteq> [] \<Longrightarrow> hd xs \<noteq> [] \<Longrightarrow> join sep xs \<noteq> [] \<and> hd (join sep xs) = hd (hd xs)"
  by (cases xs; cases "tl xs") auto

lemma zip_safe_plain: "zip_safe x \<Longrightarrow> plain x"
  by (auto simp: zip_safe_def plain_def ordinary_def)

lemma text_roundtrip:
  assumes "path_ok u p" and "text_style (Manipulator p)"
  shows "components_of u (Manipulator p) (path_text p) = Components p \<and> \<not> has_prefix (path_text p) ''{''"
proof (cases "Manipulator p")
  case (GenericPathManipulator sep)
  then have o: "list_all ordinary (Components p)" and sep: "sep \<in> {'''', ''/'', [backslash]}"
    using assms(1) by (simp_all add: path_ok_def Let_def)
  then obtain c where "(if sep = '''' then ''/'' else sep) = [c]" "is_sep c"
    by (auto simp: is_sep_def)
  then show ?thesis
    using GenericPathManipulator Split_Join [OF o] Join_first [OF o] by (simp add: components_of_def path_text_def)
next
  case LinuxPathManipulator
  then show ?thesis
    using assms(1) slash_roundtrip [of "Components p"]
    by (simp add: path_ok_def components_of_def path_text_def has_prefix_def)
next
  case WindowsPathManipulator
  then have ok: "windows_ok (Components p)"
    using assms(1) by (simp add: path_ok_def Let_def)
  have "\<not> has_prefix (path_text p) ''{''"
    using WindowsPathManipulator ok Windows_first no_brace
    by (cases "Components p") (auto simp: path_text_def has_prefix_def Let_def)
  then show ?thesis
    using Windows_roundtrip [OF ok] WindowsPathManipulator by (simp add: components_of_def path_text_def)
next
  case WindowsNTFSManipulator
  then obtain c ds where cs: "Components p = c # ds" and ok: "windows_ok (c # ds)" and d: "\<not> driveRegex c"
    using assms(1) by (cases "Components p") (simp_all add: path_ok_def Let_def)
  have t: "path_text p = c @ JoinComponents ds [backslash]"
    using WindowsNTFSManipulator cs by (cases ds) (simp_all add: path_text_def JoinComponents_def)
  then have "NTFS_components u (path_text p) = c # ds"
    using Windows_roundtrip [OF ok] d by (simp add: NTFS_components_def ConvertToDevice_def)
  then show ?thesis
    using WindowsNTFSManipulator cs t no_brace [OF Windows_first [OF ok]] by (simp add: components_of_def)
next
  case WindowsRegistryPathManipulator
  then have o: "list_all ordinary (Components p)"
    and h: "Components p \<noteq> [] \<longrightarrow> hive_name u (hd (Components p)) = hd (Components p) \<and> hd (hd (Components p)) \<noteq> CHR ''{''"
    using assms(1) by (simp_all add: path_ok_def Let_def)
  have t: "path_text p = join [backslash] (map escapeComponent (Components p))"
    using WindowsRegistryPathManipulator Registry_text [OF o] by (simp add: path_text_def)
  have "SplitComponents (path_text p) = Components p"
    using split_loop_join [OF _ o, of backslash "[]"] t by (simp add: SplitComponents_def is_sep_def)
  then have c: "Registry_components u (path_text p) = Components p"
    using h by (cases "Components p") (simp_all add: Registry_components_def)
  have "\<not> has_prefix (path_text p) ''{''"
  proof (cases "Components p")
    case (Cons x xs)
    then have "x \<noteq> []" "hd x \<noteq> CHR ''{''"
      using o h by (auto simp: ordinary_def)
    then show ?thesis
      using t Cons escape_first [of x] join_first [of "map escapeComponent (Components p)" "[backslash]"]
        no_brace [of "path_text p" "[]"] by simp
  qed (use t in \<open>simp add: has_prefix_def\<close>)
  then show ?thesis
    using c WindowsRegistryPathManipulator by (simp add: components_of_def)
next
  case ZipFileManipulator
  then have z: "\<forall>c \<in> set (Components p). c \<noteq> '''' \<and> length c \<le> 1026 \<and> no_RuneError c"
    using assms(1) by (simp add: path_ok_def Let_def list_all_iff)
  then have "list_all plain (map SanitizeStringForZip (Components p))"
    using Sanitize_zip_safe zip_safe_plain by (simp add: list_all_iff)
  moreover have "filter (\<lambda>c. c \<noteq> '''') (Components p) = Components p"
    using z by (intro filter_True) auto
  moreover have "map UnsanitizeComponentForZip (map SanitizeStringForZip (Components p)) = Components p"
    using z Sanitize_zip_roundtrip by (simp add: map_idI)
  ultimately show ?thesis
    using ZipFileManipulator slash_roundtrip [of "map SanitizeStringForZip (Components p)"]
    by (simp add: components_of_def path_text_def has_prefix_def)
qed (use assms(2) in \<open>simp_all add: text_style_def\<close>)

text \<open>What a path says about its delegate.\<close>

definition delegate_of :: "OSPath \<Rightarrow> string \<times> string \<times> PathSpec option" where
  "delegate_of p =
     (let spec = snd (AsPathSpec p) in (DelegateAccessor spec, DelegatePath spec, Delegate spec))"

lemma AsPathSpec_text:
  assumes "text_style (Manipulator p)"
  shows "snd (AsPathSpec p) = set_Path (path_text p) (case pathspec p of Some spec \<Rightarrow> spec | None \<Rightarrow> empty_spec)"
  using assms by (cases "Manipulator p") (simp_all add: AsPathSpec_defs path_text_def Let_def text_style_def split: list.splits option.splits)

lemma PathJoin_text:
  assumes "text_style (Manipulator p)"
  shows "\<exists>p'. PathJoin js us p = Ok (p',
    let spec = snd (AsPathSpec p)
    in if DelegateAccessor spec = '''' \<and> GetDelegatePath js us spec = '''' then path_text p else PathSpec_String js us spec)"
proof -
  obtain p' sp where a: "AsPathSpec p = (p', sp)"
    by (rule prod.exhaust)
  have "Path sp = path_text p"
    using AsPathSpec_text [OF assms] a by (simp add: set_Path_def)
  then show ?thesis
    using assms a by (cases "Manipulator p") (simp_all add: PathJoin_defs GetDelegateAccessor_def text_style_def)
qed

lemma PathParse_text:
  assumes "text_style m"
  shows "PathParse ju up u s (new_path m) =
    (case maybeParsePathSpec ju s of
       Err e \<Rightarrow> Err e
     | Ok spec \<Rightarrow> Ok ((new_path m)\<lparr>pathspec := Some spec, Components := components_of u m (Path spec)\<rparr>))"
  using assms by (cases m) (simp_all add: PathParse_defs components_of_def NTFS_components_def Registry_components_def text_style_def new_path_def split: sum.splits list.splits)

lemma json_spec_Delegate: "json_spec sp \<Longrightarrow> Delegate sp = Some d \<Longrightarrow> json_spec d \<and> \<not> url_based d"
  by (cases sp; cases d) simp

lemma style_roundtrip:
  assumes ok: "path_ok u p" and style: "text_style (Manipulator p)"
    and json: "\<forall>q. json_spec q \<longrightarrow> ju (js q) = Some q \<and> has_prefix (js q) ''{''"
    and spec: "pathspec p = Some spec" "json_spec spec"
  shows "\<exists>p' s q. PathJoin js us p = Ok (p', s) \<and> PathParse ju up u s (new_path (Manipulator p)) = Ok q \<and>
    Components q = Components p \<and> Manipulator q = Manipulator p \<and> delegate_of q = delegate_of p"
proof -
  note t = text_roundtrip [OF ok style]
  define sp where "sp = set_Path (path_text p) spec"
  have sp: "snd (AsPathSpec p) = sp" "json_spec sp" "Path sp = path_text p"
    using AsPathSpec_text [OF style] spec by (simp_all add: sp_def set_Path_def) (cases spec, simp)
  show ?thesis
  proof (cases "DelegateAccessor sp = '''' \<and> GetDelegatePath js us sp = ''''")
    case True
    define q where "q = (new_path (Manipulator p))\<lparr>pathspec := Some (PathSpec '''' '''' None (path_text p) False), Components := Components p\<rparr>"
    have "Delegate sp = None" "DelegatePath sp = ''''"
    proof -
      show "Delegate sp = None"
      proof (cases "Delegate sp")
        case (Some d)
        then have "json_spec d" "\<not> url_based d"
          using json_spec_Delegate [OF sp(2)] by simp_all
        then show ?thesis
          using True Some json by (auto simp: GetDelegatePath_def PathSpec_String_def has_prefix_def)
      qed
      then show "DelegatePath sp = ''''"
        using True by (simp add: GetDelegatePath_def)
    qed
    then have "delegate_of q = delegate_of p"
      using True sp(1) AsPathSpec_text [of q] style by (simp add: delegate_of_def q_def new_path_def set_Path_def)
    moreover have "PathParse ju up u (path_text p) (new_path (Manipulator p)) = Ok q"
      using t PathParse_text [OF style] by (simp add: maybeParsePathSpec_def q_def)
    ultimately show ?thesis
      using PathJoin_text [OF style, of js us] True sp(1) by (auto simp: q_def new_path_def Let_def)
  next
    case False
    define q where "q = (new_path (Manipulator p))\<lparr>pathspec := Some sp, Components := Components p\<rparr>"
    have "\<not> url_based sp"
      using sp(2) by (cases sp) simp
    then have "PathSpec_String js us sp = js sp"
      by (simp add: PathSpec_String_def)
    moreover have "PathParse ju up u (js sp) (new_path (Manipulator p)) = Ok q"
      using t PathParse_text [OF style] json sp(2,3) by (simp add: maybeParsePathSpec_def q_def)
    moreover have "delegate_of q = delegate_of p"
      using sp(1) AsPathSpec_text [of q] style by (simp add: delegate_of_def q_def new_path_def set_Path_def)
    ultimately show ?thesis
      using PathJoin_text [OF style, of js us] False sp(1) by (auto simp: q_def new_path_def Let_def)
  qed
qed

lemma FileStore_split:
  assumes "list_all ordinary cs" and "cs \<noteq> [] \<longrightarrow> \<not> drive_letter (hd cs)" and "d = ''fs:'' \<or> d = ''ds:''"
  shows "SplitComponents (d @ JoinComponents cs ''/'') = d # cs"
proof -
  have d: "ordinary d" "escapeComponent d = d"
    using assms(3) by (auto simp: ordinary_def escapeComponent_eq needs_quote_def is_sep_def)
  show ?thesis
  proof (cases cs)
    case Nil
    then show ?thesis
      using split_loop_escaped [OF d(1), of "[]" "[]"] d(2) by (simp add: SplitComponents_def JoinComponents_def)
  next
    case (Cons c ds)
    have sep: "is_sep (CHR ''/'')"
      by (simp add: is_sep_def)
    have "JoinComponents cs ''/'' = CHR ''/'' # join ''/'' (map escapeComponent cs)"
      using JoinComponents_eq [of c ds "''/''"] assms(1,2) Cons by simp
    then show ?thesis
      using split_loop_escaped [OF d(1), of "JoinComponents cs ''/''" "[]"] d(2) split_loop_sep [OF sep]
        split_loop_join [OF sep assms(1)] sep
      by (simp add: SplitComponents_def)
  qed
qed

lemma FileStore_roundtrip:
  assumes ok: "path_ok u p" and m: "Manipulator p = FileStorePathManipulator"
  shows "\<exists>s q. PathJoin js us p = Ok (p, s) \<and> PathParse ju up u s (new_path (Manipulator p)) = Ok q \<and>
    Components q = Components p \<and> Manipulator q = Manipulator p \<and> delegate_of q = delegate_of p"
proof -
  obtain d t where sp: "pathspec p = Some (PathSpec ''fs'' d None t False)" "d = ''fs:'' \<or> d = ''ds:''"
    and cs: "list_all ordinary (Components p)" "Components p \<noteq> [] \<longrightarrow> \<not> drive_letter (hd (Components p))"
    using ok m by (auto simp: path_ok_def Let_def split: option.splits PathSpec.splits bool.splits)
  define s where "s = d @ JoinComponents (Components p) ''/''"
  define q where "q = (new_path FileStorePathManipulator)\<lparr>pathspec := Some (PathSpec ''fs'' d None '''' False), Components := Components p\<rparr>"
  have "SplitComponents s = d # Components p"
    using FileStore_split [OF cs sp(2)] by (simp add: s_def)
  moreover have "\<not> has_prefix s ''{''"
    using sp(2) by (auto simp: s_def has_prefix_def)
  ultimately have "PathParse ju up u s (new_path FileStorePathManipulator) = Ok q"
    using sp(2) by (auto simp: PathParse_defs new_path_def maybeParsePathSpec_def q_def)
  moreover have "delegate_of q = delegate_of p"
    using sp m by (simp add: delegate_of_def AsPathSpec_defs q_def new_path_def set_Path_def Let_def)
  ultimately show ?thesis
    using m sp(1) by (auto simp: PathJoin_defs s_def q_def new_path_def)
qed



text \<open>Components that are not special to the operating system.\<close>

lemma Windows_components_ordinary: "list_all ordinary (Windows_components s)"
proof -
  have "ordinary c" if "take 2 c = [backslash, backslash]" for c
    using that by (auto simp: ordinary_def)
  moreover have "take 2 c = [backslash, backslash]" if "deviceDriveRegex s = Some (c, t)" for c t
    using that by (auto simp: deviceDriveRegex_def device_prefix_def split: if_splits option.splits list.splits)
  moreover have "take 2 c = [backslash, backslash]" if "deviceDirectoryRegex s = Some (c, t)" for c t
    using that by (auto simp: deviceDirectoryRegex_def device_prefix_def Let_def split: if_splits list.splits)
  moreover have "take 2 c = [backslash, backslash]" if "uncRegex s = Some (c, t)" for c t
    using that by (auto simp: uncRegex_def has_prefix_def Let_def split: if_splits)
  ultimately show ?thesis
    using SplitComponents_ordinary by (auto simp: Windows_components_def split: option.splits)
qed



text \<open>A zip path is decoded after the check, so that its components may be dots.\<close>

lemma zip_path_dots: "components_of u ZipFileManipulator ''/%2E%2E/x'' = [''..'', ''x'']"
  by (simp add: components_of_def UnsanitizeComponentForZip_def unhex_def char_of_def bit_0)

text \<open>Trimming removes the longest common start.\<close>

lemma trim_loop_drop:
  "\<exists>n. trim_loop eq xs cs = drop n xs \<and> n \<le> length cs \<and> (\<forall>i < n. i < length xs \<longrightarrow> eq (xs ! i) (cs ! i)) \<and>
    (n < length xs \<longrightarrow> n < length cs \<longrightarrow> \<not> eq (xs ! n) (cs ! n))"
proof (induction eq xs cs rule: trim_loop.induct)
  case (3 eq c rest d ds)
  show ?case
  proof (cases "eq c d")
    case True
    then obtain n where "trim_loop eq rest ds = drop n rest" "n \<le> length ds"
      "\<forall>i < n. i < length rest \<longrightarrow> eq (rest ! i) (ds ! i)"
      "n < length rest \<longrightarrow> n < length ds \<longrightarrow> \<not> eq (rest ! n) (ds ! n)"
      using 3 by auto
    then show ?thesis
      using True by (intro exI [of _ "Suc n"]) (auto simp: less_Suc_eq_0_disj)
  qed (auto intro: exI [of _ 0])
qed (auto intro: exI [of _ 0])

text \<open>The test for a prefix is the wrong way round: a path that extends the prefix does not have
  it, and one that the prefix extends makes it read beyond the components.\<close>

lemma HasPrefix_extension:
  assumes "Components p = cs @ x # xs"
  shows "HasPrefix ef cs p = Ok False"
  using assms by (simp add: HasPrefix_def)

lemma HasPrefix_panics:
  assumes "Components p = xs" and "cs = xs @ c # ds" and "\<And>a. ComponentEqual ef (Manipulator p) a a"
  shows "HasPrefix ef cs p = Err (Panic ''index out of range'')"
proof -
  have "prefix_loop (ComponentEqual ef (Manipulator p)) (xs @ c # ds) xs = Err (Panic ''index out of range'')"
    using assms(3) by (induction xs) simp_all
  then show ?thesis
    using assms(1,2) by (simp add: HasPrefix_def)
qed

text \<open>A path whose specification is replaced after it was printed prints as before.\<close>

lemma SetPathSpec_stale:
  assumes "serialized p = Some s" and "SetPathSpec ju up u spec p = Ok q"
  shows "OS_String js us q = Ok (q, s)"
proof -
  have "serialized q = serialized p"
    using assms(2) by (cases "Manipulator p") (auto simp: SetPathSpec_def PathParse_defs Let_def split: sum.splits list.splits if_splits)
  then show ?thesis
    using assms(1) by (simp add: OS_String_def)
qed

end
