(* ===== verification/File_Access.thy ===== *)
theory File_Access
  imports OS_Paths Prefix_Tree Path_Specs
begin

text \<open>
  Which files the accessors may open: the rules of \<^verbatim>\<open>accessors/file/security.go\<close>, their
  configuration in \<^verbatim>\<open>services/sanity/security.go\<close>, and the accessor of the file store with
  \<^verbatim>\<open>accessors/file_store/permissions.go\<close> and \<^verbatim>\<open>accessors/file_store/casing.go\<close>. The file store is
  a parameter: which paths it can stat and read, and the names and paths in a directory. The result of an
  operation of the accessor is the path in the file store that it works on. The index of
  sparse files and the metadata of files are left out.
\<close>

section \<open>Rules\<close>

definition DeniedError :: go_error where
  "DeniedError = Errorf ''No access to filesystem path''"

definition CheckAccessForPrefixes ::
  "(string \<Rightarrow> string) \<Rightarrow> string list \<Rightarrow> PrefixNode option \<Rightarrow> PrefixNode option \<Rightarrow> go_error option" where
  "CheckAccessForPrefixes u cs allowed denied =
     (let others =
            (case allowed of
               None \<Rightarrow> None
             | Some a \<Rightarrow>
                 if length cs = 0 then None
                 else if fst (tree_Present u a cs) then None
                 else Some DeniedError)
      in case denied of
           None \<Rightarrow> others
         | Some d \<Rightarrow>
             (let (match, denied_depth) = tree_Present u d cs
              in if match then
                   (case allowed of
                      None \<Rightarrow> Some DeniedError
                    | Some a \<Rightarrow>
                        (let (match, allowed_depth) = tree_Present u a cs
                         in if match \<and> allowed_depth > denied_depth then None else Some DeniedError))
                 else others))"

section \<open>Configuration\<close>

record Security =
  AllowedFileAccessorPrefix :: "string list"
  DeniedFileAccessorPrefix :: "string list"
  AllowedFsAccessorPrefix :: "string list"
  DeniedFsAccessorPrefix :: "string list"

record Prefixes =
  file_allowed :: "PrefixNode option"
  file_denied :: "PrefixNode option"
  fs_allowed :: "PrefixNode option"
  fs_denied :: "PrefixNode option"

text \<open>A prefix that does not parse is left out.\<close>

fun add_prefixes :: "(string \<Rightarrow> string) \<Rightarrow> (string \<Rightarrow> OSPath result) \<Rightarrow> string list \<Rightarrow> PrefixNode \<Rightarrow> PrefixNode" where
  "add_prefixes u parse [] tree = tree"
| "add_prefixes u parse (p # ps) tree =
     (case parse p of
        Err _ \<Rightarrow> add_prefixes u parse ps tree
      | Ok full_path \<Rightarrow> add_prefixes u parse ps (tree_Add u tree (Components full_path)))"

definition default_denied :: "string list" where
  "default_denied = [''acl'', ''backups'', ''config'', ''orgs'', ''secrets'', ''users'']"

definition CheckSecuritySettings ::
  "(string \<Rightarrow> PathSpec option) \<Rightarrow> (string \<Rightarrow> (string \<times> string \<times> string) option) \<Rightarrow> (string \<Rightarrow> string) \<Rightarrow>
   string \<Rightarrow> Security \<Rightarrow> Prefixes" where
  "CheckSecuritySettings ju up u GOOS config =
     (let case_insensitive = (GOOS = ''windows'');
          native = NewNativePath ju up u GOOS;
          fs_path = NewOSPath ju up u FileStorePathManipulator;
          denied_prefixes = (if length (DeniedFsAccessorPrefix config) = 0 then default_denied
                             else DeniedFsAccessorPrefix config)
      in \<lparr>file_allowed =
            (if length (AllowedFileAccessorPrefix config) > 0
             then Some (add_prefixes u native (AllowedFileAccessorPrefix config) (NewPrefixTree case_insensitive)) else None),
          file_denied =
            (if length (DeniedFileAccessorPrefix config) > 0
             then Some (add_prefixes u native (DeniedFileAccessorPrefix config) (NewPrefixTree case_insensitive)) else None),
          fs_allowed =
            (if length (AllowedFsAccessorPrefix config) > 0
             then Some (add_prefixes u fs_path (AllowedFsAccessorPrefix config) (NewPrefixTree False)) else None),
          fs_denied = Some (add_prefixes u fs_path denied_prefixes (NewPrefixTree False))\<rparr>)"

definition CheckPrefix :: "(string \<Rightarrow> string) \<Rightarrow> Prefixes \<Rightarrow> OSPath \<Rightarrow> go_error option" where
  "CheckPrefix u rules full_path =
     CheckAccessForPrefixes u (Components full_path) (file_allowed rules) (file_denied rules)"

definition CheckPath ::
  "(string \<Rightarrow> PathSpec option) \<Rightarrow> (string \<Rightarrow> (string \<times> string \<times> string) option) \<Rightarrow> (string \<Rightarrow> string) \<Rightarrow>
   string \<Rightarrow> Prefixes \<Rightarrow> string \<Rightarrow> go_error option" where
  "CheckPath ju up u GOOS rules full_path =
     (case NewNativePath ju up u GOOS full_path of
        Err e \<Rightarrow> Some e
      | Ok destination \<Rightarrow> if length (Components destination) = 0 then None else CheckPrefix u rules destination)"

section \<open>The accessor of the file store\<close>

record FileStore =
  StatFile :: "FSPathSpec \<Rightarrow> bool"
  ReadFile :: "FSPathSpec \<Rightarrow> bool"
  ListDirectory :: "FSPathSpec \<Rightarrow> (string \<times> FSPathSpec) list option"

definition IsFileAccessible :: "(string \<Rightarrow> string) \<Rightarrow> Prefixes \<Rightarrow> FSPathSpec \<Rightarrow> go_error option" where
  "IsFileAccessible u rules filename =
     CheckAccessForPrefixes u (fs_components filename) (fs_allowed rules) (fs_denied rules)"

fun match_entry :: "(string \<Rightarrow> string \<Rightarrow> bool) \<Rightarrow> FSPathSpec \<Rightarrow> string \<Rightarrow> (string \<times> FSPathSpec) list \<Rightarrow> FSPathSpec result" where
  "match_entry ef dirname basename [] = Err NotFoundError"
| "match_entry ef dirname basename (e # entries) =
     (if EqualFold ef (fst e) basename then Ok (FS_AddChild dirname [fst e]) else match_entry ef dirname basename entries)"

function getCorrectCase :: "(string \<Rightarrow> string \<Rightarrow> bool) \<Rightarrow> FileStore \<Rightarrow> FSPathSpec \<Rightarrow> FSPathSpec result" where
  "getCorrectCase ef store filename =
     (if StatFile store filename then Ok filename
      else
        (let basename = DS_Base (DSPathSpec_of filename); dirname = FS_Dir filename
         in case (if length (fs_components dirname) > 0 \<and> \<not> StatFile store dirname
                  then getCorrectCase ef store dirname else Ok dirname) of
              Err e \<Rightarrow> Err e
            | Ok dirname \<Rightarrow>
                (case ListDirectory store dirname of
                   None \<Rightarrow> Err IOError
                 | Some entries \<Rightarrow> match_entry ef dirname basename entries)))"
  by pat_completeness auto
termination
  by (relation "measure (\<lambda>(ef, store, filename). length (fs_components filename))") (auto simp: FS_Dir_def mk_fs_def split: if_splits)

declare getCorrectCase.simps [simp del]

definition fs_Lstat ::
  "(string \<Rightarrow> string) \<Rightarrow> (string \<Rightarrow> string \<Rightarrow> bool) \<Rightarrow> FileStore \<Rightarrow> Prefixes \<Rightarrow> OSPath \<Rightarrow> FSPathSpec result" where
  "fs_Lstat u ef store rules filename =
     (case FromGenericComponentList (Components filename) of
        Err e \<Rightarrow> Err e
      | Ok fullpath \<Rightarrow>
          (case IsFileAccessible u rules fullpath of
             Some e \<Rightarrow> Err e
           | None \<Rightarrow>
               if StatFile store fullpath then Ok fullpath
               else (case getCorrectCase ef store fullpath of
                       Err e \<Rightarrow> Err e
                     | Ok corrected_path \<Rightarrow> if StatFile store corrected_path then Ok corrected_path else Err IOError)))"

text \<open>The directory that is listed and the children that are shown.\<close>

definition fs_ReadDir ::
  "(string \<Rightarrow> string) \<Rightarrow> (string \<Rightarrow> string \<Rightarrow> bool) \<Rightarrow> FileStore \<Rightarrow> Prefixes \<Rightarrow> OSPath \<Rightarrow> (FSPathSpec \<times> FSPathSpec list) result" where
  "fs_ReadDir u ef store rules filename =
     (case FromGenericComponentList (Components filename) of
        Err e \<Rightarrow> Err e
      | Ok fullpath \<Rightarrow>
          (case IsFileAccessible u rules fullpath of
             Some e \<Rightarrow> Err e
           | None \<Rightarrow>
               (let visible = (\<lambda>files. filter (\<lambda>p. IsFileAccessible u rules p = None) (map snd files))
                in case ListDirectory store fullpath of
                     Some files \<Rightarrow> Ok (fullpath, visible files)
                   | None \<Rightarrow>
                       (case getCorrectCase ef store fullpath of
                          Err e \<Rightarrow> Err e
                        | Ok corrected_path \<Rightarrow>
                            (case ListDirectory store corrected_path of
                               None \<Rightarrow> Err IOError
                             | Some files \<Rightarrow> Ok (corrected_path, visible files))))))"

definition getDSPathSpec :: "OSPath \<Rightarrow> DSPathSpec result" where
  "getDSPathSpec filename =
     (let cs = Components filename
      in if length cs > 0 then
           (let (name_type, name) = GetDataStorePathTypeFromExtension (cs ! (length cs - 1))
            in map_sum id (\<lambda>n. DS_SetType (NewUnsafeDatastorePath (cs[length cs - 1 := n])) name_type) name)
         else Ok (NewUnsafeDatastorePath cs))"

definition open_path :: "OSPath \<Rightarrow> FSPathSpec result" where
  "open_path filename =
     (if DelegatePath (snd (AsPathSpec filename)) = ''ds:'' then
        map_sum id
          (\<lambda>ds_path.
             let fullpath = DS_AsFilestorePath ds_path
             in case path_type ds_path of
                  PATH_TYPE_DATASTORE_JSON \<Rightarrow> FS_SetType fullpath PATH_TYPE_FILESTORE_DB_JSON
                | PATH_TYPE_DATASTORE_PROTO \<Rightarrow> FS_SetType fullpath PATH_TYPE_FILESTORE_DB
                | _ \<Rightarrow> fullpath)
          (getDSPathSpec filename)
      else FromGenericComponentList (Components filename))"

definition fs_Open ::
  "(string \<Rightarrow> string) \<Rightarrow> (string \<Rightarrow> string \<Rightarrow> bool) \<Rightarrow> FileStore \<Rightarrow> Prefixes \<Rightarrow> OSPath \<Rightarrow> FSPathSpec result" where
  "fs_Open u ef store rules filename =
     (if length (Components filename) = 0 then Err (Errorf ''Invalid path'')
      else
        (case open_path filename of
           Err e \<Rightarrow> Err e
         | Ok fullpath \<Rightarrow>
             (case IsFileAccessible u rules fullpath of
                Some e \<Rightarrow> Err e
              | None \<Rightarrow>
                  if ReadFile store fullpath then Ok fullpath
                  else if fs_type fullpath = PATH_TYPE_FILESTORE_DB_JSON \<and>
                          ReadFile store (FS_SetType fullpath PATH_TYPE_FILESTORE_DB)
                  then Ok (FS_SetType fullpath PATH_TYPE_FILESTORE_DB)
                  else (case getCorrectCase ef store fullpath of
                          Err e \<Rightarrow> Err e
                        | Ok corrected_path \<Rightarrow>
                            if ReadFile store corrected_path then Ok corrected_path else Err IOError))))"

section \<open>The decision\<close>

text \<open>A tree of rules, and the lengths of the rules that match.\<close>

definition rule_tree :: "(string \<Rightarrow> string) \<Rightarrow> bool \<Rightarrow> string list list \<Rightarrow> PrefixNode" where
  "rule_tree u ci ps = fold (\<lambda>p t. tree_Add u t p) ps (NewPrefixTree ci)"

definition parsed :: "(string \<Rightarrow> OSPath result) \<Rightarrow> string list \<Rightarrow> string list list" where
  "parsed parse ps = concat (map (\<lambda>p. case parse p of Ok q \<Rightarrow> [Components q] | Err _ \<Rightarrow> []) ps)"

lemma add_prefixes_fold: "add_prefixes u parse ps t = fold (\<lambda>p t. tree_Add u t p) (parsed parse ps) t"
  by (induction ps arbitrary: t) (simp_all add: parsed_def split: sum.splits)

lemma node_ToLower_False [simp]: "node_ToLower u False = (\<lambda>s. s)"
  by (simp add: fun_eq_iff node_ToLower_def)

lemma rule_tree_Present:
  "fst (tree_Present u (rule_tree u ci ps) cs) = (matching u ci ps cs \<noteq> {})"
  "matching u ci ps cs \<noteq> {} \<Longrightarrow> snd (tree_Present u (rule_tree u ci ps) cs) = Max (matching u ci ps cs)"
  using tree_Present_matching [of u ps ci cs, OF prod.collapse [symmetric]] by (simp_all add: rule_tree_def)

definition rule_matches :: "(string \<Rightarrow> string) \<Rightarrow> bool \<Rightarrow> string list list option \<Rightarrow> string list \<Rightarrow> nat set" where
  "rule_matches u ci ps cs = (case ps of None \<Rightarrow> {} | Some ps \<Rightarrow> matching u ci ps cs)"

lemma CheckAccess_decision:
  "CheckAccessForPrefixes u cs (map_option (rule_tree u ci) A) (map_option (rule_tree u ci) D) = None \<longleftrightarrow>
   (if rule_matches u ci D cs \<noteq> {}
    then rule_matches u ci A cs \<noteq> {} \<and> Max (rule_matches u ci D cs) < Max (rule_matches u ci A cs)
    else A = None \<or> cs = [] \<or> rule_matches u ci A cs \<noteq> {})"
proof -
  note P = rule_tree_Present(1) [of u ci _ cs]
  show ?thesis
  proof (cases D)
    case None
    then show ?thesis
      by (cases A) (simp_all add: CheckAccessForPrefixes_def rule_matches_def P)
  next
    case (Some d)
    show ?thesis
    proof (cases "matching u ci d cs = {}")
      case True
      then show ?thesis
        using Some by (cases A) (simp_all add: CheckAccessForPrefixes_def rule_matches_def P case_prod_beta)
    next
      case False
      note depth = rule_tree_Present(2) [OF False]
      show ?thesis
      proof (cases A)
        case None
        then show ?thesis
          using Some False by (simp add: CheckAccessForPrefixes_def rule_matches_def P case_prod_beta)
      next
        case (Some a)
        then show ?thesis
          using \<open>D = Some d\<close> False depth rule_tree_Present(2) [of u ci a cs]
          by (cases "matching u ci a cs = {}") (simp_all add: CheckAccessForPrefixes_def rule_matches_def P case_prod_beta)
      qed
    qed
  qed
qed


section \<open>The file store\<close>

lemma CheckAccess_error: "CheckAccessForPrefixes u cs A D = None \<or> CheckAccessForPrefixes u cs A D = Some DeniedError"
  by (auto simp: CheckAccessForPrefixes_def Let_def split: option.splits prod.splits)

lemma parsed_default:
  "parsed (NewOSPath ju up u FileStorePathManipulator) default_denied = map (\<lambda>c. [c]) default_denied"
proof -
  have "NewOSPath ju up u FileStorePathManipulator c =
      Ok ((new_path FileStorePathManipulator)\<lparr>pathspec := Some (PathSpec ''fs'' ''fs:'' None '''' False), Components := [c]\<rparr>)"
    if "c \<in> set default_denied" for c
  proof -
    have c: "ordinary c" "escapeComponent c = c" "c \<noteq> ''fs:''" "c \<noteq> ''ds:''" "\<not> has_prefix c ''{''"
      using that by (auto simp: default_denied_def ordinary_def escapeComponent_eq needs_quote_def is_sep_def has_prefix_def)
    have "SplitComponents c = [c]"
      using split_loop_escaped [OF c(1), of "[]" "[]"] c(2) by (simp add: SplitComponents_def)
    then show ?thesis
      using c by (simp add: NewOSPath_def PathParse_defs new_path_def maybeParsePathSpec_def)
  qed
  then have "concat (map (\<lambda>p. case NewOSPath ju up u FileStorePathManipulator p of Ok q \<Rightarrow> [Components q] | Err _ \<Rightarrow> []) ps) =
      map (\<lambda>c. [c]) ps" if "set ps \<subseteq> set default_denied" for ps
    using that by (induction ps) (auto simp: new_path_def)
  then show ?thesis
    by (simp add: parsed_def)
qed

lemma default_rules_exact:
  "IsFileAccessible u (CheckSecuritySettings ju up u GOOS (config\<lparr>AllowedFsAccessorPrefix := [], DeniedFsAccessorPrefix := []\<rparr>)) path = None \<longleftrightarrow>
   (case filter (\<lambda>c. c \<noteq> []) (fs_components path) of [] \<Rightarrow> True | c # _ \<Rightarrow> c \<notin> set default_denied)"
proof -
  define cs where "cs = fs_components path"
  define ps where "ps = map (\<lambda>c. [c]) default_denied"
  have "fs_denied (CheckSecuritySettings ju up u GOOS (config\<lparr>AllowedFsAccessorPrefix := [], DeniedFsAccessorPrefix := []\<rparr>)) =
      map_option (rule_tree u False) (Some ps)"
    "fs_allowed (CheckSecuritySettings ju up u GOOS (config\<lparr>AllowedFsAccessorPrefix := [], DeniedFsAccessorPrefix := []\<rparr>)) =
      map_option (rule_tree u False) None"
    by (simp_all add: CheckSecuritySettings_def add_prefixes_fold parsed_default ps_def rule_tree_def Let_def)
  then have "IsFileAccessible u (CheckSecuritySettings ju up u GOOS (config\<lparr>AllowedFsAccessorPrefix := [], DeniedFsAccessorPrefix := []\<rparr>)) path = None \<longleftrightarrow>
      matching u False ps cs = {}"
    using CheckAccess_decision [of u cs False None "Some ps"] by (simp add: IsFileAccessible_def cs_def rule_matches_def)
  also have "\<dots> \<longleftrightarrow> (case filter (\<lambda>c. c \<noteq> []) cs of [] \<Rightarrow> True | c # _ \<Rightarrow> c \<notin> set default_denied)"
    by (cases "filter (\<lambda>c. c \<noteq> []) cs") (auto simp: matching_def ps_def node_ToLower_def)
  finally show ?thesis
    by (simp add: cs_def)
qed


text \<open>The path that is opened and the path that was checked.\<close>

lemma EqualFold_refl: "(\<And>a. ef a a) \<Longrightarrow> EqualFold ef a a"
  by (simp add: EqualFold_def)

lemma match_entry_Ok:
  "match_entry ef dirname basename entries = Ok q \<Longrightarrow> \<exists>e. fs_components q = fs_components dirname @ [e] \<and> EqualFold ef e basename"
  by (induction ef dirname basename entries rule: match_entry.induct) (auto simp: FS_AddChild_def mk_fs_def split: if_splits)

lemma getCorrectCase_fold:
  assumes "getCorrectCase ef store p = Ok q" and "fs_components p \<noteq> []" and refl: "\<And>a. ef a a"
  shows "list_all2 (EqualFold ef) (fs_components q) (fs_components p)"
  using assms(1,2)
proof (induction "length (fs_components p)" arbitrary: p q rule: less_induct)
  case less
  have refl': "list_all2 (EqualFold ef) xs xs" for xs
    by (rule list_all2_refl) (rule EqualFold_refl [OF refl])
  show ?case
  proof (cases "StatFile store p")
    case True
    then show ?thesis
      using less.prems(1) refl' by (simp add: getCorrectCase.simps)
  next
    case False
    define D where "D = FS_Dir p"
    have D: "fs_components D = butlast (fs_components p)"
      using less.prems(2) by (simp add: D_def FS_Dir_def mk_fs_def butlast_conv_take)
    obtain d where d: "(if length (fs_components D) > 0 \<and> \<not> StatFile store D then getCorrectCase ef store D else Ok D) = Ok d"
      "\<exists>entries. match_entry ef d (DS_Base (DSPathSpec_of p)) entries = Ok q"
      using less.prems(1) False unfolding getCorrectCase.simps [of ef store p] D_def
      by (auto simp: Let_def split: sum.splits option.splits if_splits)
    have "list_all2 (EqualFold ef) (fs_components d) (fs_components D)"
    proof (cases "fs_components D \<noteq> [] \<and> \<not> StatFile store D")
      case True
      then have "getCorrectCase ef store D = Ok d"
        using d(1) by simp
      moreover have "length (fs_components D) < length (fs_components p)"
        using less.prems(2) by (simp add: D)
      ultimately show ?thesis
        using less.hyps [of D d] True by blast
    next
      case False
      then have "d = D"
        using d(1) by auto
      then show ?thesis
        using refl' by simp
    qed
    moreover obtain e where "fs_components q = fs_components d @ [e]" "EqualFold ef e (DS_Base (DSPathSpec_of p))"
      using d(2) match_entry_Ok by blast
    moreover have "DS_Base (DSPathSpec_of p) = last (fs_components p)"
      using less.prems(2) by (simp add: DS_Base_def last_conv_nth)
    ultimately have "list_all2 (EqualFold ef) (fs_components q) (butlast (fs_components p) @ [last (fs_components p)])"
      using D by (simp add: list_all2_appendI)
    then show ?thesis
      using less.prems(2) by simp
  qed
qed

lemma map_sum_Inr: "map_sum id f x = Ok y \<longleftrightarrow> (\<exists>z. x = Ok z \<and> y = f z)"
  by (cases x) auto

lemma open_path_components:
  assumes "open_path p = Ok q" and "Components p \<noteq> []"
  shows "fs_components q \<noteq> []"
proof (cases "DelegatePath (snd (AsPathSpec p)) = ''ds:''")
  case True
  then obtain d where d: "getDSPathSpec p = Ok d"
    and q: "q = (let fullpath = DS_AsFilestorePath d
             in case path_type d of
                  PATH_TYPE_DATASTORE_JSON \<Rightarrow> FS_SetType fullpath PATH_TYPE_FILESTORE_DB_JSON
                | PATH_TYPE_DATASTORE_PROTO \<Rightarrow> FS_SetType fullpath PATH_TYPE_FILESTORE_DB
                | _ \<Rightarrow> fullpath)"
    using assms(1) unfolding open_path_def map_sum_Inr by (auto simp: map_sum_Inr)
  have "fs_components q = components d"
    unfolding q by (cases "path_type d") (simp_all add: FS_SetType_def mk_fs_def DS_AsFilestorePath_def)
  moreover obtain t n where n: "GetDataStorePathTypeFromExtension (Components p ! (length (Components p) - 1)) = (t, n)"
    by (rule prod.exhaust)
  then have "components d \<noteq> []"
    using d assms(2) by (auto simp: getDSPathSpec_def map_sum_Inr DS_SetType_def NewUnsafeDatastorePath_def Let_def)
  ultimately show ?thesis
    by simp
next
  case False
  obtain t n where n: "GetFileStorePathTypeFromExtension (Components p ! (length (Components p) - 1)) = (t, n)"
    by (rule prod.exhaust)
  have "FromGenericComponentList (Components p) = Ok q"
    using False assms(1) by (simp add: open_path_def)
  then obtain cs t' where "getTypeFromComponents (Components p) = Ok (cs, t')" "q = FS_SetType (NewUnsafeFilestorePath cs) t'"
    unfolding FromGenericComponentList_def map_sum_Inr by auto
  moreover from this have "cs \<noteq> []"
    using n assms(2) by (auto simp: getTypeFromComponents_def map_sum_Inr split: if_splits)
  ultimately show ?thesis
    by (simp add: FS_SetType_def mk_fs_def NewUnsafeFilestorePath_def)
qed

text \<open>C26: The accessor of the file store only opens what the rules admit, up to the case of letters.
  Whatever the file store holds, a file that is opened has the components of a path that the
  rules admit, except that their letters may differ in case.\<close>

theorem fs_open_checked:
  assumes "fs_Open u ef store rules p = Ok q" and "\<forall>a. ef a a"
  shows "\<exists>r. open_path p = Ok r \<and> IsFileAccessible u rules r = None \<and>
    list_all2 (EqualFold ef) (fs_components q) (fs_components r)"
proof -
  obtain r where r: "open_path p = Ok r" "IsFileAccessible u rules r = None" "Components p \<noteq> []"
    "fs_components q = fs_components r \<or> getCorrectCase ef store r = Ok q"
    using assms(1) by (auto simp: fs_Open_def FS_SetType_def mk_fs_def split: if_splits sum.splits option.splits)
  have "list_all2 (EqualFold ef) (fs_components q) (fs_components r)"
    using r(4)
  proof
    assume "fs_components q = fs_components r"
    then show ?thesis
      using EqualFold_refl assms(2) by (simp add: list_all2_refl)
  next
    assume "getCorrectCase ef store r = Ok q"
    then show ?thesis
      using getCorrectCase_fold open_path_components [OF r(1,3)] assms(2) by blast
  qed
  then show ?thesis
    using r by blast
qed

text \<open>A file store with the file \<^verbatim>\<open>users/alice\<close>.\<close>

definition one_user :: FileStore where
  "one_user =
     \<lparr>StatFile = (\<lambda>p. fs_components p \<in> {[''users''], [''users'', ''alice'']}),
      ReadFile = (\<lambda>p. fs_components p = [''users'', ''alice'']),
      ListDirectory = (\<lambda>p. if fs_components p = [] then Some [(''users'', NewSafeFilestorePath [''users''])]
         else if fs_components p = [''users''] then Some [(''alice'', NewSafeFilestorePath [''users'', ''alice''])] else None)\<rparr>"

definition no_rules :: Security where
  "no_rules = \<lparr>AllowedFileAccessorPrefix = [], DeniedFileAccessorPrefix = [], AllowedFsAccessorPrefix = [], DeniedFsAccessorPrefix = []\<rparr>"

text \<open>The rules look at the letters but the accessor, failing to open the path, corrects their
  case and does not check again: the file of a user can be read under a name in capitals,
  although the rules deny the path that is opened.\<close>

lemma case_correction_bypass:
  fixes ju :: "string \<Rightarrow> PathSpec option" and up :: "string \<Rightarrow> (string \<times> string \<times> string) option"
  defines "rules \<equiv> CheckSecuritySettings ju up (\<lambda>s. s) ''linux'' no_rules"
  shows "\<exists>p q. NewOSPath ju up (\<lambda>s. s) FileStorePathManipulator ''/USERS/alice.json'' = Ok p \<and>
    fs_Open (\<lambda>s. s) (=) one_user rules p = Ok q \<and> fs_components q = [''users'', ''alice''] \<and>
    IsFileAccessible (\<lambda>s. s) rules q = Some DeniedError"
proof -
  define p where "p = (new_path FileStorePathManipulator)\<lparr>pathspec := Some (PathSpec ''fs'' ''fs:'' None '''' False),
    Components := [''USERS'', ''alice.json'']\<rparr>"
  define f where "f = mk_fs [''USERS'', ''alice''] PATH_TYPE_FILESTORE_JSON False"
  have rules: "IsFileAccessible (\<lambda>s. s) rules q = None \<longleftrightarrow>
      (case filter (\<lambda>c. c \<noteq> []) (fs_components q) of [] \<Rightarrow> True | c # _ \<Rightarrow> c \<notin> set default_denied)" for q
    using default_rules_exact [of "\<lambda>s. s" ju up "''linux''" no_rules q] by (simp add: rules_def no_rules_def)
  have "SplitComponents ''/USERS/alice.json'' = [''USERS'', ''alice.json'']"
    by code_simp
  then have parse: "NewOSPath ju up (\<lambda>s. s) FileStorePathManipulator ''/USERS/alice.json'' = Ok p"
    by (simp add: NewOSPath_def PathParse_defs new_path_def maybeParsePathSpec_def has_prefix_def p_def)
  have "FromGenericComponentList [''USERS'', ''alice.json''] = Ok f"
    unfolding f_def by code_simp
  then have path: "open_path p = Ok f"
    by (simp add: open_path_def p_def new_path_def AsPathSpec_defs set_Path_def Let_def)
  define q where "q = mk_fs [''users'', ''alice''] PATH_TYPE_FILESTORE_JSON False"
  have fold: "EqualFold (=) ''users'' ''USERS''" "EqualFold (=) ''alice'' ''alice''"
    by code_simp+
  have "getCorrectCase (=) one_user (mk_fs [''USERS''] PATH_TYPE_FILESTORE_JSON False) =
      Ok (mk_fs [''users''] PATH_TYPE_FILESTORE_JSON False)"
    using fold by (subst getCorrectCase.simps) (simp add: one_user_def FS_Dir_def mk_fs_def DS_Base_def FS_AddChild_def)
  then have "getCorrectCase (=) one_user f = Ok q"
    using fold by (subst getCorrectCase.simps) (simp add: f_def q_def one_user_def FS_Dir_def mk_fs_def DS_Base_def FS_AddChild_def)
  moreover have "IsFileAccessible (\<lambda>s. s) rules f = None"
    unfolding rules by (simp add: f_def mk_fs_def default_denied_def)
  ultimately have "fs_Open (\<lambda>s. s) (=) one_user rules p = Ok q"
    using path by (simp add: fs_Open_def p_def new_path_def f_def q_def one_user_def mk_fs_def)
  moreover have "IsFileAccessible (\<lambda>s. s) rules q \<noteq> None"
    unfolding rules by (simp add: q_def mk_fs_def default_denied_def)
  then have "IsFileAccessible (\<lambda>s. s) rules q = Some DeniedError"
    using CheckAccess_error unfolding IsFileAccessible_def by metis
  ultimately show ?thesis
    using parse by (auto simp: q_def mk_fs_def)
qed

theorem fs_open_checked_witness:
  "\<exists>p q r. fs_Open (\<lambda>s. s) (=) one_user (CheckSecuritySettings (\<lambda>_. None) (\<lambda>_. None) (\<lambda>s. s) ''linux'' no_rules) p = Ok q \<and>
     open_path p = Ok r \<and>
     IsFileAccessible (\<lambda>s. s) (CheckSecuritySettings (\<lambda>_. None) (\<lambda>_. None) (\<lambda>s. s) ''linux'' no_rules) r = None \<and>
     list_all2 (EqualFold (=)) (fs_components q) (fs_components r)"
  using case_correction_bypass [of "\<lambda>_. None" "\<lambda>_. None"]
    fs_open_checked [of "\<lambda>s. s" "(=)" one_user "CheckSecuritySettings (\<lambda>_. None) (\<lambda>_. None) (\<lambda>s. s) ''linux'' no_rules"]
  by blast

section \<open>Files of the operating system\<close>

text \<open>A prefix in the notation of Linux.\<close>

lemma native_linux:
  assumes "ds \<noteq> []" and "list_all (\<lambda>c. ordinary c \<and> \<not> needs_quote c) ds"
  shows "\<exists>q. NewNativePath ju up u ''linux'' (''/'' @ join ''/'' ds) = Ok q \<and> Components q = ds"
proof -
  define s where "s = ''/'' @ join ''/'' ds"
  have sep: "is_sep (CHR ''/'')"
    by (simp add: is_sep_def)
  have "list_all ordinary ds" "map escapeComponent ds = ds"
    using assms(2) by (simp_all add: list_all_iff escapeComponent_eq map_idI)
  then have "SplitComponents s = ds"
    using split_loop_join [OF sep, of ds "[]"] split_loop_sep [OF sep, of "join ''/'' ds" "[]"] by (simp add: SplitComponents_def s_def)
  then have "Windows_components s = ds"
    using no_device_regex [of s] by (simp add: Windows_components_def s_def)
  then show ?thesis
    by (simp add: NewNativePath_def NewOSPath_def PathParse_defs new_path_def maybeParsePathSpec_def has_prefix_def
        components_of_def s_def)
qed



text \<open>On Windows the prefixes are read in the style of Linux and the paths of the accessor in that of
  Windows: a prefix with backslashes is one component, which matches no path.\<close>

lemma windows_prefix_ignored:
  defines "dir \<equiv> ''C:'' @ [backslash] @ ''Windows''"
  shows "\<exists>p. NewOSPath ju up u WindowsPathManipulator (dir @ [backslash] @ ''x'') = Ok p \<and>
    Components p = [''C:'', ''Windows'', ''x''] \<and>
    CheckPrefix u (CheckSecuritySettings ju up u ''windows'' (no_rules\<lparr>DeniedFileAccessorPrefix := [dir]\<rparr>)) p = None"
proof -
  define cs where "cs = [''C:'', ''Windows'', ''x'']"
  define p where "p = (new_path WindowsPathManipulator)\<lparr>pathspec := Some (PathSpec '''' '''' None (dir @ [backslash] @ ''x'') False),
    Components := cs\<rparr>"
  have "Windows_components (dir @ [backslash] @ ''x'') = cs"
    unfolding dir_def cs_def by code_simp
  then have "NewOSPath ju up u WindowsPathManipulator (dir @ [backslash] @ ''x'') = Ok p"
    by (simp add: NewOSPath_def PathParse_defs new_path_def components_of_def maybeParsePathSpec_def has_prefix_def p_def dir_def)
  moreover have "parsed (NewNativePath ju up u ''windows'') [dir] = [[dir]]"
    by (simp add: parsed_def NewNativePath_def NewOSPath_def PathParse_defs new_path_def components_of_def maybeParsePathSpec_def
        has_prefix_def dir_def)
  then have "CheckPrefix u (CheckSecuritySettings ju up u ''windows'' (no_rules\<lparr>DeniedFileAccessorPrefix := [dir]\<rparr>)) p = None"
    using CheckAccess_decision [of u cs True None "Some [[dir]]"]
    by (simp add: CheckPrefix_def CheckSecuritySettings_def no_rules_def add_prefixes_fold rule_tree_def rule_matches_def
        p_def new_path_def matching_def cs_def dir_def node_ToLower_def ToLower_def ascii_def ascii_lower_def Let_def)
  ultimately show ?thesis
    by (auto simp: p_def cs_def new_path_def)
qed

end
