(* ===== verification/Braces.thy ===== *)
theory Braces
  imports Slices
begin

text \<open>
  Brace expansion of glob expressions, \<^verbatim>\<open>ExpandBraces\<close> of \<^verbatim>\<open>glob/glob.go\<close>: the expression
  \<^verbatim>\<open>/bin/{b,d}ash\<close> stands for two. The code rewrites the string, one group at a time; the theory
  compares it with a grammar of nested alternatives.
\<close>

section \<open>Definitions\<close>

definition brace :: "char \<Rightarrow> bool" where
  "brace c \<longleftrightarrow> c = CHR ''{'' \<or> c = CHR ''}''"

text \<open>The expression \<^verbatim>\<open>^(.*)[{]([^{}]+)[}](.*)$\<close>: the first group is as long as possible, and a
  dot matches no newline. The text after an opening brace, then the whole.\<close>

definition group_here :: "string \<Rightarrow> (string \<times> string) option" where
  "group_here s =
     (let middle = takeWhile (\<lambda>c. \<not> brace c) s
      in case drop (length middle) s of
           [] \<Rightarrow> None
         | c # right \<Rightarrow>
             if c = CHR ''}'' \<and> middle \<noteq> [] \<and> CHR 0x0A \<notin> set right then Some (middle, right) else None)"

fun GROUPING_PATTERN :: "string \<Rightarrow> (string \<times> string \<times> string) option" where
  "GROUPING_PATTERN [] = None"
| "GROUPING_PATTERN (c # s) =
     (case (if c = CHR 0x0A then None else GROUPING_PATTERN s) of
        Some (left, middle, right) \<Rightarrow> Some (c # left, middle, right)
      | None \<Rightarrow>
          if c = CHR ''{'' then map_option (\<lambda>(middle, right). ([], middle, right)) (group_here s) else None)"

lemma group_here_eq:
  "group_here s = Some (m, r) \<Longrightarrow> s = m @ CHR ''}'' # r \<and> (\<forall>c \<in> set m. \<not> brace c) \<and> m \<noteq> []"
proof -
  assume g: "group_here s = Some (m, r)"
  define w where "w = takeWhile (\<lambda>c. \<not> brace c) s"
  have s: "s = w @ drop (length w) s"
    unfolding w_def by (metis append_take_drop_id takeWhile_eq_take)
  have "\<forall>c \<in> set w. \<not> brace c"
    unfolding w_def by (auto dest: set_takeWhileD)
  moreover have "w = m" "drop (length w) s = CHR ''}'' # r" "m \<noteq> []"
    using g by (simp_all add: group_here_def Let_def flip: w_def split: list.splits if_splits)
  ultimately show ?thesis
    using s by simp
qed

lemma GROUPING_PATTERN_eq:
  "GROUPING_PATTERN s = Some (l, m, r) \<Longrightarrow>
    s = l @ CHR ''{'' # m @ CHR ''}'' # r \<and> (\<forall>c \<in> set m. \<not> brace c) \<and> m \<noteq> []"
proof (induction s arbitrary: l m r rule: GROUPING_PATTERN.induct)
  case (2 c s)
  show ?case
  proof (cases "if c = CHR 0x0A then None else GROUPING_PATTERN s")
    case None
    then show ?thesis
      using 2(2) group_here_eq [of s] by (auto split: if_splits)
  next
    case (Some x)
    obtain l' where "x = (l', m, r)" "l = c # l'"
      using 2(2) Some by (cases x) auto
    then show ?thesis
      using 2(1) Some by (auto split: if_splits)
  qed
qed simp

text \<open>The expansion of one expression, which adds to the results so far. The order of the
  accumulator is that of the results.\<close>

definition openings :: "string \<Rightarrow> nat" where
  "openings s = length (filter (\<lambda>c. c = CHR ''{'') s)"

lemma openings_less:
  assumes "GROUPING_PATTERN s = Some (l, m, r)" and "i \<in> set (split_on c m)"
  shows "openings (l @ i @ r) < openings s"
proof -
  have "set i \<subseteq> set m"
    using assms(2) by (induction m arbitrary: i) (fastforce split: list.splits if_splits)+
  then have "filter (\<lambda>c. c = CHR ''{'') i = []"
    using GROUPING_PATTERN_eq [OF assms(1)] by (auto simp: brace_def filter_empty_conv)
  then show ?thesis
    using GROUPING_PATTERN_eq [OF assms(1)] by (auto simp: openings_def)
qed

function brace_expansion :: "string \<Rightarrow> string list \<Rightarrow> string list" where
  "brace_expansion pattern result =
     (case GROUPING_PATTERN pattern of
        Some (left, middle, right) \<Rightarrow>
          fold (\<lambda>item result. brace_expansion (left @ item @ right) result) (split_on (CHR '','') middle) result
      | None \<Rightarrow> if \<not> InString result pattern then result @ [pattern] else result)"
  by pat_completeness auto
termination
  by (relation "measure (\<lambda>(p, _). openings p)") (auto intro: openings_less)

declare brace_expansion.simps [simp del]

definition ExpandBraces :: "string \<Rightarrow> string list result" where
  "ExpandBraces pattern =
     (let result = brace_expansion pattern []
      in if \<exists>r \<in> set result. \<exists>c \<in> set r. brace c then Err (Errorf ''Invalid brace expression'') else Ok result)"

section \<open>Alternatives\<close>

text \<open>An expression is a sequence of characters and groups; a group has alternatives, which are
  sequences. Its text and the strings it stands for:\<close>

datatype brace_item = Plain char | Group "brace_item list list"

fun item_text :: "brace_item \<Rightarrow> string" where
  "item_text (Plain c) = [c]"
| "item_text (Group as) = ''{'' @ join '','' (map (\<lambda>a. concat (map item_text a)) as) @ ''}''"

abbreviation seq_text :: "brace_item list \<Rightarrow> string" where
  "seq_text a \<equiv> concat (map item_text a)"

definition conc :: "string set \<Rightarrow> string set \<Rightarrow> string set" where
  "conc A B = {a @ b | a b. a \<in> A \<and> b \<in> B}"

fun item_lang :: "brace_item \<Rightarrow> string set" where
  "item_lang (Plain c) = {[c]}"
| "item_lang (Group as) = (\<Union>a \<in> set as. foldr (\<lambda>i. conc (item_lang i)) a {[]})"

abbreviation seq_lang :: "brace_item list \<Rightarrow> string set" where
  "seq_lang a \<equiv> foldr (\<lambda>i. conc (item_lang i)) a {[]}"

text \<open>Characters are no braces and no newline, and inside a group no comma. A group has
  alternatives, and a single one never stands for the empty string.\<close>

fun item_ok :: "bool \<Rightarrow> brace_item \<Rightarrow> bool" where
  "item_ok nested (Plain c) \<longleftrightarrow> \<not> brace c \<and> c \<noteq> CHR 0x0A \<and> (nested \<longrightarrow> c \<noteq> CHR '','')"
| "item_ok nested (Group as) \<longleftrightarrow>
     as \<noteq> [] \<and> (length as = 1 \<longrightarrow> [] \<notin> seq_lang (hd as)) \<and> (\<forall>a \<in> set as. \<forall>i \<in> set a. item_ok True i)"

abbreviation seq_ok :: "bool \<Rightarrow> brace_item list \<Rightarrow> bool" where
  "seq_ok nested a \<equiv> \<forall>i \<in> set a. item_ok nested i"

text \<open>The group that the code expands next, the last one that holds no other, replaced by its
  alternatives in turn.\<close>

fun choose_last :: "('a \<Rightarrow> 'a list list option) \<Rightarrow> 'a list \<Rightarrow> 'a list list option" where
  "choose_last f [] = None"
| "choose_last f (x # xs) =
     (case choose_last f xs of
        Some qs \<Rightarrow> Some (map ((#) x) qs)
      | None \<Rightarrow> map_option (map (\<lambda>q. q @ xs)) (f x))"

lemma choose_last_cong [fundef_cong]:
  "xs = ys \<Longrightarrow> (\<And>x. x \<in> set ys \<Longrightarrow> f x = g x) \<Longrightarrow> choose_last f xs = choose_last g ys"
  by (induction ys arbitrary: xs) (auto split: option.splits)

fun expand_item :: "brace_item \<Rightarrow> brace_item list list option" where
  "expand_item (Plain c) = None"
| "expand_item (Group as) =
     (case choose_last (\<lambda>a. map_option (map (\<lambda>q. [q])) (choose_last expand_item a)) as of
        Some qs \<Rightarrow> Some (map (\<lambda>q. [Group q]) qs)
      | None \<Rightarrow> Some as)"

abbreviation expand_seq :: "brace_item list \<Rightarrow> brace_item list list option" where
  "expand_seq a \<equiv> choose_last expand_item a"

section \<open>The group that is expanded\<close>

lemma no_group: "CHR ''{'' \<notin> set s \<Longrightarrow> GROUPING_PATTERN s = None"
  by (induction s) auto

lemma last_group:
  assumes "m \<noteq> []" and "\<forall>c \<in> set m. \<not> brace c" and "CHR ''{'' \<notin> set r" and "CHR 0x0A \<notin> set (l @ r)"
  shows "GROUPING_PATTERN (l @ CHR ''{'' # m @ CHR ''}'' # r) = Some (l, m, r)"
  using assms(4)
proof (induction l)
  case Nil
  have "GROUPING_PATTERN (m @ CHR ''}'' # r) = None"
    using assms(2,3) by (intro no_group) (auto simp: brace_def)
  moreover have "group_here (m @ CHR ''}'' # r) = Some (m, r)"
    using assms(1,2) Nil by (simp add: group_here_def brace_def takeWhile_append2 Let_def)
  ultimately show ?case
    by simp
qed auto

text \<open>A text whose last group is expanded gives these texts.\<close>

definition expands :: "string \<Rightarrow> string list \<Rightarrow> bool" where
  "expands t qs \<longleftrightarrow>
     (\<exists>l m r. t = l @ CHR ''{'' # m @ CHR ''}'' # r \<and> m \<noteq> [] \<and> (\<forall>c \<in> set m. \<not> brace c) \<and> CHR ''{'' \<notin> set r \<and>
        qs = map (\<lambda>i. l @ i @ r) (split_on (CHR '','') m))"

lemma expands_append:
  assumes "expands t qs" and "CHR ''{'' \<notin> set v"
  shows "expands (w @ t @ v) (map (\<lambda>q. w @ q @ v) qs)"
proof -
  obtain l m r where "t = l @ CHR ''{'' # m @ CHR ''}'' # r" "m \<noteq> []" "\<forall>c \<in> set m. \<not> brace c" "CHR ''{'' \<notin> set r"
    "qs = map (\<lambda>i. l @ i @ r) (split_on (CHR '','') m)"
    using assms(1) by (auto simp: expands_def)
  then show ?thesis
    using assms(2) unfolding expands_def by (intro exI [of _ "w @ l"] exI [of _ m] exI [of _ "r @ v"]) auto
qed

lemma expands_brace_expansion:
  assumes "expands t qs" and "CHR 0x0A \<notin> set t"
  shows "brace_expansion t acc = fold brace_expansion qs acc"
proof -
  obtain l m r where t: "t = l @ CHR ''{'' # m @ CHR ''}'' # r" "m \<noteq> []" "\<forall>c \<in> set m. \<not> brace c" "CHR ''{'' \<notin> set r"
    and qs: "qs = map (\<lambda>i. l @ i @ r) (split_on (CHR '','') m)"
    using assms(1) by (auto simp: expands_def)
  have "GROUPING_PATTERN t = Some (l, m, r)"
    using last_group [OF t(2,3,4)] assms(2) t(1) by auto
  then show ?thesis
    by (subst brace_expansion.simps) (simp add: qs fold_map comp_def)
qed

lemma expands_openings: "expands t qs \<Longrightarrow> q \<in> set qs \<Longrightarrow> CHR 0x0A \<notin> set t \<Longrightarrow> openings q < openings t"
proof -
  assume "expands t qs" and q: "q \<in> set qs" and n: "CHR 0x0A \<notin> set t"
  then obtain l m r where t: "t = l @ CHR ''{'' # m @ CHR ''}'' # r" "m \<noteq> []" "\<forall>c \<in> set m. \<not> brace c" "CHR ''{'' \<notin> set r"
    and qs: "qs = map (\<lambda>i. l @ i @ r) (split_on (CHR '','') m)"
    by (auto simp: expands_def)
  have "GROUPING_PATTERN t = Some (l, m, r)"
    using last_group [OF t(2,3,4)] n t(1) by auto
  then show ?thesis
    using q qs openings_less by auto
qed

lemma choose_last_None: "choose_last f xs = None \<longleftrightarrow> (\<forall>x \<in> set xs. f x = None)"
  by (induction xs) (auto split: option.splits)

lemma choose_last_Some:
  assumes "choose_last f xs = Some qs"
  obtains ys x zs rs where "xs = ys @ x # zs" "f x = Some rs" "\<forall>z \<in> set zs. f z = None" "qs = map (\<lambda>r. ys @ r @ zs) rs"
  using assms
proof (induction xs arbitrary: qs thesis)
  case (Cons a xs)
  show ?case
  proof (cases "choose_last f xs")
    case None
    then obtain rs where "f a = Some rs" "qs = map (\<lambda>q. q @ xs) rs"
      using Cons.prems(2) by auto
    then show ?thesis
      using Cons.prems(1) [of "[]" a xs rs] None by (simp add: choose_last_None)
  next
    case (Some ps)
    then obtain ys x zs rs where "xs = ys @ x # zs" "f x = Some rs" "\<forall>z \<in> set zs. f z = None" "ps = map (\<lambda>r. ys @ r @ zs) rs"
      using Cons.IH by blast
    then show ?thesis
      using Cons.prems(1) [of "a # ys" x zs rs] Cons.prems(2) Some by (simp add: comp_def)
  qed
qed simp

lemma expand_item_None: "expand_item i = None \<Longrightarrow> \<exists>c. i = Plain c"
  by (cases i) (auto split: option.splits)

lemma plain_seq: "\<forall>i \<in> set a. expand_item i = None \<Longrightarrow> \<exists>s. a = map Plain s"
  by (induction a) (auto dest!: expand_item_None intro: exI [of _ "_ # _"] simp flip: list.simps(9))

lemma conc_Nil [simp]: "conc A {[]} = A"
  by (auto simp: conc_def)

lemma seq_Plain [simp]: "concat (map (item_text \<circ> Plain) s) = s" "seq_lang (map Plain s) = {s}"
  by (induction s) (auto simp: conc_def)

lemma seq_lang_append: "seq_lang (a @ b) = conc (seq_lang a) (seq_lang b)"
proof (induction a)
  case (Cons i a)
  have "conc (conc A B) C = conc A (conc B C)" for A B C
    by (auto simp: conc_def) (metis append.assoc)+
  then show ?case
    using Cons by simp
qed (auto simp: conc_def)

lemma conc_Union: "conc A (\<Union>x \<in> X. B x) = (\<Union>x \<in> X. conc A (B x))" "conc (\<Union>x \<in> X. B x) A = (\<Union>x \<in> X. conc (B x) A)"
  by (auto simp: conc_def)

lemma join_mid: "join sep (xs @ t # ys) = concat (map (\<lambda>x. x @ sep) xs) @ t @ concat (map (\<lambda>y. sep @ y) ys)"
proof (induction xs)
  case Nil
  show ?case
    by (induction ys arbitrary: t) auto
next
  case (Cons x xs)
  then show ?case
    by (simp add: join_Cons)
qed

text \<open>What an expanded item, sequence or group satisfies.\<close>

definition good :: "bool \<Rightarrow> string \<Rightarrow> string set \<Rightarrow> brace_item list list \<Rightarrow> bool" where
  "good n t L qs \<longleftrightarrow> expands t (map seq_text qs) \<and> L = (\<Union>q \<in> set qs. seq_lang q) \<and> (\<forall>q \<in> set qs. seq_ok n q)"

lemma plain_no_brace: "seq_ok n (map Plain s) \<Longrightarrow> CHR ''{'' \<notin> set s"
  by (auto simp: brace_def)

lemma expand_seq_good:
  assumes "\<And>i qs. i \<in> set a \<Longrightarrow> expand_item i = Some qs \<Longrightarrow> good n (item_text i) (item_lang i) qs"
    and "seq_ok n a" and "expand_seq a = Some qs"
  shows "good n (seq_text a) (seq_lang a) qs"
proof -
  obtain ys x zs rs where a: "a = ys @ x # zs" and x: "expand_item x = Some rs" and z: "\<forall>z \<in> set zs. expand_item z = None"
    and qs: "qs = map (\<lambda>r. ys @ r @ zs) rs"
    using assms(3) by (rule choose_last_Some)
  obtain s where s: "zs = map Plain s"
    using plain_seq [OF z] by blast
  have g: "good n (item_text x) (item_lang x) rs"
    using assms(1) a x by simp
  have "CHR ''{'' \<notin> set s"
    using assms(2) a s by (intro plain_no_brace [of s n]) simp
  then have "expands (seq_text ys @ item_text x @ s) (map (\<lambda>q. seq_text ys @ q @ s) (map seq_text rs))"
    using g by (intro expands_append) (simp_all add: good_def)
  moreover have "seq_lang a = (\<Union>q \<in> set qs. seq_lang q)"
  proof -
    have x1: "seq_lang (x # zs) = conc (item_lang x) {s}"
      by (simp add: s)
    have "seq_lang a = conc (seq_lang ys) (conc (\<Union>q \<in> set rs. seq_lang q) {s})"
      using g unfolding a seq_lang_append [of ys "x # zs"] x1 by (simp add: good_def)
    also have "\<dots> = (\<Union>q \<in> set rs. conc (seq_lang ys) (conc (seq_lang q) {s}))"
      by (simp add: conc_Union)
    also have "\<dots> = (\<Union>q \<in> set qs. seq_lang q)"
      by (simp add: qs s seq_lang_append del: foldr_append)
    finally show ?thesis .
  qed
  moreover have "\<forall>q \<in> set qs. seq_ok n q"
    using g assms(2) by (auto simp: good_def a qs)
  ultimately show ?thesis
    by (simp add: good_def a qs s comp_def)
qed

lemma item_ok_mono: "item_ok True i \<Longrightarrow> item_ok n i"
  by (cases i) simp_all

lemma group_plain_good:
  assumes ok: "item_ok n (Group (map (map Plain) ss))"
  shows "good n (item_text (Group (map (map Plain) ss))) (item_lang (Group (map (map Plain) ss))) (map (map Plain) ss)"
proof -
  define m where "m = join '','' ss"
  have ss: "ss \<noteq> []" "\<forall>s \<in> set ss. \<forall>c \<in> set s. \<not> brace c \<and> c \<noteq> CHR '',''"
    using ok by simp_all
  have one: "hd ss \<noteq> []" if l: "length ss = 1"
  proof -
    obtain t where "ss = [t]"
      using l by (auto simp: length_Suc_conv)
    then show ?thesis
      using ok by (cases t) simp_all
  qed
  have "set m \<subseteq> insert (CHR '','') (\<Union>s \<in> set ss. set s)"
    unfolding m_def by (induction "'',''" ss rule: join.induct) auto
  then have *: "c = CHR '','' \<or> (\<exists>s \<in> set ss. c \<in> set s)" if "c \<in> set m" for c
    using that by blast
  have "\<forall>c \<in> set m. \<not> brace c"
  proof
    fix c
    assume "c \<in> set m"
    from * [OF this] show "\<not> brace c"
      using ss(2) by (elim disjE) (simp_all add: brace_def, blast)
  qed
  moreover have "m \<noteq> []"
  proof -
    obtain t ts where "ss = t # ts"
      using ss(1) by (cases ss) simp_all
    then show ?thesis
      using one by (cases ts) (simp_all add: m_def)
  qed
  moreover have "split_on (CHR '','') m = ss"
    unfolding m_def by (rule split_on_join [OF ss(1)]) (use ss(2) in blast)
  ultimately have *: "expands (CHR ''{'' # m @ ''}'') ss"
    unfolding expands_def by (intro exI [of _ "[]"] exI [of _ m] exI [of _ "[]"]) simp
  have "map seq_text (map (map Plain) ss) = ss"
    by (induction ss) simp_all
  with * have "expands (item_text (Group (map (map Plain) ss))) (map seq_text (map (map Plain) ss))"
    by (simp add: m_def del: map_map)
  moreover have "\<forall>q \<in> set (map (map Plain) ss). seq_ok n q"
    using ok by simp
  moreover have "item_lang (Group (map (map Plain) ss)) = set ss"
    by simp
  ultimately show ?thesis
    unfolding good_def by simp
qed

lemma group_nested_good:
  assumes seq: "\<And>a ps. a \<in> set as \<Longrightarrow> expand_seq a = Some ps \<Longrightarrow> good True (seq_text a) (seq_lang a) ps"
    and ok: "item_ok n (Group as)"
    and qs: "choose_last (\<lambda>a. map_option (map (\<lambda>q. [q])) (expand_seq a)) as = Some qs"
  shows "good n (item_text (Group as)) (item_lang (Group as)) (map (\<lambda>q. [Group q]) qs)"
proof -
  obtain ys a zs rs where eq: "as = ys @ a # zs" and a: "map_option (map (\<lambda>q. [q])) (expand_seq a) = Some rs"
    and z: "\<forall>z \<in> set zs. map_option (map (\<lambda>q. [q])) (expand_seq z) = None" and q: "qs = map (\<lambda>r. ys @ r @ zs) rs"
    using qs by (rule choose_last_Some)
  obtain ps where ps: "expand_seq a = Some ps" "rs = map (\<lambda>q. [q]) ps"
    using a by auto
  have g: "good True (seq_text a) (seq_lang a) ps"
    using seq eq ps(1) by simp
  define w where "w = concat (map (\<lambda>x. x @ '','') (map seq_text ys))"
  define v where "v = concat (map (\<lambda>y. '','' @ y) (map seq_text zs))"
  have grp: "item_text (Group (ys @ b # zs)) = (''{'' @ w) @ seq_text b @ v @ ''}''" for b
    using join_mid [of "'',''" "map seq_text ys" "seq_text b" "map seq_text zs"] by (simp add: w_def v_def comp_def)
  have "CHR ''{'' \<notin> set v"
  proof -
    have "CHR ''{'' \<notin> set (seq_text y)" if y: "y \<in> set zs" for y
    proof -
      obtain s where "y = map Plain s"
        using z y plain_seq [of y] by (auto simp: choose_last_None)
      moreover have "seq_ok True y"
        using ok y by (auto simp: eq simp del: foldr_append)
      ultimately show ?thesis
        using plain_no_brace [of s True] by simp
    qed
    then show ?thesis
      by (auto simp: v_def)
  qed
  then have "expands (item_text (Group as)) (map (\<lambda>q. (''{'' @ w) @ q @ v @ ''}'') (map seq_text ps))"
    unfolding eq grp using g by (intro expands_append) (simp_all add: good_def)
  then have "expands (item_text (Group as)) (map seq_text (map (\<lambda>q. [Group q]) qs))"
    using grp by (simp add: q ps(2) comp_def)
  moreover have "item_lang (Group as) = (\<Union>q \<in> set (map (\<lambda>q. [Group q]) qs). seq_lang q)"
  proof -
    have "ps \<noteq> []"
      using g split_on_not_Nil by (auto simp: good_def expands_def)
    then show ?thesis
      using g by (auto simp: eq q ps(2) good_def)
  qed
  moreover have "item_ok n (Group (ys @ b # zs))" if "b \<in> set ps" for b
  proof -
    have "seq_lang b \<subseteq> seq_lang a" "seq_ok True b"
      using g that by (auto simp: good_def)
    then show ?thesis
      using ok eq by (cases ys) auto
  qed
  ultimately show ?thesis
    by (auto simp: good_def q ps(2))
qed

lemma expand_item_good: "item_ok n i \<Longrightarrow> expand_item i = Some qs \<Longrightarrow> good n (item_text i) (item_lang i) qs"
proof (induction i arbitrary: n qs)
  case (Group as)
  have seq: "good True (seq_text a) (seq_lang a) ps" if "a \<in> set as" "expand_seq a = Some ps" for a ps
    using that Group.prems(1) by (intro expand_seq_good) (auto intro: Group.IH)
  show ?case
  proof (cases "choose_last (\<lambda>a. map_option (map (\<lambda>q. [q])) (expand_seq a)) as")
    case None
    then have "\<forall>a \<in> set as. \<exists>s. a = map Plain s"
      by (auto simp: choose_last_None intro: plain_seq)
    then obtain ss where ss: "as = map (map Plain) ss"
      by (auto simp: subset_code(1) dest!: ex_map_conv [THEN iffD2])
    have "qs = as"
      using Group.prems(2) None by simp
    then show ?thesis
      using group_plain_good [of n ss] Group.prems(1) unfolding ss by blast
  next
    case (Some ps)
    then show ?thesis
      using group_nested_good [OF seq Group.prems(1) Some] Group.prems(2) by simp
  qed
qed simp

lemma ok_no_newline: "item_ok n i \<Longrightarrow> CHR 0x0A \<notin> set (item_text i)"
proof (induction i arbitrary: n)
  case (Group as)
  have "set (join '','' ts) \<subseteq> insert (CHR '','') (\<Union>t \<in> set ts. set t)" for ts
    by (induction "'',''" ts rule: join.induct) auto
  then have "set (item_text (Group as)) \<subseteq> {CHR ''{'', CHR '','', CHR ''}''} \<union> (\<Union>a \<in> set as. \<Union>i \<in> set a. set (item_text i))"
    by fastforce
  then show ?case
    using Group by fastforce
qed auto

section \<open>Expansion\<close>

lemma brace_expansion_lang:
  assumes "seq_ok False a" and "distinct acc"
  shows "distinct (brace_expansion (seq_text a) acc) \<and> set (brace_expansion (seq_text a) acc) = set acc \<union> seq_lang a"
  using assms
proof (induction "openings (seq_text a)" arbitrary: a acc rule: less_induct)
  case less
  have nl: "CHR 0x0A \<notin> set (seq_text a)"
    using less.prems(1) ok_no_newline by auto
  show ?case
  proof (cases "expand_seq a")
    case None
    then obtain s where s: "a = map Plain s"
      using plain_seq by (auto simp: choose_last_None)
    have "brace_expansion s acc = (if s \<in> set acc then acc else acc @ [s])"
      using less.prems(1) plain_no_brace [of s False] no_group [of s] s by (subst brace_expansion.simps) simp
    then show ?thesis
      using less.prems(2) by (auto simp: s)
  next
    case (Some qs)
    have g: "good False (seq_text a) (seq_lang a) qs"
      using expand_seq_good [OF expand_item_good less.prems(1) Some] less.prems(1) by blast
    have "distinct (fold brace_expansion (map seq_text ps) ac) \<and>
        set (fold brace_expansion (map seq_text ps) ac) = set ac \<union> (\<Union>q \<in> set ps. seq_lang q)"
      if "set ps \<subseteq> set qs" "distinct ac" for ps ac
      using that
    proof (induction ps arbitrary: ac)
      case (Cons p ps)
      have "openings (seq_text p) < openings (seq_text a)"
        using g Cons.prems(1) nl by (auto simp: good_def intro: expands_openings)
      moreover have "seq_ok False p"
        using g Cons.prems(1) by (auto simp: good_def)
      ultimately have "distinct (brace_expansion (seq_text p) ac)"
        "set (brace_expansion (seq_text p) ac) = set ac \<union> seq_lang p"
        using less.hyps Cons.prems(2) by blast+
      then show ?case
        using Cons.IH [of "brace_expansion (seq_text p) ac"] Cons.prems(1) by auto
    qed simp
    from this [of qs acc] show ?thesis
      using g less.prems(2) expands_brace_expansion [OF _ nl, of "map seq_text qs"] by (simp add: good_def)
  qed
qed

lemma lang_no_brace: "item_ok n i \<Longrightarrow> s \<in> item_lang i \<Longrightarrow> \<forall>c \<in> set s. \<not> brace c"
proof (induction i arbitrary: n s)
  case (Group as)
  then obtain a where a: "a \<in> set as" "s \<in> seq_lang a"
    by auto
  have "\<forall>c \<in> set t. \<not> brace c" if "t \<in> seq_lang b" "set b \<subseteq> set a" for t b
    using that
  proof (induction b arbitrary: t)
    case (Cons i b)
    then obtain x y where "t = x @ y" "x \<in> item_lang i" "y \<in> seq_lang b"
      unfolding foldr.simps comp_def conc_def by blast
    then show ?case
      using Cons.IH [of y] Cons.prems(2) Group.IH [OF a(1), of i True x] Group.prems(1) a(1) by auto
  qed simp
  then show ?case
    using a by blast
qed auto

text \<open>C24: Brace expansion. A well-formed expression, with groups nested to any depth, is accepted,
  and its expansions are exactly the strings that one choice per group gives, each once.\<close>

theorem ExpandBraces_language:
  assumes "seq_ok False a"
  shows "\<exists>rs. ExpandBraces (seq_text a) = Ok rs \<and> distinct rs \<and> set rs = seq_lang a"
proof -
  have "\<not> brace c" if "s \<in> seq_lang b" "set b \<subseteq> set a" "c \<in> set s" for s b c
    using that
  proof (induction b arbitrary: s)
    case (Cons i b)
    then obtain x y where "s = x @ y" "x \<in> item_lang i" "y \<in> seq_lang b"
      unfolding foldr.simps comp_def conc_def by blast
    then show ?case
      using Cons.IH [of y] Cons.prems(2,3) lang_no_brace [of False i x] assms by auto
  qed simp
  then show ?thesis
    using brace_expansion_lang [OF assms, of "[]"] by (auto simp: ExpandBraces_def Let_def)
qed

theorem ExpandBraces_language_witness:
  "\<exists>rs. ExpandBraces ''/{a,b{c,}}x'' = Ok rs \<and> distinct rs \<and> set rs = {''/ax'', ''/bcx'', ''/bx''}"
proof -
  define a where "a = [Plain (CHR ''/''), Group [[Plain (CHR ''a'')], [Plain (CHR ''b''), Group [[Plain (CHR ''c'')], []]]], Plain (CHR ''x'')]"
  have "seq_ok False a" "seq_text a = ''/{a,b{c,}}x''" "seq_lang a = {''/ax'', ''/bcx'', ''/bx''}"
    by (auto simp: a_def brace_def conc_def)
  then show ?thesis
    using ExpandBraces_language [of a] by simp
qed

text \<open>A group whose only alternative becomes empty is refused, though the inner group has one.\<close>

lemma empty_group_refused: "ExpandBraces ''x{{a,}}'' = Err (Errorf ''Invalid brace expression'')"
proof -
  have "brace_expansion ''x{{a,}}'' [] = [''xa'', ''x{}'']"
    by (simp add: brace_expansion.simps group_here_def brace_def)
  then show ?thesis
    by (auto simp: ExpandBraces_def brace_def)
qed

end
