(* ===== verification/Fnmatch.thy ===== *)
theory Fnmatch
  imports Zip_Names
begin

text \<open>
  Wildcards of globs, \<^verbatim>\<open>FNmatchTranslate\<close> of \<^verbatim>\<open>glob/glob.go\<close>: the code translates a shell pattern
  to a regular expression and lets Go's \<^verbatim>\<open>regexp\<close> match it. The part of Go's regular expressions
  that the translation produces is defined here, and the combination is compared with a
  direct definition of matching.
\<close>

section \<open>Translation\<close>

text \<open>The conversion of a string to runes.\<close>

function runes :: "string \<Rightarrow> nat list" where
  "runes s = (if s = [] then [] else (case decode_rune s of (r, w) \<Rightarrow> r # runes (drop (max 1 w) s)))"
  by pat_completeness auto
termination
  by (relation "measure length") auto

declare runes.simps [simp del]

abbreviation rune :: "char \<Rightarrow> nat" where
  "rune c \<equiv> byte c"

definition rune_alnum :: "nat \<Rightarrow> bool" where
  "rune_alnum i \<longleftrightarrow>
     rune (CHR ''a'') \<le> i \<and> i \<le> rune (CHR ''z'') \<or> rune (CHR ''A'') \<le> i \<and> i \<le> rune (CHR ''Z'') \<or>
     rune (CHR ''0'') \<le> i \<and> i \<le> rune (CHR ''9'')"

definition escape_rune :: "nat \<Rightarrow> nat list" where
  "escape_rune x = (if \<not> rune_alnum x then [rune (CHR 0x5C)] else []) @ [x]"

fun escape_backslash :: "nat list \<Rightarrow> nat list" where
  "escape_backslash [] = []"
| "escape_backslash (x # pattern) =
     (if x = rune (CHR 0x5C) then [rune (CHR 0x5C)] else []) @ x # escape_backslash pattern"

text \<open>How many runes after an opening bracket come before the closing one: an exclamation mark,
  then a closing bracket, are skipped first.\<close>

definition bracket_end :: "nat list \<Rightarrow> nat option" where
  "bracket_end pat =
     (let j = (if take 1 pat = [rune (CHR ''!'')] then 1 else 0);
          j = (if take 1 (drop j pat) = [rune (CHR '']'')] then j + 1 else j);
          j = j + length (takeWhile (\<lambda>c. c \<noteq> rune (CHR '']'')) (drop j pat))
      in if j \<ge> length pat then None else Some j)"

function translate_loop :: "nat list \<Rightarrow> nat list" where
  "translate_loop [] = []"
| "translate_loop (c # pat) =
     (if c = rune (CHR ''*'') then map rune ''.*'' @ translate_loop pat
      else if c = rune (CHR ''?'') then map rune ''.'' @ translate_loop pat
      else if c = rune (CHR ''['') then
        (case bracket_end pat of
           None \<Rightarrow> [rune (CHR 0x5C), rune (CHR ''['')] @ translate_loop pat
         | Some j \<Rightarrow>
             (let stuff = escape_backslash (take j pat);
                  stuff = (if take 1 stuff = [rune (CHR ''!'')] then rune (CHR ''^'') # drop 1 stuff
                           else if take 1 stuff = [rune (CHR ''^'')] then rune (CHR 0x5C) # stuff else stuff)
              in rune (CHR ''['') # stuff @ rune (CHR '']'') # translate_loop (drop (j + 1) pat)))
      else escape_rune c @ translate_loop pat)"
  by pat_completeness auto
termination
  by (relation "measure length") auto

definition FNmatchTranslate :: "string \<Rightarrow> string" where
  "FNmatchTranslate pat =
     concat (map encode_rune (translate_loop (runes pat) @ map rune ([CHR 0x5C] @ ''z(?ms)'')))"

section \<open>Regular expressions\<close>

text \<open>A compiled expression is a sequence of runes to match, each once or any number of times, and
  of tests of the position. The flag of a rune or a class is whether case is ignored. A class is
  its text; what a text after an opening bracket denotes, and how long it is, is a parameter
  \<open>cls\<close>.\<close>

datatype rx_atom = AnyRune | NotNewline | Rune bool nat | Class bool "nat list"

datatype rx = One rx_atom | Star rx_atom | BeginText | EndText

record rx_flags =
  multi_line :: bool
  dot_newline :: bool
  fold_case :: bool

type_synonym classes = "nat list \<Rightarrow> (nat \<times> (bool \<Rightarrow> nat \<Rightarrow> bool)) option"

text \<open>An escaped rune stands for itself if it is in ASCII and neither a letter nor a digit; any
  other escape is an error.\<close>

definition parse_atom :: "classes \<Rightarrow> rx_flags \<Rightarrow> nat \<Rightarrow> nat list \<Rightarrow> (rx_atom \<times> nat list) result" where
  "parse_atom cls fl c rest =
     (if c = rune (CHR ''.'') then Ok (if dot_newline fl then AnyRune else NotNewline, rest)
      else if c = rune (CHR 0x5C) then
        (case rest of
           [] \<Rightarrow> Err (Errorf ''trailing backslash at end of expression'')
         | d # rest \<Rightarrow>
             if d < 0x80 \<and> \<not> rune_alnum d then Ok (Rune (fold_case fl) d, rest)
             else Err (Errorf ''invalid escape sequence''))
      else if c = rune (CHR ''['') then
        (case cls rest of
           None \<Rightarrow> Err (Errorf ''invalid character class'')
         | Some (n, _) \<Rightarrow> Ok (Class (fold_case fl) (take n rest), drop n rest))
      else if rune_alnum c \<or> 0x80 \<le> c then Ok (Rune (fold_case fl) c, rest)
      else Err (Errorf ''not an atom''))"

lemma parse_atom_shorter: "parse_atom cls fl c rest = Ok (a, rest') \<Longrightarrow> length rest' \<le> length rest"
  by (auto simp: parse_atom_def split: if_splits list.splits option.splits)

text \<open>The flags of a group such as \<^verbatim>\<open>(?msi)\<close>.\<close>

definition set_flags :: "nat list \<Rightarrow> rx_flags \<Rightarrow> rx_flags" where
  "set_flags fs fl =
     fl\<lparr>multi_line := multi_line fl \<or> rune (CHR ''m'') \<in> set fs,
        dot_newline := dot_newline fl \<or> rune (CHR ''s'') \<in> set fs,
        fold_case := fold_case fl \<or> rune (CHR ''i'') \<in> set fs\<rparr>"

function parse_regexp :: "classes \<Rightarrow> rx_flags \<Rightarrow> nat list \<Rightarrow> rx list result" where
  "parse_regexp cls fl [] = Ok []"
| "parse_regexp cls fl (c # rest) =
     (if c = rune (CHR ''^'') then
        (if multi_line fl then Err (Errorf ''not produced'') else map_sum id ((#) BeginText) (parse_regexp cls fl rest))
      else if c = rune (CHR 0x5C) \<and> take 1 rest = [rune (CHR ''z'')] then
        map_sum id ((#) EndText) (parse_regexp cls fl (drop 1 rest))
      else if c = rune (CHR ''('') \<and> take 1 rest = [rune (CHR ''?'')] then
        (let fs = takeWhile (\<lambda>d. d \<noteq> rune (CHR '')'')) (drop 1 rest)
         in if length rest \<le> length fs + 1 then Err (Errorf ''missing closing )'')
            else parse_regexp cls (set_flags fs fl) (drop (length fs + 2) rest))
      else
        (case parse_atom cls fl c rest of
           Err e \<Rightarrow> Err e
         | Ok (a, rest) \<Rightarrow>
             if take 1 rest = [rune (CHR ''*'')]
             then map_sum id ((#) (Star a)) (parse_regexp cls fl (drop 1 rest))
             else map_sum id ((#) (One a)) (parse_regexp cls fl rest)))"
  by pat_completeness auto
termination
  by (relation "measure (\<lambda>(_, _, s). length s)") (auto dest: parse_atom_shorter)

declare parse_regexp.simps(2) [simp del]

abbreviation no_flags :: rx_flags where
  "no_flags \<equiv> \<lparr>multi_line = False, dot_newline = False, fold_case = False\<rparr>"

definition regexp_Compile :: "classes \<Rightarrow> string \<Rightarrow> rx list result" where
  "regexp_Compile cls expr = parse_regexp cls no_flags (runes expr)"

text \<open>Equality of runes when case is ignored; beyond ASCII by Go's table, the parameter \<open>rf\<close>.\<close>

definition fold_rune :: "(nat \<Rightarrow> nat \<Rightarrow> bool) \<Rightarrow> nat \<Rightarrow> nat \<Rightarrow> bool" where
  "fold_rune rf a b =
     (if a < 0x80 \<and> b < 0x80 then ascii_lower (char_of a) = ascii_lower (char_of b) else rf a b)"

definition atom_matches :: "classes \<Rightarrow> (nat \<Rightarrow> nat \<Rightarrow> bool) \<Rightarrow> rx_atom \<Rightarrow> nat \<Rightarrow> bool" where
  "atom_matches cls rf a r =
     (case a of
        AnyRune \<Rightarrow> True
      | NotNewline \<Rightarrow> r \<noteq> rune (CHR 0x0A)
      | Rune i c \<Rightarrow> if i then fold_rune rf c r else c = r
      | Class i cs \<Rightarrow> (case cls cs of Some (_, P) \<Rightarrow> P i r | None \<Rightarrow> False))"

text \<open>Whether the expression matches at a position: the flag tells whether it is the start of the
  text.\<close>

function match_at :: "classes \<Rightarrow> (nat \<Rightarrow> nat \<Rightarrow> bool) \<Rightarrow> rx list \<Rightarrow> bool \<Rightarrow> nat list \<Rightarrow> bool" where
  "match_at cls rf [] begin s = True"
| "match_at cls rf (BeginText # r) begin s = (begin \<and> match_at cls rf r begin s)"
| "match_at cls rf (EndText # r) begin s = (s = [] \<and> match_at cls rf r begin s)"
| "match_at cls rf (One a # r) begin s =
     (case s of [] \<Rightarrow> False | c # t \<Rightarrow> atom_matches cls rf a c \<and> match_at cls rf r False t)"
| "match_at cls rf (Star a # r) begin s =
     (match_at cls rf r begin s \<or>
      (case s of [] \<Rightarrow> False | c # t \<Rightarrow> atom_matches cls rf a c \<and> match_at cls rf (Star a # r) False t))"
  by pat_completeness auto
termination
  by (relation "measures [\<lambda>(_, _, r, _, _). length r, \<lambda>(_, _, _, _, s). length s]") auto

fun find_match :: "classes \<Rightarrow> (nat \<Rightarrow> nat \<Rightarrow> bool) \<Rightarrow> rx list \<Rightarrow> bool \<Rightarrow> nat list \<Rightarrow> bool" where
  "find_match cls rf r begin [] = match_at cls rf r begin []"
| "find_match cls rf r begin (c # s) = (match_at cls rf r begin (c # s) \<or> find_match cls rf r False s)"

definition MatchString :: "classes \<Rightarrow> (nat \<Rightarrow> nat \<Rightarrow> bool) \<Rightarrow> rx list \<Rightarrow> string \<Rightarrow> bool" where
  "MatchString cls rf r s = find_match cls rf r True (runes s)"

section \<open>Matching of wildcards\<close>

text \<open>A star stands for any runes, a question mark for one, any other rune for itself.\<close>

function wild_match :: "(nat \<Rightarrow> nat \<Rightarrow> bool) \<Rightarrow> nat list \<Rightarrow> nat list \<Rightarrow> bool" where
  "wild_match eq [] s = (s = [])"
| "wild_match eq (p # ps) s =
     (if p = rune (CHR ''*'') then
        wild_match eq ps s \<or> (case s of [] \<Rightarrow> False | _ # t \<Rightarrow> wild_match eq (p # ps) t)
      else (case s of [] \<Rightarrow> False | c # t \<Rightarrow> (p = rune (CHR ''?'') \<or> eq p c) \<and> wild_match eq ps t))"
  by pat_completeness auto
termination
  by (relation "measures [\<lambda>(_, p, _). length p, \<lambda>(_, _, s). length s]") auto

lemma runes_Cons: "ascii c \<Longrightarrow> runes (c # s) = rune c # runes s"
  by (subst runes.simps) (simp add: decode_rune_def ascii_def)

lemma runes_Nil [simp]: "runes [] = []"
  by (simp add: runes.simps)

lemma runes_ascii: "list_all ascii s \<Longrightarrow> runes s = map rune s"
  by (induction s) (simp_all add: runes_Cons)

lemma runes_encode_ascii: "\<forall>r \<in> set rs. r < 0x80 \<Longrightarrow> runes (concat (map encode_rune rs)) = rs"
proof -
  assume rs: "\<forall>r \<in> set rs. r < 0x80"
  then have "concat (map encode_rune rs) = map char_of rs"
    by (induction rs) (auto simp: encode_rune_def Let_def)
  moreover have "list_all ascii (map char_of rs)"
    using rs by (auto simp: list_all_iff ascii_def of_char_of)
  ultimately show ?thesis
    using rs runes_ascii by (auto simp: of_char_of intro!: map_idI)
qed

lemma encode_ascii_list: "list_all ascii s \<Longrightarrow> concat (map encode_rune (map rune s)) = s"
  by (induction s) (simp_all add: encode_ascii ascii_def)

definition token :: "nat \<Rightarrow> rx" where
  "token c =
     (if c = rune (CHR ''*'') then Star AnyRune
      else if c = rune (CHR ''?'') then One AnyRune
      else One (Rune True c))"

definition wild_runes :: "nat list \<Rightarrow> bool" where
  "wild_runes p \<longleftrightarrow> (\<forall>c \<in> set p. c < 0x80 \<and> c \<noteq> rune (CHR ''[''))"

abbreviation glob_flags :: rx_flags where
  "glob_flags \<equiv> \<lparr>multi_line = True, dot_newline = True, fold_case = True\<rparr>"

abbreviation tail_text :: "nat list" where
  "tail_text \<equiv> map rune ([CHR 0x5C] @ ''z(?ms)'')"

lemma translate_ascii: "wild_runes p \<Longrightarrow> \<forall>c \<in> set (translate_loop p). c < 0x80"
  by (induction p) (auto simp: wild_runes_def escape_rune_def split: if_splits)

lemma parse_tail: "parse_regexp cls glob_flags tail_text = Ok [EndText]"
  by (simp add: parse_regexp.simps set_flags_def)

lemma parse_escaped:
  assumes "c < 0x80" and "c \<notin> {rune (CHR ''*''), rune (CHR ''?''), rune (CHR ''['')}" and "take 1 rest \<noteq> [rune (CHR ''*'')]"
  shows "parse_regexp cls glob_flags (escape_rune c @ rest) = map_sum id ((#) (One (Rune True c))) (parse_regexp cls glob_flags rest)"
proof (cases "rune_alnum c")
  case True
  then have "c \<noteq> rune (CHR ''^'')" "c \<noteq> rune (CHR 0x5C)" "c \<noteq> rune (CHR ''('')" "c \<noteq> rune (CHR ''.'')" "c \<noteq> rune (CHR ''['')"
    by (auto simp: rune_alnum_def)
  then show ?thesis
    using True assms(3) by (simp add: escape_rune_def parse_regexp.simps(2) parse_atom_def)
next
  case False
  then have "c \<noteq> rune (CHR ''z'')"
    by (auto simp: rune_alnum_def)
  then show ?thesis
    using False assms(1,3) by (simp add: escape_rune_def parse_regexp.simps(2) parse_atom_def)
qed

lemma translate_first: "take 1 (translate_loop p @ tail_text) \<noteq> [rune (CHR ''*'')]"
proof (cases p)
  case (Cons c q)
  then show ?thesis
    by (auto simp: escape_rune_def rune_alnum_def Let_def split: option.splits)
qed simp

lemma parse_translated:
  "wild_runes p \<Longrightarrow> parse_regexp cls glob_flags (translate_loop p @ tail_text) = Ok (map token p @ [EndText])"
proof (induction p)
  case Nil
  show ?case
    using parse_tail [of cls] by simp
next
  case (Cons c p)
  define T where "T = translate_loop p @ tail_text"
  have IH: "parse_regexp cls glob_flags T = Ok (map token p @ [EndText])"
    using Cons by (simp add: wild_runes_def T_def)
  have first: "take 1 T \<noteq> [rune (CHR ''*'')]"
    unfolding T_def by (rule translate_first)
  consider "c = rune (CHR ''*'')" | "c = rune (CHR ''?'')" | "c \<notin> {rune (CHR ''*''), rune (CHR ''?''), rune (CHR ''['')}"
    using Cons.prems by (auto simp: wild_runes_def)
  then show ?case
  proof cases
    case 1
    then have "translate_loop (c # p) @ tail_text = rune (CHR ''.'') # rune (CHR ''*'') # T"
      by (simp add: T_def)
    moreover have "parse_regexp cls glob_flags (rune (CHR ''.'') # rune (CHR ''*'') # T) = Ok (Star AnyRune # map token p @ [EndText])"
      by (subst parse_regexp.simps(2)) (simp add: parse_atom_def IH)
    moreover have "token c = Star AnyRune"
      using 1 by (simp add: token_def)
    ultimately show ?thesis
      by (simp only: list.map append_Cons)
  next
    case 2
    then have "translate_loop (c # p) @ tail_text = rune (CHR ''.'') # T"
      by (simp add: T_def)
    moreover have "parse_regexp cls glob_flags (rune (CHR ''.'') # T) = Ok (One AnyRune # map token p @ [EndText])"
      using first by (subst parse_regexp.simps(2)) (simp add: parse_atom_def IH)
    moreover have "token c = One AnyRune"
      using 2 by (simp add: token_def)
    ultimately show ?thesis
      by (simp only: list.map append_Cons)
  next
    case 3
    then have "translate_loop (c # p) @ tail_text = escape_rune c @ T"
      by (simp add: T_def)
    moreover have "parse_regexp cls glob_flags (escape_rune c @ T) = Ok (token c # map token p @ [EndText])"
      using 3 parse_escaped [OF _ 3 first, of cls] IH Cons.prems by (simp add: token_def wild_runes_def)
    ultimately show ?thesis
      by (simp only: list.map append_Cons)
  qed
qed

lemma match_tokens:
  "match_at cls rf (map token p @ [EndText]) b s \<longleftrightarrow> wild_match (fold_rune rf) p s"
proof (induction "fold_rune rf" p s arbitrary: b rule: wild_match.induct)
  case (2 p ps s)
  then show ?case
    by (cases s) (auto simp: token_def atom_matches_def)
qed simp

lemma find_anchored: "find_match cls rf (BeginText # r) True s \<longleftrightarrow> match_at cls rf r True s"
proof -
  have "\<not> find_match cls rf (BeginText # r) False t" for t
    by (induction t) simp_all
  then show ?thesis
    by (cases s) simp_all
qed

definition component_regexp :: "string \<Rightarrow> string" where
  "component_regexp path_component = ''^(?msi)'' @ FNmatchTranslate path_component"

lemma compile_component:
  assumes "list_all ascii pat" and "CHR ''['' \<notin> set pat"
  shows "regexp_Compile cls (component_regexp pat) = Ok (BeginText # map token (map rune pat) @ [EndText])"
proof -
  have "rune c \<noteq> rune (CHR ''['')" if "c \<in> set pat" for c
    using assms(2) that by (metis of_char_eq_iff)
  then have wild: "wild_runes (map rune pat)"
    using assms(1) by (auto simp: wild_runes_def list_all_iff ascii_def)
  define t where "t = translate_loop (map rune pat) @ tail_text"
  have "\<forall>r \<in> set t. r < 0x80"
    using translate_ascii [OF wild] by (auto simp: t_def)
  then have "runes (concat (map encode_rune t)) = t"
    by (rule runes_encode_ascii)
  then have "runes (component_regexp pat) = map rune ''^(?msi)'' @ t"
    using assms(1) by (simp add: component_regexp_def FNmatchTranslate_def runes_ascii t_def runes_Cons ascii_def)
  moreover have "parse_regexp cls no_flags (map rune ''^(?msi)'' @ t) = map_sum id ((#) BeginText) (parse_regexp cls glob_flags t)"
    by (simp add: parse_regexp.simps(2) set_flags_def)
  ultimately show ?thesis
    using parse_translated [OF wild, of cls] by (simp add: regexp_Compile_def t_def)
qed

text \<open>C23: Wildcards. A pattern of ASCII characters without brackets is translated to a regular
  expression that Go accepts, and the expression matches exactly the names that the pattern
  matches: a star any runes, a question mark one rune, any other character itself in upper or
  lower case, and the whole name is matched.\<close>

theorem wildcard_correct:
  assumes "list_all ascii pat" and "CHR ''['' \<notin> set pat"
  shows "\<exists>r. regexp_Compile cls (component_regexp pat) = Ok r \<and>
    MatchString cls rf r name = wild_match (fold_rune rf) (runes pat) (runes name)"
  using compile_component [OF assms, of cls] match_tokens [of cls rf "map rune pat"] assms(1)
  by (simp add: MatchString_def find_anchored runes_ascii)

theorem wildcard_correct_witness:
  "\<exists>r. regexp_Compile (\<lambda>_. None) (component_regexp ''*.tx?'') = Ok r \<and> MatchString (\<lambda>_. None) (=) r ''a.b.TXT''"
proof -
  have "\<exists>r. regexp_Compile (\<lambda>_. None) (component_regexp ''*.tx?'') = Ok r \<and>
      MatchString (\<lambda>_. None) (=) r ''a.b.TXT'' = wild_match (fold_rune (=)) (runes ''*.tx?'') (runes ''a.b.TXT'')"
    by (rule wildcard_correct) (simp_all add: ascii_def)
  moreover have "wild_match (fold_rune (=)) (runes ''*.tx?'') (runes ''a.b.TXT'')"
    by (simp add: runes_ascii ascii_def fold_rune_def ascii_lower_def)
  ultimately show ?thesis
    by simp
qed

text \<open>A character beyond ASCII is escaped too, which Go refuses: a pattern with a wildcard and
  such a character has no regular expression.\<close>

lemma non_ascii_wildcard_refused:
  "regexp_Compile cls (component_regexp ([CHR 0xC3, CHR 0xA9] @ ''*'')) = Err (Errorf ''invalid escape sequence'')"
proof -
  have d: "decode2 (CHR 0xC3) (CHR 0xA9) = Some 0xE9"
    by (simp add: decode2_def cont_def)
  have r: "runes (CHR 0xC3 # CHR 0xA9 # s) = 0xE9 # runes s" for s
    by (subst runes.simps) (simp add: decode_rune_def d)
  have e: "encode_rune 0xE9 = [CHR 0xC3, CHR 0xA9]"
    using encode_decode2 [OF d] by simp
  have "FNmatchTranslate ([CHR 0xC3, CHR 0xA9] @ ''*'') = concat (map encode_rune (map rune [CHR 0x5C] @ [0xE9] @ map rune (''.*'' @ [CHR 0x5C] @ ''z(?ms)'')))"
    by (simp add: FNmatchTranslate_def r runes_Cons ascii_def escape_rune_def rune_alnum_def)
  also have "\<dots> = [CHR 0x5C, CHR 0xC3, CHR 0xA9] @ ''.*'' @ [CHR 0x5C] @ ''z(?ms)''"
    using encode_ascii_list [of "[CHR 0x5C]"] encode_ascii_list [of "''.*'' @ [CHR 0x5C] @ ''z(?ms)''"] e
    by (simp add: ascii_def del: list.map(2)) simp
  finally have "runes (component_regexp ([CHR 0xC3, CHR 0xA9] @ ''*'')) =
      map rune (''^(?msi)'' @ [CHR 0x5C]) @ 0xE9 # map rune (''.*'' @ [CHR 0x5C] @ ''z(?ms)'')"
    by (simp add: component_regexp_def r runes_Cons ascii_def)
  then show ?thesis
    by (simp add: regexp_Compile_def parse_regexp.simps(2) set_flags_def parse_atom_def)
qed

end
