(* ===== verification/Globs.thy ===== *)
theory Globs
  imports Braces Fnmatch OS_Paths "HOL-Library.AList" "HOL-Library.List_Lexorder" "HOL-Library.Char_ord"
begin

text \<open>
  The globber, \<^verbatim>\<open>glob/glob.go\<close> and \<^verbatim>\<open>glob/fileinfo.go\<close>: glob expressions are added to a tree of
  filters, and expanding the tree below a directory reports the files that match. The file
  system is an accessor, a parameter; cancellation of a running expansion, the tracker and
  metrics are left out. Go visits the entries of a map in any order; the model keeps them in
  the order of insertion, and the theorems are about the set of hits.
\<close>

section \<open>Filters\<close>

text \<open>Tables of Go's library: equality of strings and runes beyond ASCII when case is ignored, and
  character classes.\<close>

record Tables =
  fold_string :: "string \<Rightarrow> string \<Rightarrow> bool"
  fold_runes :: "nat \<Rightarrow> nat \<Rightarrow> bool"
  char_classes :: classes

text \<open>A regular expression is compared by its address in the code; here the number counts the
  expressions compiled.\<close>

datatype filterer =
    RecursiveComponent string nat
  | RegexComponent nat string "rx list"
  | LiteralComponent string

record FileInfo =
  Name :: string
  UniqueName :: string
  IsDir :: bool
  IsLink :: bool
  GetLink :: "string list option"
  Dev :: "u64 option"

fun filter_Match :: "Tables \<Rightarrow> filterer \<Rightarrow> FileInfo \<Rightarrow> bool" where
  "filter_Match t (RecursiveComponent path depth) f = False"
| "filter_Match t (RegexComponent n re compiled) f = MatchString (char_classes t) (fold_runes t) compiled (Name f)"
| "filter_Match t (LiteralComponent path) f = EqualFold (fold_string t) path (Name f)"

definition digit :: "char \<Rightarrow> bool" where
  "digit c \<longleftrightarrow> 48 \<le> byte c \<and> byte c \<le> 57"

definition Atoi :: "string \<Rightarrow> nat result" where
  "Atoi ds =
     (let n = foldl (\<lambda>n c. 10 * n + (byte c - 48)) 0 ds
      in if n < 2 ^ 63 then Ok n else Err (Errorf ''value out of range''))"

text \<open>The loop of \<^verbatim>\<open>convert_glob_into_path_components\<close>.\<close>

fun convert_loop :: "Tables \<Rightarrow> string list \<Rightarrow> nat \<Rightarrow> (filterer list \<times> nat) result" where
  "convert_loop t [] n = Ok ([], n)"
| "convert_loop t (path_component # rest) n =
     (if length path_component = 0 then convert_loop t rest n
      else if has_prefix path_component ''**'' then
        (let ds = takeWhile digit (drop 2 path_component)
         in case (if ds = [] then Ok 30 else Atoi ds) of
              Err e \<Rightarrow> Err e
            | Ok depth \<Rightarrow>
                (let path = FNmatchTranslate (''*'' @ drop (2 + length ds) path_component)
                 in map_sum id (map_prod ((#) (RecursiveComponent path depth)) id) (convert_loop t rest n)))
      else if list_ex (\<lambda>c. c \<in> set ''*?['') path_component then
        (case regexp_Compile (char_classes t) (component_regexp path_component) of
           Err e \<Rightarrow> Err (Errorf ''While compiling component'')
         | Ok compiled \<Rightarrow>
             map_sum id (map_prod ((#) (RegexComponent n (FNmatchTranslate path_component) compiled)) id)
               (convert_loop t rest (n + 1)))
      else map_sum id (map_prod ((#) (LiteralComponent path_component)) id) (convert_loop t rest n))"

definition convert_glob_into_path_components :: "Tables \<Rightarrow> OSPath \<Rightarrow> nat \<Rightarrow> (filterer list \<times> nat) result" where
  "convert_glob_into_path_components t pattern n = convert_loop t (Components pattern) n"

section \<open>The tree of filters\<close>

datatype Globber = Globber (sentinel: "string list option") (filters: "(filterer \<times> Globber) list")

abbreviation newGlobber :: Globber where
  "newGlobber \<equiv> Globber None []"

definition is_sentinel :: "Globber \<Rightarrow> bool" where
  "is_sentinel self \<longleftrightarrow> sentinel self \<noteq> None"

fun add_filter :: "filterer list \<Rightarrow> string list \<Rightarrow> Globber \<Rightarrow> Globber" where
  "add_filter [] globs (Globber s fs) =
     Globber (Some ((case s of None \<Rightarrow> [] | Some g \<Rightarrow> g) @ globs)) fs"
| "add_filter (element # components) globs (Globber s fs) =
     (let next = (case map_of fs element of Some next \<Rightarrow> next | None \<Rightarrow> newGlobber)
      in Globber s (AList.update element (add_filter components globs next) fs))"

text \<open>The expression that a recursive component is replaced by.\<close>

definition star_component :: "Tables \<Rightarrow> nat \<Rightarrow> filterer" where
  "star_component t n =
     (let re = FNmatchTranslate ''*''
      in RegexComponent n re (case regexp_Compile (char_classes t) re of Ok r \<Rightarrow> r | Err _ \<Rightarrow> []))"

fun split_recursive :: "filterer list \<Rightarrow> (filterer list \<times> nat \<times> filterer list) option" where
  "split_recursive [] = None"
| "split_recursive (RecursiveComponent path depth # right) = Some ([], depth, right)"
| "split_recursive (item # rest) = map_option (\<lambda>(left, depth, right). (item # left, depth, right)) (split_recursive rest)"

definition recursive :: "filterer \<Rightarrow> bool" where
  "recursive f \<longleftrightarrow> (case f of RecursiveComponent _ _ \<Rightarrow> True | _ \<Rightarrow> False)"

definition recursions :: "filterer list \<Rightarrow> nat" where
  "recursions fs = length (filter recursive fs)"

lemma split_recursive_Some:
  "split_recursive fs = Some (left, depth, right) \<Longrightarrow>
    (\<exists>path. fs = left @ RecursiveComponent path depth # right) \<and> list_all (\<lambda>f. \<not> recursive f) left"
  by (induction fs arbitrary: left rule: split_recursive.induct) (auto simp: recursive_def)

lemma split_recursive_None: "split_recursive fs = None \<longleftrightarrow> list_all (\<lambda>f. \<not> recursive f) fs"
  by (induction fs rule: split_recursive.induct) (auto simp: recursive_def)

text \<open>\<^verbatim>\<open>_expand_path_components\<close> and its loop: \<open>k\<close> turns remain, \<open>middle\<close> is what the recursive component
  stands for in this one.\<close>

function (sequential) expand_path_components :: "Tables \<Rightarrow> filterer list \<Rightarrow> string list \<Rightarrow> Globber \<times> nat \<Rightarrow> Globber \<times> nat"
  and expand_loop :: "Tables \<Rightarrow> nat \<Rightarrow> filterer list \<Rightarrow> filterer list \<Rightarrow> filterer list \<Rightarrow> string list \<Rightarrow> Globber \<times> nat \<Rightarrow> Globber \<times> nat" where
  "expand_path_components t fs globs st =
     (case split_recursive fs of
        None \<Rightarrow> map_prod (add_filter fs globs) id st
      | Some (left, depth, right) \<Rightarrow> expand_loop t (depth + 1) left [] right globs st)"
| "expand_loop t 0 left middle right globs st = st"
| "expand_loop t (Suc k) left middle right globs st =
     (let st = (if length middle = 0 \<and> length right > 0 \<or> length middle > 0
                then expand_path_components t (left @ middle @ right) globs st else st)
      in expand_loop t k left (middle @ [star_component t (snd st)]) right globs (map_prod id Suc st))"
  by pat_completeness auto
termination
  by (relation "measures
      [\<lambda>x. case x of Inl (_, fs, _, _) \<Rightarrow> recursions fs | Inr (_, _, l, m, r, _, _) \<Rightarrow> recursions (l @ m @ r),
       \<lambda>x. case x of Inl _ \<Rightarrow> 0 | Inr (_, k, _) \<Rightarrow> Suc k]")
    (auto simp: recursions_def recursive_def star_component_def Let_def dest!: split_recursive_Some)

definition add_pathspec ::
  "Tables \<Rightarrow> (PathSpec \<Rightarrow> string) \<Rightarrow> (string \<Rightarrow> string \<Rightarrow> string \<Rightarrow> string) \<Rightarrow> OSPath \<Rightarrow> Globber \<times> nat \<Rightarrow> (Globber \<times> nat) \<times> go_error option" where
  "add_pathspec t js us pattern st =
     (case convert_glob_into_path_components t pattern (snd st) of
        Err e \<Rightarrow> (st, Some e)
      | Ok (fs, n) \<Rightarrow>
          (case OS_String js us pattern of
             Err e \<Rightarrow> (st, Some e)
           | Ok (_, s) \<Rightarrow> (expand_path_components t fs [s] (fst st, n), None)))"

fun add_loop ::
  "Tables \<Rightarrow> (PathSpec \<Rightarrow> string) \<Rightarrow> (string \<Rightarrow> string \<Rightarrow> string \<Rightarrow> string) \<Rightarrow> (string \<Rightarrow> OSPath result) \<Rightarrow> string list \<Rightarrow> Globber \<times> nat \<Rightarrow>
   (Globber \<times> nat) \<times> go_error option" where
  "add_loop t js us parse [] st = (st, None)"
| "add_loop t js us parse (g # gs) st =
     (case parse g of
        Err e \<Rightarrow> (st, Some e)
      | Ok ps \<Rightarrow>
          (case add_pathspec t js us ps st of
             (st, Some e) \<Rightarrow> (st, Some e)
           | (st, None) \<Rightarrow> add_loop t js us parse gs st))"

definition AddGlob ::
  "Tables \<Rightarrow> (PathSpec \<Rightarrow> string) \<Rightarrow> (string \<Rightarrow> string \<Rightarrow> string \<Rightarrow> string) \<Rightarrow> (string \<Rightarrow> OSPath result) \<Rightarrow> string \<Rightarrow> Globber \<times> nat \<Rightarrow>
   (Globber \<times> nat) \<times> go_error option" where
  "AddGlob t js us parse glob st =
     (case ExpandBraces glob of Err e \<Rightarrow> (st, Some e) | Ok new_globs \<Rightarrow> add_loop t js us parse new_globs st)"

section \<open>Expansion over a file system\<close>

record Accessor =
  ReadDirWithOSPath :: "string list \<Rightarrow> FileInfo list result"
  LstatWithOSPath :: "string list \<Rightarrow> FileInfo result"

record GlobOptions =
  DoNotFollowSymlinks :: bool
  OneFilesystem :: bool
  RecursionCallback :: "(FileInfo \<Rightarrow> bool) option"

text \<open>The options are given to the globber before any glob is added, so all nodes of the tree have
  the same.\<close>

function is_dir_or_link :: "GlobOptions \<Rightarrow> Accessor \<Rightarrow> FileInfo \<Rightarrow> nat \<Rightarrow> bool" where
  "is_dir_or_link options accessor f depth =
     (if depth > 10 then False
      else if (case RecursionCallback options of None \<Rightarrow> False | Some cb \<Rightarrow> \<not> cb f) then False
      else if IsLink f \<and> DoNotFollowSymlinks options then False
      else
        (case (if IsLink f then GetLink f else None) of
           None \<Rightarrow> IsDir f
         | Some target \<Rightarrow>
             (case LstatWithOSPath accessor target of
                Err _ \<Rightarrow> True
              | Ok target_info \<Rightarrow>
                  if OneFilesystem options \<and> Dev f \<noteq> None \<and> Dev target_info \<noteq> None \<and> Dev f \<noteq> Dev target_info then False
                  else is_dir_or_link options accessor target_info (depth + 1))))"
  by pat_completeness auto
termination
  by (relation "measure (\<lambda>(_, _, _, depth). 11 - depth)") auto

declare is_dir_or_link.simps [simp del]

record GlobHit =
  hit_info :: FileInfo
  hit_path :: "string list"
  globs :: "string list"

definition Globs :: "GlobHit \<Rightarrow> string list" where
  "Globs self = dedup_loop [] (globs self)"

type_synonym dirHits = "(string \<times> GlobHit) list"

definition mergeHit :: "string \<Rightarrow> GlobHit \<Rightarrow> dirHits \<Rightarrow> dirHits" where
  "mergeHit basename hit hits =
     (case map_of hits basename of
        None \<Rightarrow> hits @ [(basename, hit)]
      | Some existing \<Rightarrow> AList.update basename (existing\<lparr>globs := globs existing @ globs hit\<rparr>) hits)"

definition getHits :: "dirHits \<Rightarrow> GlobHit list" where
  "getHits hits = sort_key (\<lambda>h. Name (hit_info h)) (map snd hits)"

definition getHit :: "string list \<Rightarrow> FileInfo \<Rightarrow> Globber \<Rightarrow> GlobHit" where
  "getHit root f self =
     \<lparr>hit_info = f, hit_path = root @ [Name f], globs = (case sentinel self of Some g \<Rightarrow> g | None \<Rightarrow> [])\<rparr>"

definition add_child :: "string \<Rightarrow> Globber \<Rightarrow> (string \<times> Globber list) list \<Rightarrow> (string \<times> Globber list) list" where
  "add_child basename next children =
     (case map_of children basename of
        None \<Rightarrow> AList.update basename [next] children
      | Some prev_item \<Rightarrow> AList.update basename (prev_item @ [next]) children)"

text \<open>The files of a directory with the filters that match them, in the order of the loops, and what
  the loops make of them: the hits of this directory and the directories to visit.\<close>

definition matched :: "Tables \<Rightarrow> FileInfo list \<Rightarrow> (filterer \<times> Globber) list \<Rightarrow> (FileInfo \<times> Globber) list" where
  "matched t files fs =
     concat (map (\<lambda>f. map (\<lambda>(_, next). (f, next)) (filter (\<lambda>(filterer, _). filter_Match t filterer f) fs)) files)"

definition dir_hits :: "string list \<Rightarrow> (FileInfo \<times> Globber) list \<Rightarrow> dirHits" where
  "dir_hits root ms =
     fold (\<lambda>(f, next) hits. if is_sentinel next then mergeHit (UniqueName f) (getHit root f next) hits else hits) ms []"

definition dir_children :: "(FileInfo \<Rightarrow> bool) \<Rightarrow> (FileInfo \<times> Globber) list \<Rightarrow> (string \<times> Globber list) list" where
  "dir_children descend ms = fold (\<lambda>(f, next) children. if descend f then add_child (Name f) next children else children) ms []"

lemma set_update_subset: "set (AList.update k v xs) \<subseteq> insert (k, v) (set xs)"
  by (induction xs) auto

lemma add_child_subset:
  assumes "(name, nexts) \<in> set (add_child b n ch)" and "\<And>name nexts. (name, nexts) \<in> set ch \<Longrightarrow> set nexts \<subseteq> A"
  shows "set nexts \<subseteq> insert n A"
proof (cases "map_of ch b")
  case None
  then have "(name, nexts) \<in> insert (b, [n]) (set ch)"
    using assms(1) subsetD [OF set_update_subset] unfolding add_child_def by fastforce
  then show ?thesis
    using assms(2) by auto
next
  case (Some p)
  then have "(name, nexts) \<in> insert (b, p @ [n]) (set ch)"
    using assms(1) subsetD [OF set_update_subset] unfolding add_child_def by fastforce
  moreover have "set p \<subseteq> A"
    using assms(2) map_of_SomeD [OF Some] by blast
  ultimately show ?thesis
    using assms(2) by auto
qed

lemma dir_children_subset: "(name, nexts) \<in> set (dir_children descend ms) \<Longrightarrow> set nexts \<subseteq> snd ` set ms"
proof -
  have "set nexts \<subseteq> snd ` set ms \<union> A"
    if "(name, nexts) \<in> set (fold (\<lambda>(f, next) children. if descend f then add_child (Name f) next children else children) ms acc)"
      "\<And>name nexts. (name, nexts) \<in> set acc \<Longrightarrow> set nexts \<subseteq> A" for acc A
    using that
  proof (induction ms arbitrary: acc A)
    case (Cons m ms)
    obtain f n where m: "m = (f, n)"
      by (rule prod.exhaust)
    have "set nexts \<subseteq> snd ` set ms \<union> insert n A"
      using Cons.prems(1)
      by (intro Cons.IH [of "if descend f then add_child (Name f) n acc else acc"])
        (auto simp: m split: if_splits dest: Cons.prems(2) add_child_subset [OF _ Cons.prems(2)])
    then show ?case
      by (auto simp: m)
  qed auto
  from this [of "[]" "{}"] show "(name, nexts) \<in> set (dir_children descend ms) \<Longrightarrow> set nexts \<subseteq> snd ` set ms"
    by (auto simp: dir_children_def)
qed

lemma matched_subset: "(f, next) \<in> set (matched t files fs) \<Longrightarrow> next \<in> snd ` set fs"
  by (force simp: matched_def)

lemma child_smaller:
  assumes "(name, nexts) \<in> set (dir_children descend (matched t files (filters g)))" and "n \<in> set nexts"
  shows "size n < size g"
proof -
  obtain k where k: "(k, n) \<in> set (filters g)"
    using dir_children_subset [OF assms(1)] assms(2) matched_subset by fastforce
  then show ?thesis
    by (cases g) (auto dest: size_list_estimation' [OF _ order.refl, of _ _ "size_prod (\<lambda>_. 0) size"])
qed

function ExpandWithContext :: "Tables \<Rightarrow> GlobOptions \<Rightarrow> Accessor \<Rightarrow> Globber \<Rightarrow> string list \<Rightarrow> GlobHit list" where
  "ExpandWithContext t options accessor self root =
     (if length (filters self) = 0 then []
      else
        (case ReadDirWithOSPath accessor root of
           Err _ \<Rightarrow> []
         | Ok files \<Rightarrow>
             (let ms = matched t files (filters self)
              in getHits (dir_hits root ms) @
                 concat (map (\<lambda>(name, nexts). concat (map (\<lambda>next. ExpandWithContext t options accessor next (root @ [name])) nexts))
                   (dir_children (\<lambda>f. is_dir_or_link options accessor f 0) ms)))))"
  by pat_completeness auto
termination
  by (relation "measure (\<lambda>(_, _, _, g, _). size g)") (auto intro: child_smaller)

declare ExpandWithContext.simps [simp del]

section \<open>What the tree reports\<close>

text \<open>The filters on the way from the root of the tree to a node that reports a glob.\<close>

fun leads :: "Globber \<Rightarrow> filterer list \<Rightarrow> string \<Rightarrow> bool" where
  "leads g [] x \<longleftrightarrow> (\<exists>gs. sentinel g = Some gs \<and> x \<in> set gs)"
| "leads g (k # ks) x \<longleftrightarrow> (\<exists>n. map_of (filters g) k = Some n \<and> leads n ks x)"

fun tree_ok :: "Globber \<Rightarrow> bool" where
  "tree_ok (Globber s fs) \<longleftrightarrow> distinct (map fst fs) \<and> (\<forall>n \<in> set fs. tree_ok (snd n))"

lemma leads_new [simp]: "\<not> leads newGlobber ks x"
  by (cases ks) simp_all

lemma add_filter_ok: "tree_ok g \<Longrightarrow> tree_ok (add_filter es gl g)"
proof (induction es gl g rule: add_filter.induct)
  case (2 e es gl s fs)
  define n where "n = (case map_of fs e of Some n \<Rightarrow> n | None \<Rightarrow> newGlobber)"
  have "tree_ok n"
    using "2.prems" by (auto simp: n_def split: option.splits dest!: map_of_SomeD)
  then have "tree_ok (add_filter es gl n)"
    using "2.IH" n_def by simp
  then show ?case
    using "2.prems" subsetD [OF set_update_subset [of e "add_filter es gl n" fs]] distinct_update [of fs e]
    by (fastforce simp: Let_def simp flip: n_def)
qed simp

lemma leads_add_filter: "leads (add_filter es gl g) ks x \<longleftrightarrow> leads g ks x \<or> ks = es \<and> x \<in> set gl"
proof (induction es gl g arbitrary: ks rule: add_filter.induct)
  case (1 gl s fs)
  then show ?case
    by (cases ks) (auto split: option.splits)
next
  case (2 e es gl s fs)
  define n where "n = (case map_of fs e of Some n \<Rightarrow> n | None \<Rightarrow> newGlobber)"
  have IH: "leads (add_filter es gl n) ks x \<longleftrightarrow> leads n ks x \<or> ks = es \<and> x \<in> set gl" for ks
    using 2 n_def by simp
  have n: "leads n ks x \<longleftrightarrow> leads (Globber s fs) (e # ks) x" for ks
    by (auto simp: n_def split: option.splits)
  show ?case
  proof (cases ks)
    case (Cons k ks')
    then show ?thesis
      using IH [of ks'] n [of ks'] by (cases "k = e") (auto simp: Let_def update_conv' simp flip: n_def)
  qed (simp add: Let_def)
qed

text \<open>Without the numbers of the regular expressions.\<close>

fun unnumbered :: "filterer \<Rightarrow> filterer" where
  "unnumbered (RegexComponent n re r) = RegexComponent 0 re r"
| "unnumbered f = f"

lemma unnumbered_Match [simp]: "filter_Match t (unnumbered f) i = filter_Match t f i"
  by (cases f) simp_all

definition routes :: "Globber \<Rightarrow> string \<Rightarrow> filterer list set" where
  "routes g x = {map unnumbered ks | ks. leads g ks x}"

lemma routes_add_filter:
  "routes (add_filter es gl g) x = routes g x \<union> (if x \<in> set gl then {map unnumbered es} else {})"
  by (auto simp: routes_def leads_add_filter)

text \<open>What a pattern with recursive components stands for: such a component is any number of
  components up to its depth that match any name, but not none at the end of the pattern.\<close>

fun alternatives :: "Tables \<Rightarrow> filterer list \<Rightarrow> filterer list set" where
  "alternatives t [] = {[]}"
| "alternatives t (RecursiveComponent path depth # right) =
     {replicate i (star_component t 0) @ r | i r. i \<le> depth \<and> (i = 0 \<longrightarrow> right \<noteq> []) \<and> r \<in> alternatives t right}"
| "alternatives t (f # right) = (\<lambda>r. unnumbered f # r) ` alternatives t right"

lemma alternatives_plain:
  "list_all (\<lambda>f. \<not> recursive f) left \<Longrightarrow> alternatives t (left @ right) = (\<lambda>r. map unnumbered left @ r) ` alternatives t right"
  by (induction left) (auto simp: recursive_def image_image split: filterer.splits)

lemma unnumbered_star [simp]: "unnumbered (star_component t n) = star_component t 0" "\<not> recursive (star_component t n)"
  by (simp_all add: star_component_def recursive_def Let_def)

text \<open>The alternatives in which the first recursive component stands for \<open>i\<close> components.\<close>

definition star_routes :: "Tables \<Rightarrow> filterer list \<Rightarrow> filterer list \<Rightarrow> nat set \<Rightarrow> filterer list set" where
  "star_routes t left right I =
     {map unnumbered left @ replicate i (star_component t 0) @ r | i r. i \<in> I \<and> (i = 0 \<longrightarrow> right \<noteq> []) \<and> r \<in> alternatives t right}"

lemma star_routes_Un: "star_routes t left right (I \<union> J) = star_routes t left right I \<union> star_routes t left right J"
  unfolding star_routes_def by blast

lemma alternatives_recursive:
  "list_all (\<lambda>f. \<not> recursive f) left \<Longrightarrow>
    alternatives t (left @ RecursiveComponent path depth # right) = star_routes t left right {..depth}"
  unfolding star_routes_def by (simp only: alternatives_plain alternatives.simps atMost_iff) blast

lemma alternatives_stars:
  assumes "list_all (\<lambda>f. \<not> recursive f) left" and "middle = map (star_component t) ns" and "ns = [] \<longrightarrow> right \<noteq> []"
  shows "alternatives t (left @ middle @ right) = star_routes t left right {length ns}"
proof -
  have "list_all (\<lambda>f. \<not> recursive f) (left @ middle)"
    using assms(1,2) by (auto simp: list_all_iff)
  moreover have "map unnumbered middle = replicate (length ns) (star_component t 0)"
    using assms(2) by (simp add: comp_def map_replicate_const)
  ultimately show ?thesis
    using alternatives_plain [of "left @ middle" t right] assms(3) unfolding star_routes_def by auto
qed

lemma expand_routes:
  "routes (fst (expand_path_components t fs gl st)) x = routes (fst st) x \<union> (if x \<in> set gl then alternatives t fs else {})"
  "list_all (\<lambda>f. \<not> recursive f) left \<Longrightarrow> middle = map (star_component t) ns \<Longrightarrow>
   routes (fst (expand_loop t k left middle right gl st)) x =
     routes (fst st) x \<union> (if x \<in> set gl then star_routes t left right {length ns ..< length ns + k} else {})"
proof (induction t fs gl st and t k left middle right gl st arbitrary: and ns
    rule: expand_path_components_expand_loop.induct)
  case (1 t fs gl st)
  show ?case
  proof (cases "split_recursive fs")
    case None
    then have "alternatives t fs = {map unnumbered fs}"
      using alternatives_plain [of fs t "[]"] by (simp add: split_recursive_None)
    then show ?thesis
      using None by (simp add: routes_add_filter)
  next
    case (Some s)
    obtain left depth right where s: "s = (left, depth, right)"
      using prod_cases3 by blast
    obtain path where fs: "fs = left @ RecursiveComponent path depth # right" and plain: "list_all (\<lambda>f. \<not> recursive f) left"
      using split_recursive_Some Some s by blast
    have "{0 ..< depth + 1} = {..depth}"
      by auto
    then show ?thesis
      using 1 [OF Some s [symmetric] refl plain, of "[]"] Some s alternatives_recursive [OF plain, of t path depth right] fs
      by (simp only: expand_path_components.simps option.case prod.case list.map list.size add_0)
  qed
next
  case (3 t k left middle right gl st)
  define st' where "st' = (if length middle = 0 \<and> length right > 0 \<or> length middle > 0
                then expand_path_components t (left @ middle @ right) gl st else st)"
  have m: "middle = map (star_component t) ns" "length middle = length ns"
    using "3.prems"(2) by simp_all
  have "routes (fst st') x = routes (fst st) x \<union> (if x \<in> set gl then star_routes t left right {length ns} else {})"
  proof (cases "ns = [] \<and> right = []")
    case True
    then show ?thesis
      by (simp add: st'_def m star_routes_def)
  next
    case False
    then show ?thesis
      using 3(1) alternatives_stars [OF "3.prems"] m(2) by (simp only: st'_def length_0_conv length_greater_0_conv) auto
  qed
  moreover have "routes (fst (expand_loop t k left (middle @ [star_component t (snd st')]) right gl (map_prod id Suc st'))) x =
      routes (fst st') x \<union> (if x \<in> set gl then star_routes t left right {length ns + 1 ..< length ns + 1 + k} else {})"
    using 3(2) [OF st'_def, of "ns @ [snd st']"] "3.prems"(1) m(1) by simp
  moreover have "expand_loop t (Suc k) left middle right gl st =
      expand_loop t k left (middle @ [star_component t (snd st')]) right gl (map_prod id Suc st')"
    by (simp only: expand_loop.simps Let_def st'_def)
  moreover have "{length ns ..< length ns + Suc k} = {length ns} \<union> {length ns + 1 ..< length ns + 1 + k}"
    by auto
  ultimately show ?case
    by (simp only: star_routes_Un) auto
qed (auto simp: star_routes_def)

lemma expand_tree_ok:
  "tree_ok (fst st) \<Longrightarrow> tree_ok (fst (expand_path_components t fs gl st))"
  "tree_ok (fst st) \<Longrightarrow> tree_ok (fst (expand_loop t k left middle right gl st))"
proof (induction t fs gl st and t k left middle right gl st rule: expand_path_components_expand_loop.induct)
  case (1 t fs gl st)
  then show ?case
    by (cases "split_recursive fs") (auto simp: add_filter_ok)
next
  case (3 t k left middle right gl st)
  then show ?case
    by (simp add: Let_def)
qed simp

section \<open>Hits\<close>

text \<open>A path below a directory that a list of filters matches: every component is a file of the
  directory so far, matched by its filter, and all but the last are directories.\<close>

fun walk :: "Tables \<Rightarrow> GlobOptions \<Rightarrow> Accessor \<Rightarrow> string list \<Rightarrow> filterer list \<Rightarrow> string list \<Rightarrow> bool" where
  "walk t options accessor root (f # fs) (c # cs) \<longleftrightarrow>
     (\<exists>files info. ReadDirWithOSPath accessor root = Ok files \<and> info \<in> set files \<and> Name info = c \<and> filter_Match t f info \<and>
        (if fs = [] then cs = [] else is_dir_or_link options accessor info 0 \<and> walk t options accessor (root @ [c]) fs cs))"
| "walk t options accessor root _ _ \<longleftrightarrow> False"

lemma walk_unnumbered: "walk t options accessor root (map unnumbered ks) cs = walk t options accessor root ks cs"
  by (induction t options accessor root ks cs rule: walk.induct) simp_all

text \<open>Files of a directory that have the same unique name have the same name.\<close>

definition unique_names :: "Accessor \<Rightarrow> bool" where
  "unique_names accessor \<longleftrightarrow>
     (\<forall>root files f g. ReadDirWithOSPath accessor root = Ok files \<longrightarrow> f \<in> set files \<longrightarrow> g \<in> set files \<longrightarrow>
        UniqueName f = UniqueName g \<longrightarrow> Name f = Name g)"

definition reports :: "GlobHit set \<Rightarrow> string list \<Rightarrow> string \<Rightarrow> bool" where
  "reports H p x \<longleftrightarrow> (\<exists>h \<in> H. hit_path h = p \<and> x \<in> set (globs h))"

lemma reports_Un [simp]: "reports (A \<union> B) p x \<longleftrightarrow> reports A p x \<or> reports B p x" "\<not> reports {} p x"
  by (auto simp: reports_def)

lemma reports_UN: "reports (\<Union>i \<in> I. H i) p x \<longleftrightarrow> (\<exists>i \<in> I. reports (H i) p x)"
  by (auto simp: reports_def)

definition hits_ok :: "(FileInfo \<times> Globber) set \<Rightarrow> string list \<Rightarrow> dirHits \<Rightarrow> bool" where
  "hits_ok M root hits \<longleftrightarrow> distinct (map fst hits) \<and>
     (\<forall>(u, h) \<in> set hits. \<exists>(f, n) \<in> M. UniqueName f = u \<and> hit_path h = root @ [Name f])"

lemma alist_split: "map_of xs k = Some v \<Longrightarrow> \<exists>as bs. xs = as @ (k, v) # bs \<and> k \<notin> fst ` set as"
proof (induction xs)
  case (Cons x xs)
  show ?case
  proof (cases "fst x = k")
    case True
    then show ?thesis
      using Cons.prems by (intro exI [of _ "[]"] exI [of _ xs]) (cases x, simp)
  next
    case False
    then obtain as bs where "xs = as @ (k, v) # bs" "k \<notin> fst ` set as"
      using Cons by auto
    then show ?thesis
      using False by (intro exI [of _ "x # as"] exI [of _ bs]) simp
  qed
qed simp

lemma update_split: "k \<notin> fst ` set as \<Longrightarrow> AList.update k v (as @ (k, w) # bs) = as @ (k, v) # bs"
  by (induction as) auto

lemma update_new: "k \<notin> fst ` set xs \<Longrightarrow> AList.update k v xs = xs @ [(k, v)]"
  by (induction xs) auto

lemma mergeHit_step:
  assumes "hits_ok M root hits" and "(f, n) \<in> M" and "\<forall>(f, n) \<in> M. \<forall>(g, m) \<in> M. UniqueName f = UniqueName g \<longrightarrow> Name f = Name g"
  shows "hits_ok M root (mergeHit (UniqueName f) (getHit root f n) hits)"
    and "reports (snd ` set (mergeHit (UniqueName f) (getHit root f n) hits)) p x \<longleftrightarrow>
      reports (snd ` set hits) p x \<or> p = root @ [Name f] \<and> x \<in> set (globs (getHit root f n))"
proof -
  define h where "h = getHit root f n"
  have h: "hit_path h = root @ [Name f]"
    by (simp add: h_def getHit_def)
  have "hits_ok M root (mergeHit (UniqueName f) h hits) \<and>
      (reports (snd ` set (mergeHit (UniqueName f) h hits)) p x \<longleftrightarrow>
       reports (snd ` set hits) p x \<or> p = root @ [Name f] \<and> x \<in> set (globs h))"
  proof (cases "map_of hits (UniqueName f)")
    case None
    have "mergeHit (UniqueName f) h hits = hits @ [(UniqueName f, h)]"
      using None by (simp add: mergeHit_def)
    moreover have "UniqueName f \<notin> set (map fst hits)"
      using None by (simp add: map_of_eq_None_iff)
    ultimately show ?thesis
      using assms(1,2) h by (auto simp: hits_ok_def reports_def)
  next
    case (Some e)
    then obtain as bs where hits: "hits = as @ (UniqueName f, e) # bs" and notin: "UniqueName f \<notin> fst ` set as"
      using alist_split by metis
    have merged: "mergeHit (UniqueName f) h hits = as @ (UniqueName f, e\<lparr>globs := globs e @ globs h\<rparr>) # bs"
      using Some update_split [OF notin] by (simp add: mergeHit_def hits)
    have "\<exists>(g, m) \<in> M. UniqueName g = UniqueName f \<and> hit_path e = root @ [Name g]"
      using assms(1) by (auto simp: hits_ok_def hits)
    then have "hit_path e = root @ [Name f]"
      using assms(2,3) by fastforce
    then show ?thesis
      using assms(1) unfolding merged by (auto simp: hits_ok_def reports_def hits)
  qed
  then show "hits_ok M root (mergeHit (UniqueName f) (getHit root f n) hits)"
    "reports (snd ` set (mergeHit (UniqueName f) (getHit root f n) hits)) p x \<longleftrightarrow>
      reports (snd ` set hits) p x \<or> p = root @ [Name f] \<and> x \<in> set (globs (getHit root f n))"
    by (simp_all add: h_def)
qed

lemma dir_hits_reports:
  assumes "\<forall>(f, n) \<in> set ms. \<forall>(g, m) \<in> set ms. UniqueName f = UniqueName g \<longrightarrow> Name f = Name g"
  shows "reports (snd ` set (dir_hits root ms)) p x \<longleftrightarrow>
    (\<exists>(f, n) \<in> set ms. p = root @ [Name f] \<and> leads n [] x)"
proof -
  define step where "step = (\<lambda>(f, next) hits. if is_sentinel next then mergeHit (UniqueName f) (getHit root f next) hits else hits)"
  have "hits_ok (set ms) root (fold step xs acc) \<and>
      (reports (snd ` set (fold step xs acc)) p x \<longleftrightarrow>
       reports (snd ` set acc) p x \<or> (\<exists>(f, n) \<in> set xs. p = root @ [Name f] \<and> leads n [] x))"
    if "set xs \<subseteq> set ms" "hits_ok (set ms) root acc" for xs acc
    using that
  proof (induction xs arbitrary: acc)
    case (Cons y xs)
    obtain f n where y: "y = (f, n)"
      by (rule prod.exhaust)
    have "hits_ok (set ms) root (step y acc) \<and>
        (reports (snd ` set (step y acc)) p x \<longleftrightarrow> reports (snd ` set acc) p x \<or> p = root @ [Name f] \<and> leads n [] x)"
    proof (cases "is_sentinel n")
      case True
      have fn: "(f, n) \<in> set ms"
        using Cons.prems(1) y by simp
      show ?thesis
        using mergeHit_step(1) [OF Cons.prems(2) fn assms] mergeHit_step(2) [OF Cons.prems(2) fn assms, of p x] True
        by (auto simp: y step_def is_sentinel_def getHit_def)
    next
      case False
      then show ?thesis
        using Cons.prems(2) by (simp add: y step_def is_sentinel_def)
    qed
    then show ?case
      using Cons.IH [of "step y acc"] Cons.prems(1) by (auto simp: y)
  qed simp
  from this [of ms "[]"] show ?thesis
    by (simp add: dir_hits_def step_def hits_ok_def)
qed

lemma add_child_mem:
  "(\<exists>ns. (c, ns) \<in> set (add_child b m ch) \<and> n \<in> set ns) \<longleftrightarrow> (\<exists>ns. (c, ns) \<in> set ch \<and> n \<in> set ns) \<or> c = b \<and> n = m"
  if "distinct (map fst ch)"
proof (cases "map_of ch b")
  case None
  have "add_child b m ch = ch @ [(b, [m])]"
    using update_new [of b ch "[m]"] None map_of_eq_None_iff [of ch b] by (simp add: add_child_def)
  then show ?thesis
    by auto
next
  case (Some p)
  then obtain as bs where ch: "ch = as @ (b, p) # bs" and notin: "b \<notin> fst ` set as"
    using alist_split by metis
  have "add_child b m ch = as @ (b, p @ [m]) # bs"
    using Some update_split [OF notin] by (simp add: add_child_def ch)
  then show ?thesis
    using that by (auto simp: ch)
qed

lemma add_child_distinct: "distinct (map fst ch) \<Longrightarrow> distinct (map fst (add_child b m ch))"
  by (simp add: add_child_def distinct_update split: option.splits)

lemma dir_children_mem:
  "(\<exists>ns. (c, ns) \<in> set (dir_children descend ms) \<and> n \<in> set ns) \<longleftrightarrow> (\<exists>f. (f, n) \<in> set ms \<and> descend f \<and> Name f = c)"
proof -
  define step where "step = (\<lambda>(f, next) children. if descend f then add_child (Name f) next children else children)"
  have "(\<exists>ns. (c, ns) \<in> set (fold step ms acc) \<and> n \<in> set ns) \<longleftrightarrow>
      (\<exists>ns. (c, ns) \<in> set acc \<and> n \<in> set ns) \<or> (\<exists>f. (f, n) \<in> set ms \<and> descend f \<and> Name f = c)"
    if "distinct (map fst acc)" for acc
    using that
  proof (induction ms arbitrary: acc)
    case (Cons m ms)
    obtain f k where m: "m = (f, k)"
      by (rule prod.exhaust)
    have "distinct (map fst (step m acc))"
      using Cons.prems add_child_distinct by (simp add: step_def m)
    from Cons.IH [OF this] show ?case
      using add_child_mem [OF Cons.prems, of c "Name f" k n] by (auto simp: step_def m)
  qed simp
  from this [of "[]"] show ?thesis
    by (simp add: dir_children_def step_def)
qed

lemma matched_mem: "(f, n) \<in> set (matched t files fs) \<longleftrightarrow> f \<in> set files \<and> (\<exists>k. (k, n) \<in> set fs \<and> filter_Match t k f)"
  by (force simp: matched_def)

lemma Expand_cases:
  assumes "ReadDirWithOSPath accessor root = Ok files" and "filters g \<noteq> []"
  shows "set (ExpandWithContext t options accessor g root) =
    snd ` set (dir_hits root (matched t files (filters g))) \<union>
    (\<Union>(c, n) \<in> {(c, n). \<exists>f k. f \<in> set files \<and> (k, n) \<in> set (filters g) \<and> filter_Match t k f \<and>
        is_dir_or_link options accessor f 0 \<and> Name f = c}. set (ExpandWithContext t options accessor n (root @ [c])))"
proof -
  let ?ch = "dir_children (\<lambda>f. is_dir_or_link options accessor f 0) (matched t files (filters g))"
  have "(\<Union>(c, ns) \<in> set ?ch. \<Union>n \<in> set ns. H n c) = (\<Union>(c, n) \<in> {(c, n). \<exists>ns. (c, ns) \<in> set ?ch \<and> n \<in> set ns}. H n c)"
    for H :: "Globber \<Rightarrow> string \<Rightarrow> GlobHit set"
    by blast
  also have "{(c, n). \<exists>ns. (c, ns) \<in> set ?ch \<and> n \<in> set ns} = {(c, n). \<exists>f k. f \<in> set files \<and> (k, n) \<in> set (filters g) \<and>
      filter_Match t k f \<and> is_dir_or_link options accessor f 0 \<and> Name f = c}"
    unfolding dir_children_mem matched_mem by blast
  finally have *: "(\<Union>(c, ns) \<in> set ?ch. \<Union>n \<in> set ns. H n c) = (\<Union>(c, n) \<in> {(c, n). \<exists>f k. f \<in> set files \<and>
      (k, n) \<in> set (filters g) \<and> filter_Match t k f \<and> is_dir_or_link options accessor f 0 \<and> Name f = c}. H n c)"
    for H :: "Globber \<Rightarrow> string \<Rightarrow> GlobHit set" .
  show ?thesis
    using assms * [of "\<lambda>n c. set (ExpandWithContext t options accessor n (root @ [c]))"]
    by (subst ExpandWithContext.simps) (simp add: Let_def getHits_def case_prod_beta)
qed

lemma Expand_Nil:
  "filters g = [] \<or> (\<exists>e. ReadDirWithOSPath accessor root = Err e) \<Longrightarrow> ExpandWithContext t options accessor g root = []"
  by (subst ExpandWithContext.simps) auto

lemma hit_below: "h \<in> set (ExpandWithContext t options accessor g root) \<Longrightarrow> \<exists>c cs. hit_path h = root @ c # cs"
proof (induction g arbitrary: root h rule: measure_induct_rule [of size])
  case (less g)
  then obtain files where files: "ReadDirWithOSPath accessor root = Ok files" and ne: "filters g \<noteq> []"
    using Expand_Nil [of g accessor root t options] by (cases "ReadDirWithOSPath accessor root"; cases "filters g = []") auto
  define step where "step = (\<lambda>(f, next) hits. if is_sentinel next then mergeHit (UniqueName f) (getHit root f next) hits else hits)"
  have dir: "\<exists>c. hit_path h = root @ [c]" if "(u, h) \<in> set (fold step ms acc)" "\<forall>(u, h) \<in> set acc. \<exists>c. hit_path h = root @ [c]" for u h ms acc
    using that
  proof (induction ms arbitrary: acc)
    case (Cons m ms)
    obtain f n where m: "m = (f, n)"
      by (rule prod.exhaust)
    have "\<forall>(u, h) \<in> set (step m acc). \<exists>c. hit_path h = root @ [c]"
    proof (cases "map_of acc (UniqueName f)")
      case None
      then show ?thesis
        using Cons.prems(2) by (auto simp: m step_def mergeHit_def getHit_def)
    next
      case (Some e)
      have e: "\<exists>c. hit_path e = root @ [c]"
        using Cons.prems(2) map_of_SomeD [OF Some] by auto
      have "set (step m acc) \<subseteq> insert (UniqueName f, e\<lparr>globs := globs e @ globs (getHit root f n)\<rparr>) (set acc)"
        using Some set_update_subset [of "UniqueName f" _ acc] by (auto simp: m step_def mergeHit_def)
      then show ?thesis
        using Cons.prems(2) e by auto
    qed
    then show ?case
      using Cons.IH [of "step m acc"] Cons.prems(1) by simp
  qed auto
  consider u where "(u, h) \<in> set (dir_hits root (matched t files (filters g)))"
    | c n k where "h \<in> set (ExpandWithContext t options accessor n (root @ [c]))" "(k, n) \<in> set (filters g)"
    using less.prems Expand_cases [OF files ne] by fastforce
  then show ?case
  proof cases
    case 1
    then show ?thesis
      using dir [of u h "matched t files (filters g)" "[]"] by (auto simp: dir_hits_def step_def)
  next
    case 2
    then have "size n < size g"
      by (cases g) (auto dest: size_list_estimation' [OF _ order.refl, of _ _ "size_prod (\<lambda>_. 0) size"])
    then show ?thesis
      using less.IH [OF _ 2(1)] by auto
  qed
qed

text \<open>The hits of an expansion are the paths that the routes of the tree match.\<close>

definition step_ok :: "Tables \<Rightarrow> GlobOptions \<Rightarrow> Accessor \<Rightarrow> string list \<Rightarrow> Globber \<Rightarrow> string \<Rightarrow> FileInfo \<Rightarrow> string list \<Rightarrow> bool" where
  "step_ok t options accessor root n x f cs \<longleftrightarrow>
     cs = [Name f] \<and> leads n [] x \<or>
     is_dir_or_link options accessor f 0 \<and>
     (\<exists>ds. cs = Name f # ds \<and> (\<exists>ks. leads n ks x \<and> walk t options accessor (root @ [Name f]) ks ds))"

lemma walk_step:
  assumes "ReadDirWithOSPath accessor root = Ok files"
  shows "(\<exists>ks. leads g ks x \<and> walk t options accessor root ks cs) \<longleftrightarrow>
    (\<exists>f k n. f \<in> set files \<and> map_of (filters g) k = Some n \<and> filter_Match t k f \<and> step_ok t options accessor root n x f cs)"
proof
  assume "\<exists>ks. leads g ks x \<and> walk t options accessor root ks cs"
  then obtain ks where ks: "leads g ks x" "walk t options accessor root ks cs"
    by blast
  obtain k ks' c ds where e: "ks = k # ks'" "cs = c # ds"
    using ks(2) by (cases ks; cases cs) simp_all
  obtain n where n: "map_of (filters g) k = Some n" "leads n ks' x"
    using ks(1) e(1) by auto
  obtain f where f: "f \<in> set files" "Name f = c" "filter_Match t k f"
    "if ks' = [] then ds = [] else is_dir_or_link options accessor f 0 \<and> walk t options accessor (root @ [c]) ks' ds"
    using ks(2) e assms by auto
  have "step_ok t options accessor root n x f cs"
    using n(2) f(2,4) e(2) by (cases "ks' = []") (auto simp: step_ok_def)
  then show "\<exists>f k n. f \<in> set files \<and> map_of (filters g) k = Some n \<and> filter_Match t k f \<and> step_ok t options accessor root n x f cs"
    using n(1) f(1,3) by blast
next
  assume "\<exists>f k n. f \<in> set files \<and> map_of (filters g) k = Some n \<and> filter_Match t k f \<and> step_ok t options accessor root n x f cs"
  then obtain f k n where f: "f \<in> set files" "map_of (filters g) k = Some n" "filter_Match t k f" "step_ok t options accessor root n x f cs"
    by blast
  then consider "cs = [Name f]" "leads n [] x"
    | ds ks where "is_dir_or_link options accessor f 0" "cs = Name f # ds" "leads n ks x" "walk t options accessor (root @ [Name f]) ks ds"
    unfolding step_ok_def by blast
  then show "\<exists>ks. leads g ks x \<and> walk t options accessor root ks cs"
  proof cases
    case 1
    then show ?thesis
      using f assms by (intro exI [of _ "[k]"]) auto
  next
    case 2
    have "ks \<noteq> []"
      using 2(4) by (cases ks) simp_all
    then show ?thesis
      using f assms 2 by (intro exI [of _ "k # ks"]) auto
  qed
qed

lemma tree_ok_filters:
  assumes "tree_ok g"
  shows "(k, n) \<in> set (filters g) \<longleftrightarrow> map_of (filters g) k = Some n"
    and "map_of (filters g) k = Some n \<Longrightarrow> tree_ok n \<and> size n < size g"
proof -
  obtain s fs where g: "g = Globber s fs"
    by (cases g)
  show "(k, n) \<in> set (filters g) \<longleftrightarrow> map_of (filters g) k = Some n"
    using assms by (simp add: g)
  assume "map_of (filters g) k = Some n"
  then have kn: "(k, n) \<in> set fs"
    using map_of_SomeD g by fastforce
  then show "tree_ok n \<and> size n < size g"
    using assms size_list_estimation' [OF kn order.refl, of "size_prod (\<lambda>_. 0) size"] by (auto simp: g)
qed

lemma Expand_reports:
  assumes "tree_ok g" and "unique_names accessor"
  shows "reports (set (ExpandWithContext t options accessor g root)) (root @ cs) x \<longleftrightarrow>
    (\<exists>ks. leads g ks x \<and> walk t options accessor root ks cs)"
  using assms(1)
proof (induction g arbitrary: root cs rule: measure_induct_rule [of size])
  case (less g)
  note members = tree_ok_filters(1) [OF less.prems]
  show ?case
  proof (cases "\<exists>files. ReadDirWithOSPath accessor root = Ok files \<and> filters g \<noteq> []")
    case False
    have "ExpandWithContext t options accessor g root = []"
      using False by (intro Expand_Nil) (cases "ReadDirWithOSPath accessor root", auto)
    moreover have "\<not> (leads g ks x \<and> walk t options accessor root ks cs)" for ks
      using False by (cases ks; cases cs) auto
    ultimately show ?thesis
      by simp
  next
    case True
    then obtain files where files: "ReadDirWithOSPath accessor root = Ok files" and ne: "filters g \<noteq> []"
      by auto
    have unique: "\<forall>(f, n) \<in> set (matched t files (filters g)). \<forall>(h, m) \<in> set (matched t files (filters g)).
        UniqueName f = UniqueName h \<longrightarrow> Name f = Name h"
      using assms(2) files by (auto simp: matched_mem unique_names_def)
    have below: "reports (set (ExpandWithContext t options accessor n (root @ [c]))) (root @ cs) x \<longleftrightarrow>
        (\<exists>ds. cs = c # ds \<and> (\<exists>ks. leads n ks x \<and> walk t options accessor (root @ [c]) ks ds))"
      if n: "map_of (filters g) k = Some n" for k n c
    proof (cases "\<exists>ds. cs = c # ds")
      case True
      then obtain ds where "cs = c # ds" ..
      then show ?thesis
        using less.IH [of n "root @ [c]" ds] tree_ok_filters(2) [OF less.prems n] by simp
    next
      case F: False
      have "\<not> reports (set (ExpandWithContext t options accessor n (root @ [c]))) (root @ cs) x"
      proof
        assume "reports (set (ExpandWithContext t options accessor n (root @ [c]))) (root @ cs) x"
        then obtain h where "h \<in> set (ExpandWithContext t options accessor n (root @ [c]))" "hit_path h = root @ cs"
          by (auto simp: reports_def)
        then show False
          using hit_below [of h t options accessor n "root @ [c]"] F by auto
      qed
      then show ?thesis
        using F by blast
    qed
    let ?at = "\<lambda>f k n. f \<in> set files \<and> map_of (filters g) k = Some n \<and> filter_Match t k f"
    have "reports (snd ` set (dir_hits root (matched t files (filters g)))) (root @ cs) x \<longleftrightarrow>
        (\<exists>f n. (f, n) \<in> set (matched t files (filters g)) \<and> cs = [Name f] \<and> leads n [] x)"
      unfolding dir_hits_reports [OF unique] by auto
    also have "\<dots> \<longleftrightarrow> (\<exists>f k n. ?at f k n \<and> cs = [Name f] \<and> leads n [] x)"
      unfolding matched_mem members by blast
    finally have here: "reports (snd ` set (dir_hits root (matched t files (filters g)))) (root @ cs) x \<longleftrightarrow>
        (\<exists>f k n. ?at f k n \<and> cs = [Name f] \<and> leads n [] x)" .
    have "reports (set (ExpandWithContext t options accessor g root)) (root @ cs) x \<longleftrightarrow>
        reports (snd ` set (dir_hits root (matched t files (filters g)))) (root @ cs) x \<or>
        (\<exists>f k n. ?at f k n \<and> is_dir_or_link options accessor f 0 \<and>
          reports (set (ExpandWithContext t options accessor n (root @ [Name f]))) (root @ cs) x)"
      unfolding Expand_cases [OF files ne] reports_Un reports_UN members
      by (simp only: Bex_def mem_Collect_eq split_paired_Ex prod.case) blast
    also have "\<dots> \<longleftrightarrow> (\<exists>f k n. ?at f k n \<and> step_ok t options accessor root n x f cs)"
      unfolding here step_ok_def using below by blast
    finally show ?thesis
      unfolding walk_step [OF files] by simp
  qed
qed

section \<open>Adding globs\<close>

definition shapes :: "(filterer list \<times> nat) result \<Rightarrow> filterer list result" where
  "shapes y = (case y of Err e \<Rightarrow> Err e | Ok (fs, _) \<Rightarrow> Ok (map unnumbered fs))"

lemma shapes_Cons [simp]:
  "shapes (map_sum id (map_prod ((#) f) id) y) = (case shapes y of Err e \<Rightarrow> Err e | Ok fs \<Rightarrow> Ok (unnumbered f # fs))"
  by (cases y) (auto simp: shapes_def)

lemma convert_numbers: "shapes (convert_loop t cs n) = shapes (convert_loop t cs m)"
proof (induction cs arbitrary: n m)
  case (Cons c cs)
  note IH = Cons.IH [of _ 0]
  show ?case
    by (simp add: Let_def IH [of n] IH [of m] IH [of "Suc n"] IH [of "Suc m"] split: sum.splits)
qed (simp add: shapes_def)

lemma alternatives_unnumbered: "alternatives t (map unnumbered fs) = alternatives t fs"
proof (induction t fs rule: alternatives.induct)
  case (2 t path depth right)
  then show ?case
    by (simp only: list.map unnumbered.simps alternatives.simps map_is_Nil_conv)
qed simp_all

lemma convert_alternatives:
  assumes "convert_loop t cs n = Ok (fs, k)"
  shows "\<exists>fs' k'. convert_loop t cs m = Ok (fs', k') \<and> alternatives t fs' = alternatives t fs"
proof -
  obtain fs' k' where "convert_loop t cs m = Ok (fs', k')" "map unnumbered fs' = map unnumbered fs"
    using convert_numbers [of t cs n m] assms by (cases "convert_loop t cs m") (auto simp: shapes_def)
  then show ?thesis
    using alternatives_unnumbered by metis
qed

text \<open>A path below a directory matches a glob under the name of one of the patterns the glob stands
  for.\<close>

definition glob_pattern ::
  "Tables \<Rightarrow> (PathSpec \<Rightarrow> string) \<Rightarrow> (string \<Rightarrow> string \<Rightarrow> string \<Rightarrow> string) \<Rightarrow> (string \<Rightarrow> OSPath result) \<Rightarrow> string \<Rightarrow> string \<Rightarrow> filterer list \<Rightarrow> bool" where
  "glob_pattern t js us parse expr x ks \<longleftrightarrow>
     (\<exists>ps fs n p. parse expr = Ok ps \<and> convert_glob_into_path_components t ps 0 = Ok (fs, n) \<and>
        OS_String js us ps = Ok (p, x) \<and> ks \<in> alternatives t fs)"

definition glob_matches ::
  "Tables \<Rightarrow> (PathSpec \<Rightarrow> string) \<Rightarrow> (string \<Rightarrow> string \<Rightarrow> string \<Rightarrow> string) \<Rightarrow> (string \<Rightarrow> OSPath result) \<Rightarrow> GlobOptions \<Rightarrow> Accessor \<Rightarrow>
   string list \<Rightarrow> string \<Rightarrow> string \<Rightarrow> string list \<Rightarrow> bool" where
  "glob_matches t js us parse options accessor root glob x cs \<longleftrightarrow>
     (\<exists>es e ks. ExpandBraces glob = Ok es \<and> e \<in> set es \<and> glob_pattern t js us parse e x ks \<and>
        walk t options accessor root ks cs)"

lemma add_pathspec_routes:
  assumes "add_pathspec t js us ps st = (st', None)" and "parse e = Ok ps"
  shows "routes (fst st') x = routes (fst st) x \<union> {ks. glob_pattern t js us parse e x ks}"
    and "tree_ok (fst st) \<Longrightarrow> tree_ok (fst st')"
proof -
  obtain fs n p s where c: "convert_glob_into_path_components t ps (snd st) = Ok (fs, n)" "OS_String js us ps = Ok (p, s)"
    and st': "st' = expand_path_components t fs [s] (fst st, n)"
    using assms(1) by (auto simp: add_pathspec_def split: sum.splits)
  obtain fs' n' where c': "convert_glob_into_path_components t ps 0 = Ok (fs', n')" "alternatives t fs' = alternatives t fs"
    using convert_alternatives [of t "Components ps" "snd st" fs n 0] c(1) by (auto simp: convert_glob_into_path_components_def)
  have "{ks. glob_pattern t js us parse e x ks} = (if x = s then alternatives t fs else {})"
    using assms(2) c(2) c' by (auto simp: glob_pattern_def)
  then show "routes (fst st') x = routes (fst st) x \<union> {ks. glob_pattern t js us parse e x ks}"
    unfolding st' expand_routes(1) by simp
  show "tree_ok (fst st) \<Longrightarrow> tree_ok (fst st')"
    unfolding st' by (rule expand_tree_ok(1)) simp
qed

lemma add_loop_routes:
  assumes "add_loop t js us parse gs st = (st', None)" and "tree_ok (fst st)"
  shows "routes (fst st') x = routes (fst st) x \<union> {ks. \<exists>e \<in> set gs. glob_pattern t js us parse e x ks} \<and> tree_ok (fst st')"
  using assms
proof (induction gs arbitrary: st)
  case (Cons g gs)
  obtain ps st1 where ps: "parse g = Ok ps" "add_pathspec t js us ps st = (st1, None)" "add_loop t js us parse gs st1 = (st', None)"
    using Cons.prems(1) by (auto split: sum.splits prod.splits option.splits)
  show ?case
    using Cons.IH [OF ps(3)] add_pathspec_routes(1) [where parse = parse and e = g, OF ps(2,1), of x]
      add_pathspec_routes(2) [where parse = parse and e = g, OF ps(2,1)] Cons.prems(2) by auto
qed simp

text \<open>Globbers that globs were added to.\<close>

inductive built ::
  "Tables \<Rightarrow> (PathSpec \<Rightarrow> string) \<Rightarrow> (string \<Rightarrow> string \<Rightarrow> string \<Rightarrow> string) \<Rightarrow> (string \<Rightarrow> OSPath result) \<Rightarrow> string list \<Rightarrow> Globber \<times> nat \<Rightarrow> bool"
  for t js us parse where
  built_new: "built t js us parse [] (newGlobber, n)"
| built_add: "built t js us parse gs st \<Longrightarrow> AddGlob t js us parse g st = (st', None) \<Longrightarrow> built t js us parse (gs @ [g]) st'"

lemma built_routes:
  "built t js us parse gs st \<Longrightarrow>
    tree_ok (fst st) \<and> routes (fst st) x = {ks. \<exists>g \<in> set gs. \<exists>es e. ExpandBraces g = Ok es \<and> e \<in> set es \<and> glob_pattern t js us parse e x ks}"
proof (induction rule: built.induct)
  case (built_new n)
  then show ?case
    by (auto simp: routes_def)
next
  case (built_add gs st g st')
  obtain es where es: "ExpandBraces g = Ok es" "add_loop t js us parse es st = (st', None)"
    using built_add.hyps(2) by (auto simp: AddGlob_def split: sum.splits)
  show ?case
    using built_add.IH add_loop_routes [OF es(2), of x] es(1) by auto
qed

text \<open>C8: Globs. Whatever globs were added, expanding the globber below a directory reports a path
  under a pattern exactly if the pattern is one of those that the globs stand for, by braces,
  and matches the path: component by component, files of the file system, through directories
  or links to directories, with a recursive component standing for up to its depth of
  components. The expansion returns for every file system, with loops of links too. The
  accessor is assumed to give files of different names in a directory different unique names.\<close>

theorem glob_hits_exact:
  assumes "built t js us parse gs st" and "unique_names accessor"
  shows "(\<exists>h \<in> set (ExpandWithContext t options accessor (fst st) root). hit_path h = root @ cs \<and> x \<in> set (Globs h)) \<longleftrightarrow>
    (\<exists>g \<in> set gs. glob_matches t js us parse options accessor root g x cs)"
proof -
  note b = built_routes [OF assms(1), of x]
  have "(\<exists>h \<in> set (ExpandWithContext t options accessor (fst st) root). hit_path h = root @ cs \<and> x \<in> set (Globs h)) \<longleftrightarrow>
      reports (set (ExpandWithContext t options accessor (fst st) root)) (root @ cs) x"
    by (simp add: reports_def Globs_def set_dedup_loop)
  also have "\<dots> \<longleftrightarrow> (\<exists>ks. leads (fst st) ks x \<and> walk t options accessor root ks cs)"
    using Expand_reports assms(2) b by blast
  also have "\<dots> \<longleftrightarrow> (\<exists>ks \<in> routes (fst st) x. walk t options accessor root ks cs)"
    unfolding routes_def using walk_unnumbered by blast
  also have "\<dots> \<longleftrightarrow> (\<exists>g \<in> set gs. glob_matches t js us parse options accessor root g x cs)"
    using b unfolding glob_matches_def by blast
  finally show ?thesis .
qed

text \<open>A file system with one file, and Linux paths.\<close>

definition small_tables :: Tables where
  "small_tables = \<lparr>fold_string = (=), fold_runes = (=), char_classes = (\<lambda>_. None)\<rparr>"

definition small_options :: GlobOptions where
  "small_options = \<lparr>DoNotFollowSymlinks = False, OneFilesystem = False, RecursionCallback = None\<rparr>"

definition plain_file :: "string \<Rightarrow> bool \<Rightarrow> FileInfo" where
  "plain_file name dir = \<lparr>Name = name, UniqueName = name, IsDir = dir, IsLink = False, GetLink = None, Dev = None\<rparr>"

definition small_accessor :: Accessor where
  "small_accessor =
     \<lparr>ReadDirWithOSPath = (\<lambda>p. if p = [] then Ok [plain_file ''Bin'' True] else if p = [''Bin''] then Ok [plain_file ''ls'' False] else Err NotFoundError),
      LstatWithOSPath = (\<lambda>_. Err NotFoundError)\<rparr>"

abbreviation linux_parse :: "string \<Rightarrow> OSPath result" where
  "linux_parse \<equiv> NewOSPath (\<lambda>_. None) (\<lambda>_. None) (\<lambda>s. s) LinuxPathManipulator"

theorem glob_hits_exact_witness:
  "\<exists>st h. built small_tables (\<lambda>_. []) (\<lambda>_ _ _. []) linux_parse [''/bin/l*''] st \<and>
     h \<in> set (ExpandWithContext small_tables small_options small_accessor (fst st) []) \<and>
     hit_path h = [''Bin'', ''ls''] \<and> ''/bin/l*'' \<in> set (Globs h)"
proof -
  define ps where "ps = (new_path LinuxPathManipulator)\<lparr>pathspec := Some (PathSpec [] [] None ''/bin/l*'' False), Components := [''bin'', ''l*'']\<rparr>"
  define r where "r = BeginText # map token (map rune ''l*'') @ [EndText]"
  define fs where "fs = [LiteralComponent ''bin'', RegexComponent 0 (FNmatchTranslate ''l*'') r]"
  have e: "ExpandBraces ''/bin/l*'' = Ok [''/bin/l*'']"
    by (simp add: ExpandBraces_def brace_expansion.simps brace_def)
  have p: "linux_parse ''/bin/l*'' = Ok ps"
    by (simp add: ps_def NewOSPath_def PathParse_defs new_path_def maybeParsePathSpec_def has_prefix_def)
  have c: "convert_glob_into_path_components small_tables ps 0 = Ok (fs, 1)"
    using compile_component [of "''l*''" "char_classes small_tables"]
    by (simp add: convert_glob_into_path_components_def ps_def has_prefix_def ascii_def fs_def r_def)
  have s: "OS_String (\<lambda>_. []) (\<lambda>_ _ _. []) ps = Ok (p', x) \<Longrightarrow> x = ''/bin/l*''" for p' x
    by (auto simp: OS_String_def PathJoin_defs AsPathSpec_defs ps_def new_path_def GetDelegateAccessor_def GetDelegatePath_def Let_def)
  obtain p' where s': "OS_String (\<lambda>_. []) (\<lambda>_ _ _. []) ps = Ok (p', ''/bin/l*'')"
    by (simp add: OS_String_def PathJoin_defs AsPathSpec_defs ps_def new_path_def GetDelegateAccessor_def GetDelegatePath_def Let_def)
  obtain st where "AddGlob small_tables (\<lambda>_. []) (\<lambda>_ _ _. []) linux_parse ''/bin/l*'' (newGlobber, 0) = (st, None)"
    using p c s' by (simp add: AddGlob_def e add_pathspec_def)
  then have built: "built small_tables (\<lambda>_. []) (\<lambda>_ _ _. []) linux_parse [''/bin/l*''] st"
    using built_add [OF built_new, of small_tables "\<lambda>_. []" "\<lambda>_ _ _. []" linux_parse "''/bin/l*''" 0 st] by simp
  have m: "MatchString (char_classes small_tables) (fold_runes small_tables) r ''ls''"
    unfolding r_def MatchString_def find_anchored match_tokens
    by (simp add: runes_ascii ascii_def fold_rune_def ascii_lower_def)
  have b: "char_of (98 :: nat) = CHR ''b''"
    by (rule char_of_byte) simp
  have w: "walk small_tables small_options small_accessor [] fs [''Bin'', ''ls'']"
    using m by (simp add: fs_def small_accessor_def plain_file_def is_dir_or_link.simps small_options_def EqualFold_def ascii_def
        ascii_lower_def b)
  have "fs \<in> alternatives small_tables fs"
    by (simp add: fs_def)
  then have "glob_matches small_tables (\<lambda>_. []) (\<lambda>_ _ _. []) linux_parse small_options small_accessor [] ''/bin/l*'' ''/bin/l*'' [''Bin'', ''ls'']"
    unfolding glob_matches_def glob_pattern_def using e p c s' w by fastforce
  moreover have "unique_names small_accessor"
    by (auto simp: unique_names_def small_accessor_def split: if_splits)
  ultimately have "\<exists>h \<in> set (ExpandWithContext small_tables small_options small_accessor (fst st) []).
      hit_path h = [''Bin'', ''ls''] \<and> ''/bin/l*'' \<in> set (Globs h)"
    using glob_hits_exact [OF built, of small_accessor small_options "[]" "[''Bin'', ''ls'']" "''/bin/l*''"] by simp
  then show ?thesis
    using built by blast
qed

end
