(* ===== verification/Flows.thy ===== *)
theory Flows
  imports Slices Go_Strings
begin

text \<open>
  A flow on the client: \<^verbatim>\<open>responder/flow_context.go\<close> and \<^verbatim>\<open>responder/responder.go\<close>. A flow has a
  responder per query; it counts rows, uploads and logs, enforces the limits of the request
  and reports its progress. \<open>offered\<close> holds the messages offered to the output channel, in
  order; one that is offered after the flow was cancelled may be dropped. Responders are
  named by their index in the flow. \<open>now\<close> is the time in nanoseconds, \<open>row\<close> the JSON
  rendering of a log row, \<open>compress\<close> is zlib. Checkpoints are disabled in the code
  (the path is always empty) and left out.
\<close>

section \<open>Messages\<close>

datatype ReturnedStatus = OK | PROGRESS | GENERIC_ERROR | UNKNOWN_FLOW

record VeloStatus =
  Status :: ReturnedStatus
  ErrorMessage :: string
  Backtrace :: string
  Duration :: int
  LastActive :: u64
  FirstActive :: u64
  NamesWithResponse :: "string list"
  LogRows :: int
  UploadedFiles :: int
  UploadedBytes :: int
  ExpectedUploadedBytes :: int
  ResultRows :: int

record FileBuffer =
  Offset :: u64
  FileSize :: u64
  Data :: bytes
  UncompressedLength :: u64
  DataLength :: u64

record VQLResponse =
  JSONLResponse :: bytes
  CompressedJsonResponse :: bytes
  UncompressedSize :: u64
  ByteOffset :: u64
  Query :: "string option"       \<comment> \<open>the name of the query, if it is set\<close>
  TotalRows :: u64

record LogMessage =
  Id :: int
  NumberOfRows :: u64
  Jsonl :: bytes
  LogError :: string
  Level :: string

record FlowStats =
  TransactionsOutstanding :: u64
  QueryStatus :: "VeloStatus list"
  FlowComplete :: bool

record FlowMessage =
  SessionId :: string
  file_buffer :: "FileBuffer option"
  vql_response :: "VQLResponse option"
  log_message :: "LogMessage option"
  flow_stats :: "FlowStats option"

definition empty_message :: "string \<Rightarrow> FlowMessage" where
  "empty_message sid = \<lparr>SessionId = sid, file_buffer = None, vql_response = None, log_message = None, flow_stats = None\<rparr>"

record FlowRequest =
  MaxRows :: u64
  MaxUploadBytes :: u64
  MaxLogs :: u64
  Compression_ZLIB :: bool

section \<open>Responders\<close>

record FlowResponder =
  status :: VeloStatus
  completed :: bool
  logErrorRegex :: "string \<Rightarrow> bool"

definition unix_us :: "u64 \<Rightarrow> u64" where
  "unix_us now = now div 1000"

definition newFlowResponder :: "u64 \<Rightarrow> (string \<Rightarrow> bool) \<Rightarrow> FlowResponder" where
  "newFlowResponder now regex =
     \<lparr>status = \<lparr>Status = PROGRESS, ErrorMessage = [], Backtrace = [], Duration = 0, LastActive = 0,
        FirstActive = unix_us now, NamesWithResponse = [], LogRows = 0, UploadedFiles = 0,
        UploadedBytes = 0, ExpectedUploadedBytes = 0, ResultRows = 0\<rparr>,
      completed = False, logErrorRegex = regex\<rparr>"

definition SetStatus :: "VeloStatus \<Rightarrow> FlowResponder \<Rightarrow> FlowResponder" where
  "SetStatus s self = self\<lparr>status := s\<rparr>"

definition touch :: "u64 \<Rightarrow> VeloStatus \<Rightarrow> VeloStatus" where
  "touch now s = s\<lparr>LastActive := unix_us now, Duration := i64 (sint (unix_us now - FirstActive s) * 1000)\<rparr>"

definition GetStatus :: "u64 \<Rightarrow> FlowResponder \<Rightarrow> FlowResponder \<times> VeloStatus" where
  "GetStatus now self =
     (let self = (if \<not> completed self then self\<lparr>status := touch now (status self)\<rparr> else self)
      in (self, status self))"

definition addNameWithResponse :: "string list \<Rightarrow> string \<Rightarrow> string list" where
  "addNameWithResponse array name = (if name \<noteq> [] \<and> \<not> InString array name then array @ [name] else array)"

text \<open>A response whose query is not set makes \<^verbatim>\<open>updateStats\<close> dereference nil.\<close>

definition updateStats :: "FlowMessage \<Rightarrow> FlowResponder \<Rightarrow> FlowResponder result" where
  "updateStats message self =
     (case log_message message of
        Some l \<Rightarrow> Ok (self\<lparr>status := (status self)\<lparr>LogRows := i64 (LogRows (status self) + sint (NumberOfRows l))\<rparr>\<rparr>)
      | None \<Rightarrow>
          (let s = (case file_buffer message of
                      None \<Rightarrow> status self
                    | Some f \<Rightarrow>
                        (let s = (status self)\<lparr>UploadedBytes := i64 (UploadedBytes (status self) + sint (DataLength f))\<rparr>
                         in if Offset f = 0
                            then s\<lparr>UploadedFiles := i64 (UploadedFiles s + 1),
                                   ExpectedUploadedBytes := i64 (ExpectedUploadedBytes s + sint (FileSize f))\<rparr>
                            else s))
           in case vql_response message of
                None \<Rightarrow> Ok (self\<lparr>status := s\<rparr>)
              | Some v \<Rightarrow>
                  (case Query v of
                     None \<Rightarrow> Err (Panic ''nil query'')
                   | Some name \<Rightarrow>
                       Ok (self\<lparr>status := s\<lparr>ResultRows := i64 (ResultRows s + sint (TotalRows v)),
                            NamesWithResponse := addNameWithResponse (NamesWithResponse s) name\<rparr>\<rparr>))))"

text \<open>\<open>stack\<close> is the stack trace.\<close>

definition RaiseError :: "string \<Rightarrow> string \<Rightarrow> FlowResponder \<Rightarrow> FlowResponder" where
  "RaiseError stack message self =
     (if ErrorMessage (status self) = []
      then self\<lparr>status := (status self)\<lparr>
             ErrorMessage := (if message = [] then ''Generic Error'' else message), Backtrace := stack\<rparr>\<rparr>
      else self)"

definition responder_Cancel :: "FlowResponder \<Rightarrow> FlowResponder" where
  "responder_Cancel self =
     (let s = (if ErrorMessage (status self) = []
               then (status self)\<lparr>ErrorMessage := ''Cancelled'', Backtrace := []\<rparr> else status self)
      in self\<lparr>status := s\<lparr>Status := GENERIC_ERROR\<rparr>, completed := True\<rparr>)"

definition Return :: "u64 \<Rightarrow> FlowResponder \<Rightarrow> FlowResponder" where
  "Return now self =
     (let s = (if Status (status self) = PROGRESS
               then (status self)\<lparr>Status := (if ErrorMessage (status self) = [] then OK else GENERIC_ERROR)\<rparr>
               else status self)
      in self\<lparr>status := touch now s, completed := True\<rparr>)"

section \<open>The flow\<close>

record FlowContext =
  upload_id :: int
  flow_id :: string
  req :: FlowRequest
  total_rows :: u64
  total_uploaded_bytes :: u64
  total_jsonl_bytes :: "string \<Rightarrow> u64"
  total_logs :: u64
  logs_disabled :: bool
  transactions_outstanding :: u64
  offered :: "FlowMessage list"
  responders :: "FlowResponder list"
  log_messages :: bytes
  log_messages_id :: u64
  log_message_count :: u64
  error_message :: string
  last_stats_timestamp :: u64
  frequency_ns :: u64
  final_stats_sent :: bool
  ctx_done :: bool

text \<open>The times between two reports, in seconds: of the configuration and of the request.\<close>

definition newFlowContext :: "u64 \<Rightarrow> u64 \<Rightarrow> string \<Rightarrow> FlowRequest \<Rightarrow> FlowContext" where
  "newFlowContext DefaultServerFlowStatsUpdate FlowUpdateTime sid r =
     (let frequency = 5;
          frequency = (if DefaultServerFlowStatsUpdate > 0 then DefaultServerFlowStatsUpdate else frequency);
          frequency = (if FlowUpdateTime > 0 then FlowUpdateTime else frequency)
      in \<lparr>upload_id = 0, flow_id = sid, req = r, total_rows = 0, total_uploaded_bytes = 0,
          total_jsonl_bytes = (\<lambda>_. 0), total_logs = 0, logs_disabled = False,
          transactions_outstanding = 0, offered = [], responders = [], log_messages = [],
          log_messages_id = 0, log_message_count = 0, error_message = [],
          last_stats_timestamp = 0, frequency_ns = 1000000000 * frequency,
          final_stats_sent = False, ctx_done = False\<rparr>)"

fun all_complete :: "FlowResponder list \<Rightarrow> bool" where
  "all_complete [] = True"
| "all_complete (r # rs) = (if \<not> completed r then False else all_complete rs)"

definition isFlowComplete :: "FlowContext \<Rightarrow> bool" where
  "isFlowComplete self = (if length (responders self) = 0 then False else all_complete (responders self))"

text \<open>The error of an exceeded limit: \<^verbatim>\<open>%v\<close> prints the numbers in decimal.\<close>

definition limit_error :: "string \<Rightarrow> u64 \<Rightarrow> u64 \<Rightarrow> FlowContext \<Rightarrow> string" where
  "limit_error what amount limit self =
     what @ '' '' @ show_nat (unat amount) @ '' exceeded limit '' @ show_nat (unat limit) @
     '' for flow '' @ flow_id self @ ''. Cancelling.''"

definition ChargeRows :: "u64 \<Rightarrow> FlowContext \<Rightarrow> FlowContext \<times> string option" where
  "ChargeRows rows self =
     (let self = self\<lparr>total_rows := total_rows self + rows\<rparr>
      in (self, if MaxRows (req self) > 0 \<and> total_rows self > MaxRows (req self)
                then Some (limit_error ''Rows'' (total_rows self) (MaxRows (req self)) self) else None))"

definition GetJSONLBytes :: "string \<Rightarrow> FlowContext \<Rightarrow> u64" where
  "GetJSONLBytes name self = total_jsonl_bytes self name"

definition ChargeJSONLBytes :: "string \<Rightarrow> u64 \<Rightarrow> FlowContext \<Rightarrow> FlowContext" where
  "ChargeJSONLBytes name n self =
     self\<lparr>total_jsonl_bytes := (total_jsonl_bytes self)(name := total_jsonl_bytes self name + n)\<rparr>"

definition ChargeBytes :: "u64 \<Rightarrow> FlowContext \<Rightarrow> FlowContext \<times> string option" where
  "ChargeBytes n self =
     (let self = self\<lparr>total_uploaded_bytes := total_uploaded_bytes self + n\<rparr>
      in (self, if MaxUploadBytes (req self) > 0 \<and> total_uploaded_bytes self > MaxUploadBytes (req self)
                then Some (limit_error ''Upload bytes'' (total_uploaded_bytes self) (MaxUploadBytes (req self)) self)
                else None))"

definition offer :: "FlowMessage \<Rightarrow> FlowContext \<Rightarrow> FlowContext" where
  "offer m self = self\<lparr>offered := offered self @ [m]\<rparr>"

definition addLogMessage :: "(string \<Rightarrow> string \<Rightarrow> bytes) \<Rightarrow> string \<Rightarrow> string \<Rightarrow> FlowContext \<Rightarrow> FlowContext" where
  "addLogMessage row level msg self =
     self\<lparr>log_message_count := log_message_count self + 1, log_messages := log_messages self @ row level msg\<rparr>"

definition getLogMessages :: "FlowContext \<Rightarrow> FlowContext \<times> bytes \<times> u64 \<times> u64 \<times> string" where
  "getLogMessages self =
     (let buf = log_messages self; start_id = log_messages_id self; message_count = log_message_count self;
          err = error_message self
      in (self\<lparr>log_messages := [], log_message_count := 0, log_messages_id := start_id + message_count,
               error_message := []\<rparr>, buf, start_id, message_count, err))"

definition flushLogMessages :: "FlowContext \<Rightarrow> FlowContext" where
  "flushLogMessages self =
     (let (self, buf, start_id, n, err) = getLogMessages self
      in if length buf > 0
         then offer ((empty_message (flow_id self))\<lparr>log_message :=
                Some \<lparr>Id = sint start_id, NumberOfRows = n, Jsonl = buf, LogError = err, Level = []\<rparr>\<rparr>) self
         else self)"

definition ALERT :: string where
  "ALERT = ''ALERT''"

definition ERROR :: string where
  "ERROR = ''ERROR''"

definition sendAlertMessage :: "(string \<Rightarrow> string \<Rightarrow> bytes) \<Rightarrow> string \<Rightarrow> string \<Rightarrow> FlowContext \<Rightarrow> FlowContext" where
  "sendAlertMessage row level msg self =
     (let start_id = log_messages_id self; self = self\<lparr>log_messages_id := log_messages_id self + 1\<rparr>
      in offer ((empty_message (flow_id self))\<lparr>log_message :=
           Some \<lparr>Id = sint start_id, NumberOfRows = 1, Jsonl = row level msg, LogError = [], Level = ALERT\<rparr>\<rparr>) self)"

definition AddLogMessage :: "(string \<Rightarrow> string \<Rightarrow> bytes) \<Rightarrow> string \<Rightarrow> string \<Rightarrow> FlowContext \<Rightarrow> FlowContext" where
  "AddLogMessage row level msg self =
     (if level = ALERT then sendAlertMessage row level msg self
      else
        (let self = self\<lparr>total_logs := total_logs self + 1\<rparr>
         in if logs_disabled self then self
            else (let max_logs = (if MaxLogs (req self) > 0 then MaxLogs (req self) else 100000)
                  in if total_logs self \<ge> max_logs
                     then (addLogMessage row level ''Log Limit Exceeded - suppressing further logs'' self)
                            \<lparr>logs_disabled := True\<rparr>
                     else addLogMessage row level msg self)))"

text \<open>\<^verbatim>\<open>getStats\<close> and the three ways it is called.\<close>

definition getStats :: "u64 \<Rightarrow> FlowContext \<Rightarrow> FlowContext \<times> FlowMessage" where
  "getStats now self =
     (let statuses = map (\<lambda>r. snd (GetStatus now r)) (responders self);
          self = self\<lparr>responders := map (\<lambda>r. fst (GetStatus now r)) (responders self)\<rparr>;
          complete = isFlowComplete self;
          self = (if complete then self\<lparr>final_stats_sent := True\<rparr> else self)
      in (self, (empty_message (flow_id self))\<lparr>flow_stats :=
            Some \<lparr>TransactionsOutstanding = transactions_outstanding self, QueryStatus = statuses,
                  FlowComplete = complete\<rparr>\<rparr>))"

definition MaybeSendStats :: "u64 \<Rightarrow> FlowContext \<Rightarrow> FlowContext \<times> FlowMessage option" where
  "MaybeSendStats now self =
     (if final_stats_sent self then (self, None)
      else if isFlowComplete self \<or> now - last_stats_timestamp self > frequency_ns self
      then map_prod id Some (getStats now (self\<lparr>last_stats_timestamp := now\<rparr>))
      else (self, None))"

definition sendStats :: "u64 \<Rightarrow> FlowContext \<Rightarrow> FlowContext" where
  "sendStats now self =
     (if \<not> final_stats_sent self
      then (case getStats now self of (self, stats) \<Rightarrow> offer stats self) else self)"

definition GetStats :: "u64 \<Rightarrow> FlowContext \<Rightarrow> FlowContext \<times> FlowMessage" where
  "GetStats now self = getStats now self"

text \<open>A turn of the reporting goroutine, which ends with the flow's context.\<close>

definition report_turn :: "u64 \<Rightarrow> FlowContext \<Rightarrow> FlowContext" where
  "report_turn now self =
     (if ctx_done self then self
      else (case MaybeSendStats now self of
              (self, Some stats) \<Rightarrow> flushLogMessages (offer stats self)
            | (self, None) \<Rightarrow> flushLogMessages self))"

text \<open>\<^verbatim>\<open>_Close\<close>, up to its removal from the flow manager, which \<open>Flow_Manager\<close> adds.\<close>

definition context_Close :: "u64 \<Rightarrow> FlowContext \<Rightarrow> FlowContext" where
  "context_Close now self = (sendStats now (flushLogMessages self))\<lparr>ctx_done := True\<rparr>"

definition cancel_queries :: "(string \<Rightarrow> string \<Rightarrow> bytes) \<Rightarrow> FlowContext \<Rightarrow> FlowContext" where
  "cancel_queries row self =
     (let self = self\<lparr>responders := map responder_Cancel (responders self)\<rparr>
      in addLogMessage row ERROR (''Cancelled all in-flight queries for flow '' @ flow_id self) self)"

definition context_Cancel :: "(string \<Rightarrow> string \<Rightarrow> bytes) \<Rightarrow> u64 \<Rightarrow> FlowContext \<Rightarrow> FlowContext" where
  "context_Cancel row now self = context_Close now (cancel_queries row self)"

definition NextUploadId :: "FlowContext \<Rightarrow> FlowContext \<times> int" where
  "NextUploadId self =
     (let new_id = (upload_id self + 1 + 2 ^ 31) mod 2 ^ 32 - 2 ^ 31
      in (self\<lparr>upload_id := new_id\<rparr>, new_id - 1))"

definition NewResponder :: "u64 \<Rightarrow> (string \<Rightarrow> bool) \<Rightarrow> FlowContext \<Rightarrow> FlowContext" where
  "NewResponder now regex self = self\<lparr>responders := responders self @ [newFlowResponder now regex]\<rparr>"

definition IncTransaction :: "FlowContext \<Rightarrow> FlowContext" where
  "IncTransaction self = self\<lparr>transactions_outstanding := transactions_outstanding self + 1\<rparr>"

definition DecTransaction :: "FlowContext \<Rightarrow> FlowContext" where
  "DecTransaction self = self\<lparr>transactions_outstanding := transactions_outstanding self - 1\<rparr>"

section \<open>Operations of a responder that reach the flow\<close>

definition on_responder :: "nat \<Rightarrow> (FlowResponder \<Rightarrow> FlowResponder) \<Rightarrow> FlowContext \<Rightarrow> FlowContext" where
  "on_responder i f self = self\<lparr>responders := (responders self)[i := f (responders self ! i)]\<rparr>"

text \<open>What exceeding a limit does.\<close>

definition exceeded :: "(string \<Rightarrow> string \<Rightarrow> bytes) \<Rightarrow> string \<Rightarrow> u64 \<Rightarrow> nat \<Rightarrow> string \<Rightarrow> FlowContext \<Rightarrow> FlowContext" where
  "exceeded row stack now i msg self = context_Cancel row now (on_responder i (RaiseError stack msg) self)"

definition compress_file :: "(bytes \<Rightarrow> bytes option) \<Rightarrow> bool \<Rightarrow> FileBuffer \<Rightarrow> FileBuffer" where
  "compress_file compress zlib f =
     (if length (Data f) > 0 \<and> zlib
      then (case compress (Data f) of
              Some c \<Rightarrow> f\<lparr>UncompressedLength := of_nat (length (Data f)), Data := c\<rparr>
            | None \<Rightarrow> f)
      else f)"

definition compress_response :: "(bytes \<Rightarrow> bytes option) \<Rightarrow> bool \<Rightarrow> u64 \<Rightarrow> VQLResponse \<Rightarrow> VQLResponse" where
  "compress_response compress zlib off v =
     (if length (JSONLResponse v) > 0 \<and> zlib
      then (case compress (JSONLResponse v) of
              Some c \<Rightarrow> v\<lparr>UncompressedSize := of_nat (length (JSONLResponse v)), CompressedJsonResponse := c,
                        JSONLResponse := [], ByteOffset := off\<rparr>
            | None \<Rightarrow> v)
      else v)"

definition charge_file ::
  "(string \<Rightarrow> string \<Rightarrow> bytes) \<Rightarrow> string \<Rightarrow> u64 \<Rightarrow> nat \<Rightarrow> FileBuffer \<Rightarrow> FlowContext \<Rightarrow> FlowContext" where
  "charge_file row stack now i f self =
     (case ChargeBytes (DataLength f) self of
        (self, Some err) \<Rightarrow> exceeded row stack now i err self
      | (self, None) \<Rightarrow> self)"

definition charge_response ::
  "(string \<Rightarrow> string \<Rightarrow> bytes) \<Rightarrow> string \<Rightarrow> u64 \<Rightarrow> nat \<Rightarrow> VQLResponse \<Rightarrow> FlowContext \<Rightarrow> FlowContext" where
  "charge_response row stack now i v self =
     (case ChargeRows (TotalRows v)
             (ChargeJSONLBytes (case Query v of Some n \<Rightarrow> n | None \<Rightarrow> []) (of_nat (length (JSONLResponse v))) self) of
        (self, Some err) \<Rightarrow> exceeded row stack now i err self
      | (self, None) \<Rightarrow> self)"

definition AddResponse ::
  "(string \<Rightarrow> string \<Rightarrow> bytes) \<Rightarrow> (bytes \<Rightarrow> bytes option) \<Rightarrow> string \<Rightarrow> u64 \<Rightarrow> nat \<Rightarrow> FlowMessage \<Rightarrow> FlowContext \<Rightarrow>
   FlowContext result" where
  "AddResponse row compress stack now i message self =
     (case updateStats message (responders self ! i) of
        Err e \<Rightarrow> Err e
      | Ok r \<Rightarrow>
          (let self = on_responder i (\<lambda>_. r) self;
               (self, message) =
                 (case file_buffer message of
                    None \<Rightarrow> (self, message)
                  | Some f \<Rightarrow>
                      (let f = compress_file compress (Compression_ZLIB (req self)) f
                       in (charge_file row stack now i f self, message\<lparr>file_buffer := Some f\<rparr>)));
               (self, message) =
                 (case vql_response message of
                    None \<Rightarrow> (self, message)
                  | Some v \<Rightarrow>
                      (let name = (case Query v of Some n \<Rightarrow> n | None \<Rightarrow> []);
                           v' = compress_response compress (Compression_ZLIB (req self)) (GetJSONLBytes name self) v
                       in (charge_response row stack now i v self, message\<lparr>vql_response := Some v'\<rparr>)))
           in Ok (offer (message\<lparr>SessionId := flow_id self\<rparr>) self)))"

definition Log ::
  "(string \<Rightarrow> string \<Rightarrow> bytes) \<Rightarrow> string \<Rightarrow> nat \<Rightarrow> string \<Rightarrow> string \<Rightarrow> FlowContext \<Rightarrow> FlowContext" where
  "Log row stack i level msg self =
     (let level = (if level \<noteq> ERROR \<and> logErrorRegex (responders self ! i) msg then ERROR else level);
          self = AddLogMessage row level msg self;
          self = (if level = ERROR then on_responder i (RaiseError stack msg) self else self)
      in on_responder i (\<lambda>r. r\<lparr>status := (status r)\<lparr>LogRows := i64 (LogRows (status r) + 1)\<rparr>\<rparr>) self)"

section \<open>Runs of a flow\<close>

datatype flow_op =
    OpNewResponder "string \<Rightarrow> bool"
  | OpAddResponse nat FlowMessage
  | OpLog nat string string
  | OpRaiseError nat string
  | OpReturn nat
  | OpCancel
  | OpClose
  | OpReport
  | OpGetStats

text \<open>One operation at a time. The response of a query carries rows or a part of an upload.
  After a panic the state is as before.\<close>

fun flow_step ::
  "(string \<Rightarrow> string \<Rightarrow> bytes) \<Rightarrow> (bytes \<Rightarrow> bytes option) \<Rightarrow> string \<Rightarrow> u64 \<times> flow_op \<Rightarrow> FlowContext \<Rightarrow> FlowContext" where
  "flow_step row compress stack (now, OpNewResponder regex) c = NewResponder now regex c"
| "flow_step row compress stack (now, OpAddResponse i m) c =
     (if i < length (responders c) \<and> log_message m = None \<and> flow_stats m = None
      then (case AddResponse row compress stack now i m c of Ok c' \<Rightarrow> c' | Err _ \<Rightarrow> c) else c)"
| "flow_step row compress stack (now, OpLog i level msg) c =
     (if i < length (responders c) then Log row stack i level msg c else c)"
| "flow_step row compress stack (now, OpRaiseError i msg) c =
     (if i < length (responders c) then on_responder i (RaiseError stack msg) c else c)"
| "flow_step row compress stack (now, OpReturn i) c =
     (if i < length (responders c) then on_responder i (Return now) c else c)"
| "flow_step row compress stack (now, OpCancel) c = context_Cancel row now c"
| "flow_step row compress stack (now, OpClose) c = context_Close now c"
| "flow_step row compress stack (now, OpReport) c = report_turn now c"
| "flow_step row compress stack (now, OpGetStats) c = fst (GetStats now c)"

text \<open>The final reports among messages, and the log messages, whose row numbers are to follow
  one another from \<open>a\<close> up to \<open>b\<close>.\<close>

definition final :: "FlowMessage \<Rightarrow> bool" where
  "final m \<longleftrightarrow> (case flow_stats m of Some s \<Rightarrow> FlowComplete s | None \<Rightarrow> False)"

definition logs :: "FlowMessage list \<Rightarrow> LogMessage list" where
  "logs ms = concat (map (\<lambda>m. case log_message m of Some l \<Rightarrow> [l] | None \<Rightarrow> []) ms)"

fun tiles :: "u64 \<Rightarrow> LogMessage list \<Rightarrow> u64 \<Rightarrow> bool" where
  "tiles a [] b = (a = b)"
| "tiles a (l # ls) b = (Id l = sint a \<and> tiles (a + NumberOfRows l) ls b)"

lemma tiles_snoc: "tiles a (ls @ [l]) b \<longleftrightarrow> (\<exists>c. tiles a ls c \<and> Id l = sint c \<and> b = c + NumberOfRows l)"
  by (induction ls arbitrary: a) auto

lemma logs_append [simp]: "logs (xs @ ys) = logs xs @ logs ys"
  by (simp add: logs_def)

definition report_inv :: "FlowMessage list \<Rightarrow> bool \<Rightarrow> bool" where
  "report_inv ms sent \<longleftrightarrow> length (filter final ms) \<le> 1 \<and> (sent \<or> filter final ms = [])"

definition log_inv :: "FlowMessage list \<Rightarrow> bytes \<Rightarrow> u64 \<Rightarrow> u64 \<Rightarrow> bool" where
  "log_inv ms buf n next_id \<longleftrightarrow> tiles 0 (logs ms) next_id \<and> (buf = [] \<longrightarrow> n = 0)"

definition flow_inv :: "FlowContext \<Rightarrow> bool" where
  "flow_inv c \<longleftrightarrow> report_inv (offered c) (final_stats_sent c) \<and>
     log_inv (offered c) (log_messages c) (log_message_count c) (log_messages_id c)"

lemma flow_inv_new: "flow_inv (newFlowContext a b sid r)"
  by (simp add: flow_inv_def newFlowContext_def report_inv_def log_inv_def logs_def Let_def)

lemma flow_inv_offer:
  assumes "flow_inv c" and "log_message m = None" and "\<not> final m"
  shows "flow_inv (offer m c)"
  using assms by (simp add: flow_inv_def offer_def report_inv_def log_inv_def logs_def)

lemma flow_inv_addLog:
  assumes "flow_inv c" and "row level msg \<noteq> []"
  shows "flow_inv (addLogMessage row level msg c)"
  using assms by (simp add: flow_inv_def addLogMessage_def log_inv_def)

lemma flow_inv_log_offer:
  assumes "flow_inv c" and "log_message m = Some l" and "flow_stats m = None" and "Id l = sint (log_messages_id c)"
    and "buf = [] \<longrightarrow> n = 0"
  shows "flow_inv (offer m (c\<lparr>log_messages := buf, log_message_count := n,
    log_messages_id := log_messages_id c + NumberOfRows l\<rparr>))"
  using assms by (auto simp: flow_inv_def offer_def report_inv_def log_inv_def logs_def final_def tiles_snoc)

lemma flow_inv_flush: "flow_inv c \<Longrightarrow> flow_inv (flushLogMessages c)"
proof (cases "log_messages c = []")
  case True
  assume "flow_inv c"
  then show ?thesis
    using True by (simp add: flow_inv_def flushLogMessages_def getLogMessages_def log_inv_def Let_def)
next
  case False
  assume "flow_inv c"
  from flow_inv_log_offer [OF this, of "(empty_message (flow_id c))\<lparr>log_message :=
      Some \<lparr>Id = sint (log_messages_id c), NumberOfRows = log_message_count c, Jsonl = log_messages c,
        LogError = error_message c, Level = []\<rparr>\<rparr>" _ "[]" 0]
  show ?thesis
    using False by (simp add: flushLogMessages_def getLogMessages_def empty_message_def Let_def flow_inv_def offer_def)
qed

lemma flow_inv_alert: "flow_inv c \<Longrightarrow> flow_inv (sendAlertMessage row level msg c)"
  using flow_inv_log_offer [of c "(empty_message (flow_id c))\<lparr>log_message :=
      Some \<lparr>Id = sint (log_messages_id c), NumberOfRows = 1, Jsonl = row level msg, LogError = [], Level = ALERT\<rparr>\<rparr>"
      _ "log_messages c" "log_message_count c"]
  by (simp add: sendAlertMessage_def empty_message_def Let_def flow_inv_def log_inv_def)

lemma getStats_sel:
  assumes "getStats now c = (c', m)"
  shows "offered c' = offered c" "log_messages c' = log_messages c" "log_message_count c' = log_message_count c"
    "log_messages_id c' = log_messages_id c" "final_stats_sent c' = (final_stats_sent c \<or> final m)"
    "log_message m = None"
  using assms by (auto simp: getStats_def Let_def final_def empty_message_def split: if_splits)

lemma flow_inv_getStats: "flow_inv c \<Longrightarrow> flow_inv (fst (getStats now c))"
  using getStats_sel [of now c "fst (getStats now c)" "snd (getStats now c)"]
  by (auto simp: flow_inv_def report_inv_def)

lemma flow_inv_report:
  assumes "flow_inv c" and "\<not> final_stats_sent c" and "getStats now c = (c', m)"
  shows "flow_inv (offer m c')"
  using assms getStats_sel [OF assms(3)]
  by (auto simp: flow_inv_def offer_def report_inv_def log_inv_def logs_def)

lemma flow_inv_sendStats: "flow_inv c \<Longrightarrow> flow_inv (sendStats now c)"
  using flow_inv_report by (auto simp: sendStats_def split: prod.splits)

lemma flow_inv_irrelevant [simp]:
  "flow_inv (c\<lparr>responders := rs\<rparr>) = flow_inv c"
  "flow_inv (c\<lparr>ctx_done := d\<rparr>) = flow_inv c"
  "flow_inv (c\<lparr>total_rows := n\<rparr>) = flow_inv c"
  "flow_inv (c\<lparr>total_uploaded_bytes := n\<rparr>) = flow_inv c"
  "flow_inv (c\<lparr>total_jsonl_bytes := f\<rparr>) = flow_inv c"
  "flow_inv (c\<lparr>total_logs := n\<rparr>) = flow_inv c"
  "flow_inv (c\<lparr>logs_disabled := d\<rparr>) = flow_inv c"
  "flow_inv (c\<lparr>last_stats_timestamp := n\<rparr>) = flow_inv c"
  by (simp_all add: flow_inv_def)

lemma flow_inv_on_responder [simp]: "flow_inv (on_responder i f c) = flow_inv c"
  by (simp add: on_responder_def)

lemma flow_inv_Close: "flow_inv c \<Longrightarrow> flow_inv (context_Close now c)"
  by (simp add: context_Close_def flow_inv_flush flow_inv_sendStats)

lemma flow_inv_Cancel: "flow_inv c \<Longrightarrow> (\<And>l m. row l m \<noteq> []) \<Longrightarrow> flow_inv (context_Cancel row now c)"
  by (simp add: context_Cancel_def cancel_queries_def Let_def flow_inv_Close flow_inv_addLog)

lemma flow_inv_charges:
  assumes "flow_inv c" and "\<And>l m. row l m \<noteq> []"
  shows "flow_inv (charge_file row stack now i f c)" "flow_inv (charge_response row stack now i v c)"
  using assms by (auto simp: charge_file_def charge_response_def ChargeBytes_def ChargeRows_def ChargeJSONLBytes_def
      exceeded_def flow_inv_Cancel Let_def)

lemma flow_inv_AddResponse:
  assumes "flow_inv c" and "\<And>l m. row l m \<noteq> []" and "AddResponse row compress stack now i m c = Ok c'"
    and "log_message m = None" and "flow_stats m = None"
  shows "flow_inv c'"
  using assms by (auto simp: AddResponse_def Let_def final_def flow_inv_charges
      intro!: flow_inv_offer split: sum.splits option.splits)

lemma flow_inv_AddLog: "flow_inv c \<Longrightarrow> (\<And>l m. row l m \<noteq> []) \<Longrightarrow> flow_inv (AddLogMessage row level msg c)"
  by (simp add: AddLogMessage_def Let_def flow_inv_alert flow_inv_addLog)

lemma flow_inv_turn: "flow_inv c \<Longrightarrow> flow_inv (report_turn now c)"
proof -
  assume inv: "flow_inv c"
  obtain c1 m where g: "getStats now (c\<lparr>last_stats_timestamp := now\<rparr>) = (c1, m)"
    by fastforce
  show ?thesis
    using inv flow_inv_report [of "c\<lparr>last_stats_timestamp := now\<rparr>", OF _ _ g]
    by (auto simp: report_turn_def MaybeSendStats_def g flow_inv_flush)
qed

lemma flow_inv_step: "flow_inv c \<Longrightarrow> (\<And>l m. row l m \<noteq> []) \<Longrightarrow> flow_inv (flow_step row compress stack op c)"
proof (induction row compress stack op c rule: flow_step.induct)
  case (2 row compress stack now i m c)
  then show ?case
    using flow_inv_AddResponse [of c row compress stack now i m] by (auto split: sum.splits)
qed (auto simp: NewResponder_def Log_def Let_def flow_inv_AddLog flow_inv_Cancel flow_inv_Close flow_inv_turn
    GetStats_def flow_inv_getStats)

lemma flow_inv_run:
  assumes "\<And>l m. row l m \<noteq> []"
  shows "flow_inv (fold (flow_step row compress stack) ops (newFlowContext a b sid r))"
  using flow_inv_new flow_inv_step [OF _ assms]
  by (induction ops rule: rev_induct) auto

text \<open>C20: However its queries run, fail, are cancelled and report, a flow offers its final report
  at most once.\<close>

theorem final_report_once:
  assumes "\<And>level msg. row level msg \<noteq> []"
  shows "length (filter final (offered (fold (flow_step row compress stack) ops (newFlowContext a b sid r)))) \<le> 1"
  using flow_inv_run [OF assms] by (simp add: flow_inv_def report_inv_def)

theorem final_report_once_witness:
  "length (filter final (offered (fold (flow_step (\<lambda>l m. [1]) Some [])
     [(0, OpNewResponder (\<lambda>_. False)), (1, OpReturn 0), (2, OpReport), (3, OpCancel), (4, OpReport)]
     (newFlowContext 0 0 ''F.1'' \<lparr>MaxRows = 0, MaxUploadBytes = 0, MaxLogs = 0, Compression_ZLIB = False\<rparr>)))) \<le> 1"
  by (rule final_report_once) simp



section \<open>Limits\<close>

definition cancelled :: "FlowContext \<Rightarrow> bool" where
  "cancelled c \<longleftrightarrow> ctx_done c \<and> isFlowComplete c \<and>
     (\<forall>r \<in> set (responders c). completed r \<and> Status (status r) = GENERIC_ERROR \<and> ErrorMessage (status r) \<noteq> [])"

lemma all_complete_iff: "all_complete rs = list_all completed rs"
  by (induction rs) auto

lemma responder_Cancel_sel:
  "completed (responder_Cancel r)" "Status (status (responder_Cancel r)) = GENERIC_ERROR"
  "ErrorMessage (status (responder_Cancel r)) \<noteq> []"
  by (auto simp: responder_Cancel_def Let_def)

lemma getStats_completed:
  "list_all completed (responders c) \<Longrightarrow> responders (fst (getStats now c)) = responders c"
  by (auto simp: getStats_def Let_def GetStatus_def list_all_iff intro!: map_idI)

lemma close_responders:
  assumes "list_all completed (responders c)"
  shows "responders (context_Close now c) = responders c" "ctx_done (context_Close now c)"
    "total_rows (context_Close now c) = total_rows c" "req (context_Close now c) = req c"
    "total_uploaded_bytes (context_Close now c) = total_uploaded_bytes c" "flow_id (context_Close now c) = flow_id c"
proof -
  define c1 where "c1 = flushLogMessages c"
  have c1: "responders c1 = responders c" "total_rows c1 = total_rows c" "req c1 = req c"
    "total_uploaded_bytes c1 = total_uploaded_bytes c" "flow_id c1 = flow_id c"
    by (simp_all add: c1_def flushLogMessages_def getLogMessages_def offer_def Let_def)
  have "responders (sendStats now c1) = responders c1" "total_rows (sendStats now c1) = total_rows c1"
    "req (sendStats now c1) = req c1" "total_uploaded_bytes (sendStats now c1) = total_uploaded_bytes c1"
    "flow_id (sendStats now c1) = flow_id c1"
    using getStats_completed [of c1 now] assms c1(1)
    by (auto simp: sendStats_def offer_def split: prod.splits) (auto simp: getStats_def Let_def split: if_splits)
  then show "responders (context_Close now c) = responders c" "ctx_done (context_Close now c)"
    "total_rows (context_Close now c) = total_rows c" "req (context_Close now c) = req c"
    "total_uploaded_bytes (context_Close now c) = total_uploaded_bytes c" "flow_id (context_Close now c) = flow_id c"
    using c1 by (simp_all add: context_Close_def c1_def)
qed

lemma exceeded_cancels:
  assumes "responders c \<noteq> []"
  shows "cancelled (exceeded row stack now i msg c)"
    "total_rows (exceeded row stack now i msg c) = total_rows c" "req (exceeded row stack now i msg c) = req c"
    "total_uploaded_bytes (exceeded row stack now i msg c) = total_uploaded_bytes c"
    "length (responders (exceeded row stack now i msg c)) = length (responders c)"
proof -
  define c1 where "c1 = on_responder i (RaiseError stack msg) c"
  define c2 where "c2 = addLogMessage row ERROR (''Cancelled all in-flight queries for flow '' @ flow_id c1)
    (c1\<lparr>responders := map responder_Cancel (responders c1)\<rparr>)"
  have c2: "responders c2 = map responder_Cancel (responders c1)" "total_rows c2 = total_rows c" "req c2 = req c"
    "total_uploaded_bytes c2 = total_uploaded_bytes c" "length (responders c1) = length (responders c)"
    by (simp_all add: c2_def c1_def addLogMessage_def on_responder_def)
  have compl: "list_all completed (responders c2)"
    by (simp add: c2(1) list_all_iff responder_Cancel_sel)
  have eq: "exceeded row stack now i msg c = context_Close now c2"
    by (simp add: exceeded_def context_Cancel_def cancel_queries_def c1_def c2_def Let_def)
  have "responders c1 \<noteq> []"
    using assms c2(5) by auto
  then show "cancelled (exceeded row stack now i msg c)"
    unfolding eq cancelled_def isFlowComplete_def close_responders(1) [OF compl]
    using compl c2(1) close_responders(2) [OF compl] by (auto simp: all_complete_iff responder_Cancel_sel)
  show "total_rows (exceeded row stack now i msg c) = total_rows c" "req (exceeded row stack now i msg c) = req c"
    "total_uploaded_bytes (exceeded row stack now i msg c) = total_uploaded_bytes c"
    "length (responders (exceeded row stack now i msg c)) = length (responders c)"
    unfolding eq close_responders [OF compl] using c2 by simp_all
qed

definition over_rows :: "FlowMessage \<Rightarrow> FlowContext \<Rightarrow> bool" where
  "over_rows m c \<longleftrightarrow> vql_response m \<noteq> None \<and> MaxRows (req c) > 0 \<and> total_rows c > MaxRows (req c)"

definition over_bytes :: "FlowMessage \<Rightarrow> FlowContext \<Rightarrow> bool" where
  "over_bytes m c \<longleftrightarrow> file_buffer m \<noteq> None \<and> MaxUploadBytes (req c) > 0 \<and>
     total_uploaded_bytes c > MaxUploadBytes (req c)"

definition rows_of :: "FlowMessage \<Rightarrow> u64" where
  "rows_of m = (case vql_response m of Some v \<Rightarrow> TotalRows v | None \<Rightarrow> 0)"

definition bytes_of :: "FlowMessage \<Rightarrow> u64" where
  "bytes_of m = (case file_buffer m of Some f \<Rightarrow> DataLength f | None \<Rightarrow> 0)"

text \<open>Charging changes the totals, and cancels the flow when it exceeds a limit.\<close>

lemma charge_file_cases:
  assumes "c1 = c\<lparr>total_uploaded_bytes := total_uploaded_bytes c + DataLength f\<rparr>"
  shows "charge_file row stack now i f c =
    (if MaxUploadBytes (req c) > 0 \<and> total_uploaded_bytes c1 > MaxUploadBytes (req c)
     then exceeded row stack now i (limit_error ''Upload bytes'' (total_uploaded_bytes c1) (MaxUploadBytes (req c)) c1) c1
     else c1)"
  by (simp add: charge_file_def ChargeBytes_def assms Let_def)

lemma charge_response_cases:
  assumes "c1 = (ChargeJSONLBytes (case Query v of Some n \<Rightarrow> n | None \<Rightarrow> []) (of_nat (length (JSONLResponse v))) c)
    \<lparr>total_rows := total_rows c + TotalRows v\<rparr>"
  shows "charge_response row stack now i v c =
    (if MaxRows (req c) > 0 \<and> total_rows c1 > MaxRows (req c)
     then exceeded row stack now i (limit_error ''Rows'' (total_rows c1) (MaxRows (req c)) c1) c1
     else c1)"
  by (simp add: charge_response_def ChargeRows_def ChargeJSONLBytes_def assms Let_def)

lemma updateStats_sel:
  assumes "updateStats m r = Ok r'"
  shows "completed r' = completed r" "Status (status r') = Status (status r)"
    "ErrorMessage (status r') = ErrorMessage (status r)"
  using assms by (auto simp: updateStats_def Let_def split: option.splits if_splits)

lemma cancelled_cong:
  "ctx_done c' = ctx_done c \<Longrightarrow> responders c' = responders c \<Longrightarrow> cancelled c' = cancelled c"
  by (simp add: cancelled_def isFlowComplete_def)

lemma charge_file_ok:
  assumes "responders c \<noteq> []" and "file_buffer m = Some f" and "c' = charge_file row stack now i f c"
  shows "total_rows c' = total_rows c \<and> req c' = req c \<and> length (responders c') = length (responders c) \<and>
    total_uploaded_bytes c' = total_uploaded_bytes c + bytes_of m \<and>
    (if over_bytes m c' then cancelled c' else responders c' = responders c \<and> ctx_done c' = ctx_done c)"
proof -
  define c1 where "c1 = c\<lparr>total_uploaded_bytes := total_uploaded_bytes c + DataLength f\<rparr>"
  have c1: "responders c1 \<noteq> []" "total_rows c1 = total_rows c" "req c1 = req c" "responders c1 = responders c"
    "ctx_done c1 = ctx_done c" "total_uploaded_bytes c1 = total_uploaded_bytes c + bytes_of m"
    using assms by (simp_all add: c1_def bytes_of_def)
  note eq = charge_file_cases [OF c1_def, of row stack now i, folded assms(3)]
  show ?thesis
  proof (cases "MaxUploadBytes (req c) > 0 \<and> total_uploaded_bytes c1 > MaxUploadBytes (req c)")
    case True
    then show ?thesis
      using eq exceeded_cancels [OF c1(1)] c1 assms(2) by (simp add: over_bytes_def)
  next
    case False
    then show ?thesis
      using eq c1 assms(2) by (auto simp: over_bytes_def)
  qed
qed

lemma charge_response_ok:
  assumes "responders c \<noteq> []" and "vql_response m = Some v" and "v' = v" and "c' = charge_response row stack now i v' c"
  shows "total_rows c' = total_rows c + rows_of m \<and> req c' = req c \<and> length (responders c') = length (responders c) \<and>
    total_uploaded_bytes c' = total_uploaded_bytes c \<and>
    (if over_rows m c' then cancelled c' else responders c' = responders c \<and> ctx_done c' = ctx_done c)"
proof -
  define c1 where "c1 = (ChargeJSONLBytes (case Query v of Some n \<Rightarrow> n | None \<Rightarrow> []) (of_nat (length (JSONLResponse v))) c)
    \<lparr>total_rows := total_rows c + TotalRows v\<rparr>"
  have c1: "responders c1 \<noteq> []" "total_uploaded_bytes c1 = total_uploaded_bytes c" "req c1 = req c"
    "responders c1 = responders c" "ctx_done c1 = ctx_done c" "total_rows c1 = total_rows c + rows_of m"
    using assms by (simp_all add: c1_def rows_of_def ChargeJSONLBytes_def)
  note eq = charge_response_cases [OF c1_def, of row stack now i]
  show ?thesis
  proof (cases "MaxRows (req c) > 0 \<and> total_rows c1 > MaxRows (req c)")
    case True
    then show ?thesis
      using eq exceeded_cancels [OF c1(1)] c1 assms(2-4) by (simp add: over_rows_def)
  next
    case False
    then show ?thesis
      using eq c1 assms(2-4) by (auto simp: over_rows_def)
  qed
qed

text \<open>The two stages of \<^verbatim>\<open>AddResponse\<close> after the statistics are updated.\<close>

definition file_stage where
  "file_stage row compress stack now i m c =
     (case file_buffer m of None \<Rightarrow> c
      | Some f \<Rightarrow> charge_file row stack now i (compress_file compress (Compression_ZLIB (req c)) f) c)"

definition response_stage where
  "response_stage row stack now i m c =
     (case vql_response m of None \<Rightarrow> c | Some v \<Rightarrow> charge_response row stack now i v c)"

lemma AddResponse_stages:
  assumes "AddResponse row compress stack now i m c = Ok c'" and "updateStats m (responders c ! i) = Ok r"
  shows "\<exists>m'. c' = offer m' (response_stage row stack now i m
    (file_stage row compress stack now i m (on_responder i (\<lambda>_. r) c)))"
proof -
  have "\<exists>m'. AddResponse row compress stack now i m c = Ok (offer m' (response_stage row stack now i m
      (file_stage row compress stack now i m (on_responder i (\<lambda>_. r) c))))"
    unfolding AddResponse_def file_stage_def response_stage_def assms(2)
    by (cases "file_buffer m"; cases "vql_response m"; simp add: Let_def; rule exI; rule refl)
  then show ?thesis
    unfolding assms(1) by simp
qed

lemma DataLength_compress [simp]: "DataLength (compress_file compress z f) = DataLength f"
  by (simp add: compress_file_def split: option.splits)

lemma file_stage_ok:
  assumes "responders c \<noteq> []" and "c' = file_stage row compress stack now i m c"
  shows "total_rows c' = total_rows c" "req c' = req c" "length (responders c') = length (responders c)"
    "total_uploaded_bytes c' = total_uploaded_bytes c + bytes_of m"
    "if over_bytes m c' then cancelled c' else responders c' = responders c \<and> ctx_done c' = ctx_done c"
proof -
  have "total_rows c' = total_rows c \<and> req c' = req c \<and> length (responders c') = length (responders c) \<and>
    total_uploaded_bytes c' = total_uploaded_bytes c + bytes_of m \<and>
    (if over_bytes m c' then cancelled c' else responders c' = responders c \<and> ctx_done c' = ctx_done c)"
  proof (cases "file_buffer m")
    case None
    then show ?thesis
      by (simp add: assms(2) file_stage_def bytes_of_def over_bytes_def)
  next
    case (Some f)
    define f' where "f' = compress_file compress (Compression_ZLIB (req c)) f"
    have "c' = charge_file row stack now i f' c"
      using Some by (simp add: assms(2) file_stage_def f'_def)
    from charge_file_ok [OF assms(1) _ this, of "m\<lparr>file_buffer := Some f'\<rparr>"] show ?thesis
      using Some by (simp add: bytes_of_def over_bytes_def f'_def)
  qed
  then show "total_rows c' = total_rows c" "req c' = req c" "length (responders c') = length (responders c)"
    "total_uploaded_bytes c' = total_uploaded_bytes c + bytes_of m"
    "if over_bytes m c' then cancelled c' else responders c' = responders c \<and> ctx_done c' = ctx_done c"
    by blast+
qed

lemma response_stage_ok:
  assumes "responders c \<noteq> []" and "c' = response_stage row stack now i m c"
  shows "total_rows c' = total_rows c + rows_of m" "req c' = req c" "length (responders c') = length (responders c)"
    "total_uploaded_bytes c' = total_uploaded_bytes c"
    "if over_rows m c' then cancelled c' else responders c' = responders c \<and> ctx_done c' = ctx_done c"
proof -
  have "total_rows c' = total_rows c + rows_of m \<and> req c' = req c \<and> length (responders c') = length (responders c) \<and>
    total_uploaded_bytes c' = total_uploaded_bytes c \<and>
    (if over_rows m c' then cancelled c' else responders c' = responders c \<and> ctx_done c' = ctx_done c)"
  proof (cases "vql_response m")
    case None
    then show ?thesis
      by (simp add: assms(2) response_stage_def rows_of_def over_rows_def)
  next
    case (Some v)
    then have "c' = charge_response row stack now i v c"
      by (simp add: assms(2) response_stage_def)
    then show ?thesis
      by (rule charge_response_ok [OF assms(1) Some refl])
  qed
  then show "total_rows c' = total_rows c + rows_of m" "req c' = req c" "length (responders c') = length (responders c)"
    "total_uploaded_bytes c' = total_uploaded_bytes c"
    "if over_rows m c' then cancelled c' else responders c' = responders c \<and> ctx_done c' = ctx_done c"
    by blast+
qed



end
