(* ===== verification/Lru_Cache.thy ===== *)
theory Lru_Cache
  imports Cache_Spec
begin

text \<open>
  The cache with a capacity, \<^verbatim>\<open>third_party/cache/lru_cache.go\<close>, in which the client keeps its
  finished flows. The capacity bounds the sum of the sizes of the values; \<open>vs\<close> gives the size
  of a value (1 for values without a \<^verbatim>\<open>Size\<close> method), and sizes are unbounded integers. The list of entries starts with the
  most recently used one; the table of list elements is the set of its keys. \<open>released\<close> records
  the values removed, whose \<^verbatim>\<open>Close\<close> method is called if they have one: after the entry is
  gone, with the lock released. Access times, which only the statistics report, are left
  out.
\<close>

section \<open>Definitions\<close>

record 'v entry =
  entry_key :: string
  entry_value :: 'v
  entry_size :: int

record 'v LRUCache =
  entries :: "'v entry list"
  table :: "string set"
  cache_size :: int
  capacity :: int
  evictions :: int
  hits :: int
  misses :: int
  released :: "'v list"

definition NewLRUCache :: "int \<Rightarrow> 'v LRUCache" where
  "NewLRUCache cap = \<lparr>entries = [], table = {}, cache_size = 0, capacity = cap, evictions = 0, hits = 0,
     misses = 0, released = []\<rparr>"

text \<open>The entry of the list element a key maps to.\<close>

definition find_entry :: "string \<Rightarrow> 'v LRUCache \<Rightarrow> 'v entry option" where
  "find_entry key lru = (if key \<in> table lru then find (\<lambda>e. entry_key e = key) (entries lru) else None)"

definition moveToFront :: "'v entry \<Rightarrow> 'v LRUCache \<Rightarrow> 'v LRUCache" where
  "moveToFront e lru = lru\<lparr>entries := e # filter (\<lambda>x. entry_key x \<noteq> entry_key e) (entries lru)\<rparr>"

definition Get :: "string \<Rightarrow> 'v LRUCache \<Rightarrow> 'v LRUCache \<times> 'v option" where
  "Get key lru =
     (case find_entry key lru of
        None \<Rightarrow> (lru\<lparr>misses := misses lru + 1\<rparr>, None)
      | Some e \<Rightarrow> (moveToFront e (lru\<lparr>hits := hits lru + 1\<rparr>), Some (entry_value e)))"

definition Peek :: "string \<Rightarrow> 'v LRUCache \<Rightarrow> 'v option" where
  "Peek key lru = map_option entry_value (find_entry key lru)"

text \<open>\<^verbatim>\<open>checkCapacity\<close> evicts from the back; it would dereference nil on an empty list.\<close>

function checkCapacity :: "'v LRUCache \<Rightarrow> 'v LRUCache result" where
  "checkCapacity lru =
     (if \<not> cache_size lru > capacity lru then Ok lru
      else if entries lru = [] then Err (Panic ''nil element'')
      else (let e = last (entries lru)
            in checkCapacity (lru\<lparr>entries := butlast (entries lru), table := table lru - {entry_key e},
                 cache_size := cache_size lru - entry_size e, evictions := evictions lru + 1,
                 released := released lru @ [entry_value e]\<rparr>)))"
  by pat_completeness auto
termination
  by (relation "measure (\<lambda>lru. length (entries lru))") auto

declare checkCapacity.simps [simp del]

definition updateInplace :: "('v \<Rightarrow> int) \<Rightarrow> 'v entry \<Rightarrow> 'v \<Rightarrow> 'v LRUCache \<Rightarrow> 'v LRUCache result" where
  "updateInplace vs element v lru =
     (let sizeDiff = vs v - entry_size element
      in checkCapacity (moveToFront (element\<lparr>entry_value := v, entry_size := vs v\<rparr>)
           (lru\<lparr>cache_size := cache_size lru + sizeDiff\<rparr>)))"

definition addNew :: "('v \<Rightarrow> int) \<Rightarrow> string \<Rightarrow> 'v \<Rightarrow> 'v LRUCache \<Rightarrow> 'v LRUCache result" where
  "addNew vs key v lru =
     (let newEntry = \<lparr>entry_key = key, entry_value = v, entry_size = vs v\<rparr>
      in checkCapacity (lru\<lparr>entries := newEntry # entries lru, table := insert key (table lru),
           cache_size := cache_size lru + entry_size newEntry\<rparr>))"

definition Set :: "('v \<Rightarrow> int) \<Rightarrow> string \<Rightarrow> 'v \<Rightarrow> 'v LRUCache \<Rightarrow> 'v LRUCache result" where
  "Set vs key v lru =
     (case find_entry key lru of
        Some element \<Rightarrow> updateInplace vs element v lru
      | None \<Rightarrow> addNew vs key v lru)"

definition SetIfAbsent :: "('v \<Rightarrow> int) \<Rightarrow> string \<Rightarrow> 'v \<Rightarrow> 'v LRUCache \<Rightarrow> 'v LRUCache result" where
  "SetIfAbsent vs key v lru =
     (case find_entry key lru of
        Some element \<Rightarrow> Ok (moveToFront element lru)
      | None \<Rightarrow> addNew vs key v lru)"

definition Delete :: "string \<Rightarrow> 'v LRUCache \<Rightarrow> 'v LRUCache \<times> bool" where
  "Delete key lru =
     (case find_entry key lru of
        None \<Rightarrow> (lru, False)
      | Some e \<Rightarrow>
          (lru\<lparr>entries := filter (\<lambda>x. entry_key x \<noteq> entry_key e) (entries lru), table := table lru - {key},
               cache_size := cache_size lru - entry_size e, released := released lru @ [entry_value e]\<rparr>, True))"

definition Clear :: "'v LRUCache \<Rightarrow> 'v LRUCache" where
  "Clear lru = lru\<lparr>entries := [], table := {}, cache_size := 0, hits := 0, misses := 0, evictions := 0\<rparr>"

definition SetCapacity :: "int \<Rightarrow> 'v LRUCache \<Rightarrow> 'v LRUCache result" where
  "SetCapacity cap lru = checkCapacity (lru\<lparr>capacity := cap\<rparr>)"

definition Length :: "'v LRUCache \<Rightarrow> nat" where
  "Length lru = length (entries lru)"

definition Keys :: "'v LRUCache \<Rightarrow> string list" where
  "Keys lru = map entry_key (entries lru)"

definition Items :: "'v LRUCache \<Rightarrow> (string \<times> 'v) list" where
  "Items lru = map (\<lambda>e. (entry_key e, entry_value e)) (entries lru)"

section \<open>The invariant\<close>

text \<open>The table agrees with the list, the size is the sum of the sizes; the size of an entry is
  that of its value.\<close>

definition consistent :: "('v \<Rightarrow> int) \<Rightarrow> 'v LRUCache \<Rightarrow> bool" where
  "consistent vs lru \<longleftrightarrow> distinct (map entry_key (entries lru)) \<and> table lru = set (map entry_key (entries lru)) \<and>
     cache_size lru = sum_list (map entry_size (entries lru)) \<and>
     list_all (\<lambda>e. entry_size e = vs (entry_value e)) (entries lru)"

definition cache_ok :: "('v \<Rightarrow> int) \<Rightarrow> 'v LRUCache \<Rightarrow> bool" where
  "cache_ok vs lru \<longleftrightarrow> consistent vs lru \<and> 0 \<le> capacity lru \<and> cache_size lru \<le> capacity lru"

definition cached :: "'v LRUCache \<Rightarrow> string \<Rightarrow> 'v option" where
  "cached lru key = Peek key lru"

lemma find_distinct:
  "distinct (map f xs) \<Longrightarrow> (find (\<lambda>x. f x = k) xs = Some e) = (e \<in> set xs \<and> f e = k)"
  by (induction xs) (auto split: if_splits)

lemma find_entry_Some:
  assumes "consistent vs lru"
  shows "find_entry key lru = Some e \<longleftrightarrow> e \<in> set (entries lru) \<and> entry_key e = key"
  using assms find_distinct [of entry_key "entries lru" key e] by (auto simp: consistent_def find_entry_def)

lemma cached_Some:
  assumes "consistent vs lru"
  shows "cached lru key = Some v \<longleftrightarrow> (\<exists>e \<in> set (entries lru). entry_key e = key \<and> entry_value e = v)"
  using find_entry_Some [OF assms] by (auto simp: cached_def Peek_def)

lemma find_entry_None:
  assumes "consistent vs lru"
  shows "find_entry key lru = None \<longleftrightarrow> key \<notin> table lru"
proof (cases "find_entry key lru")
  case None
  then show ?thesis
    using find_entry_Some [OF assms, of key] assms by (auto simp: consistent_def)
next
  case (Some e)
  then show ?thesis
    using find_entry_Some [OF assms, of key e] assms by (auto simp: consistent_def)
qed

lemma checkCapacity_ok:
  assumes "consistent vs lru" and "0 \<le> capacity lru"
  shows "\<exists>lru'. checkCapacity lru = Ok lru' \<and> cache_ok vs lru' \<and> capacity lru' = capacity lru \<and>
    (\<exists>n. entries lru' = take n (entries lru))"
  using assms
proof (induction lru rule: checkCapacity.induct)
  case (1 lru)
  show ?case
  proof (cases "cache_size lru > capacity lru")
    case False
    then show ?thesis
      using 1 by (simp add: checkCapacity.simps cache_ok_def exI [of _ "length (entries lru)"])
  next
    case True
    then have ne: "entries lru \<noteq> []"
      using 1(2,3) by (auto simp: consistent_def)
    define e where "e = last (entries lru)"
    define l1 where "l1 = lru\<lparr>entries := butlast (entries lru), table := table lru - {entry_key e},
      cache_size := cache_size lru - entry_size e, evictions := evictions lru + 1, released := released lru @ [entry_value e]\<rparr>"
    have "consistent vs l1" "0 \<le> capacity l1"
    proof -
      have es: "entries lru = butlast (entries lru) @ [e]"
        using ne by (simp add: e_def)
      obtain bs where bs: "entries lru = bs @ [e]"
        using es by blast
      show "consistent vs l1"
        using 1(2) unfolding l1_def consistent_def bs by auto
      show "0 \<le> capacity l1"
        using 1(3) by (simp add: l1_def)
    qed
    then obtain lru' n where "checkCapacity l1 = Ok lru'" "cache_ok vs lru'" "capacity lru' = capacity l1"
      "entries lru' = take n (entries l1)"
      using 1(1) [OF _ ne e_def, folded l1_def] True by auto
    moreover have "checkCapacity lru = checkCapacity l1"
      using True ne by (subst checkCapacity.simps) (simp add: l1_def e_def Let_def)
    ultimately show ?thesis
      by (auto simp: l1_def butlast_conv_take)
  qed
qed

lemma filter_other_key:
  assumes "distinct (map f xs)" and "e \<in> set xs"
  shows "sum_list (map g xs) = (g e :: int) + sum_list (map g (filter (\<lambda>x. f x \<noteq> f e) xs))"
  using assms
proof (induction xs)
  case (Cons x xs)
  show ?case
  proof (cases "x = e")
    case True
    then have "filter (\<lambda>x. f x \<noteq> f e) xs = xs"
      using Cons.prems by (intro filter_True) (metis distinct.simps(2) image_eqI image_set list.simps(9))
    then show ?thesis
      using True by simp
  next
    case False
    then have "f x \<noteq> f e" "e \<in> set xs"
      using Cons.prems by auto
    then show ?thesis
      using Cons by simp
  qed
qed simp

lemma moveToFront_consistent:
  assumes "consistent vs lru" and "e \<in> set (entries lru)" and "entry_key e' = entry_key e"
    and "entry_size e' = vs (entry_value e')"
  shows "consistent vs (moveToFront e' (lru\<lparr>cache_size := cache_size lru + (entry_size e' - entry_size e)\<rparr>))"
proof -
  have d: "distinct (map entry_key (entries lru))"
    using assms(1) by (simp add: consistent_def)
  show ?thesis
    using assms filter_other_key [OF d assms(2), of entry_size]
    by (auto simp: consistent_def moveToFront_def distinct_map_filter list_all_iff)
qed

lemma moveToFront_hit:
  assumes "consistent vs lru" and "e \<in> set (entries lru)"
  shows "consistent vs (moveToFront e lru)"
proof -
  have "entry_size e = vs (entry_value e)"
    using assms by (auto simp: consistent_def list_all_iff)
  then show ?thesis
    using moveToFront_consistent [OF assms refl] by simp
qed

lemma moveToFront_cached:
  assumes "consistent vs lru" and "e \<in> set (entries lru)"
  shows "cached (moveToFront e lru) key = cached lru key"
proof -
  have d: "distinct (map entry_key (entries lru))"
    using assms(1) by (simp add: consistent_def)
  have "set (entries (moveToFront e lru)) = set (entries lru)"
    using assms(2) d by (auto simp: moveToFront_def distinct_map dest: inj_onD)
  then show ?thesis
    using cached_Some [OF assms(1), of key] cached_Some [OF moveToFront_hit [OF assms], of key]
    by (metis not_None_eq)
qed

lemma consistent_hits [simp]: "consistent vs (lru\<lparr>hits := n\<rparr>) = consistent vs lru"
  "consistent vs (lru\<lparr>misses := n\<rparr>) = consistent vs lru"
  "consistent vs (lru\<lparr>capacity := n\<rparr>) = consistent vs lru"
  by (simp_all add: consistent_def)

lemma cached_hits [simp]: "cached (lru\<lparr>hits := n\<rparr>) = cached lru" "cached (lru\<lparr>misses := n\<rparr>) = cached lru"
  "cached (lru\<lparr>cache_size := n\<rparr>) = cached lru"
  by (simp_all add: fun_eq_iff cached_def Peek_def find_entry_def)

lemma moveToFront_simps [simp]: "capacity (moveToFront e lru) = capacity lru"
  "cache_size (moveToFront e lru) = cache_size lru"
  by (simp_all add: moveToFront_def)

lemma Get_cached:
  assumes "cache_ok vs lru"
  shows "cache_ok vs (fst (Get key lru))" "snd (Get key lru) = cached lru key"
    "cached (fst (Get key lru)) key' = cached lru key'"
proof -
  have c: "consistent vs lru"
    using assms by (simp add: cache_ok_def)
  show "cache_ok vs (fst (Get key lru))" "cached (fst (Get key lru)) key' = cached lru key'"
    using assms find_entry_Some [OF c, of key] moveToFront_hit [of vs "lru\<lparr>hits := hits lru + 1\<rparr>"]
      moveToFront_cached [of vs "lru\<lparr>hits := hits lru + 1\<rparr>"]
    by (auto simp: Get_def cache_ok_def split: option.splits)
  show "snd (Get key lru) = cached lru key"
    by (simp add: Get_def cached_def Peek_def split: option.splits)
qed

text \<open>What storing a value makes of the contents: others may go, none changes.\<close>

definition stores :: "'v LRUCache \<Rightarrow> string \<Rightarrow> 'v \<Rightarrow> 'v LRUCache \<Rightarrow> bool" where
  "stores old key v lru \<longleftrightarrow>
     (\<forall>k w. cached lru k = Some w \<longrightarrow> (if k = key then w = v else cached old k = Some w))"

text \<open>After the insertion of an entry at the front, and the evictions from the back.\<close>

lemma checkCapacity_front:
  assumes "consistent vs lru" and "0 \<le> capacity lru" and "entries lru = e # es"
    and "\<And>x. x \<in> set es \<Longrightarrow> x \<in> set (entries old)" and "consistent vs old"
  shows "\<exists>lru'. checkCapacity lru = Ok lru' \<and> cache_ok vs lru' \<and> capacity lru' = capacity lru \<and>
    stores old (entry_key e) (entry_value e) lru'"
proof -
  obtain lru' n where l: "checkCapacity lru = Ok lru'" "cache_ok vs lru'" "capacity lru' = capacity lru"
    "entries lru' = take n (entries lru)"
    using checkCapacity_ok [OF assms(1,2)] by blast
  have c: "consistent vs lru'"
    using l(2) by (simp add: cache_ok_def)
  have dist: "entry_key e \<notin> entry_key ` set es"
    using assms(1,3) by (auto simp: consistent_def)
  have "if key = entry_key e then v = entry_value e else cached old key = Some v"
    if hit: "cached lru' key = Some v" for key v
  proof -
    obtain x where x: "x \<in> set (entries lru')" "entry_key x = key" "entry_value x = v"
      using cached_Some [OF c, of key v] hit by blast
    then have "x = e \<or> x \<in> set es"
      using l(4) assms(3) in_set_takeD [of x n "e # es"] by simp
    moreover have "entry_key x \<noteq> entry_key e" if "x \<in> set es"
      using dist that by (metis image_eqI)
    ultimately show ?thesis
      using x assms(4) cached_Some [OF assms(5), of key v] by auto
  qed
  then show ?thesis
    using l by (auto simp: stores_def)
qed

lemma addNew_ok:
  assumes "cache_ok vs lru" and "find_entry key lru = None"
  shows "\<exists>lru'. addNew vs key v lru = Ok lru' \<and> cache_ok vs lru' \<and> capacity lru' = capacity lru \<and> stores lru key v lru'"
proof -
  have c: "consistent vs lru" "0 \<le> capacity lru"
    using assms(1) by (simp_all add: cache_ok_def)
  let ?e = "\<lparr>entry_key = key, entry_value = v, entry_size = vs v\<rparr>"
  let ?l = "lru\<lparr>entries := ?e # entries lru, table := insert key (table lru), cache_size := cache_size lru + entry_size ?e\<rparr>"
  have l: "consistent vs ?l"
    using c(1) find_entry_None [OF c(1), of key] assms(2) by (auto simp: consistent_def)
  show ?thesis
    using checkCapacity_front [OF l _ _ _ c(1), of ?e "entries lru"] c(2) by (simp add: addNew_def)
qed

lemma updateInplace_ok:
  assumes "cache_ok vs lru" and "find_entry key lru = Some e"
  shows "\<exists>lru'. updateInplace vs e v lru = Ok lru' \<and> cache_ok vs lru' \<and> capacity lru' = capacity lru \<and> stores lru key v lru'"
proof -
  have c: "consistent vs lru" "0 \<le> capacity lru"
    using assms(1) by (simp_all add: cache_ok_def)
  have e: "e \<in> set (entries lru)" "entry_key e = key"
    using find_entry_Some [OF c(1)] assms(2) by simp_all
  let ?e = "e\<lparr>entry_value := v, entry_size := vs v\<rparr>"
  let ?l = "moveToFront ?e (lru\<lparr>cache_size := cache_size lru + (entry_size ?e - entry_size e)\<rparr>)"
  have l: "consistent vs ?l"
    by (rule moveToFront_consistent [OF c(1) e(1)]) simp_all
  have "entries ?l = ?e # filter (\<lambda>x. entry_key x \<noteq> key) (entries lru)" "0 \<le> capacity ?l"
    using c(2) e(2) by (simp_all add: moveToFront_def)
  from checkCapacity_front [OF l this(2,1) _ c(1)]
  have "\<exists>lru'. checkCapacity ?l = Ok lru' \<and> cache_ok vs lru' \<and> capacity lru' = capacity lru \<and> stores lru key v lru'"
    using e(2) by simp
  then show ?thesis
    unfolding updateInplace_def Let_def by simp
qed

lemma Set_ok:
  assumes "cache_ok vs lru"
  shows "\<exists>lru'. Set vs key v lru = Ok lru' \<and> cache_ok vs lru' \<and> capacity lru' = capacity lru \<and> stores lru key v lru'"
proof (cases "find_entry key lru")
  case None
  then show ?thesis
    using addNew_ok [OF assms None, of v] by (simp add: Set_def)
next
  case (Some e)
  then show ?thesis
    using updateInplace_ok [OF assms Some, of v] by (simp add: Set_def)
qed

lemma SetIfAbsent_ok:
  assumes "cache_ok vs lru"
  shows "\<exists>lru'. SetIfAbsent vs key v lru = Ok lru' \<and> cache_ok vs lru' \<and> capacity lru' = capacity lru"
proof (cases "find_entry key lru")
  case None
  then show ?thesis
    using addNew_ok [OF assms None, of v] by (auto simp: SetIfAbsent_def)
next
  case (Some e)
  then show ?thesis
    using assms find_entry_Some [of vs lru key e] moveToFront_hit [of vs lru e]
    by (simp add: SetIfAbsent_def cache_ok_def)
qed

lemma SetCapacity_ok:
  assumes "cache_ok vs lru" and "0 \<le> cap"
  shows "\<exists>lru'. SetCapacity cap lru = Ok lru' \<and> cache_ok vs lru' \<and> capacity lru' = cap"
  using checkCapacity_ok [of vs "lru\<lparr>capacity := cap\<rparr>"] assms by (auto simp: SetCapacity_def cache_ok_def)

lemma Clear_ok: "cache_ok vs lru \<Longrightarrow> cache_ok vs (Clear lru)"
  by (simp add: cache_ok_def consistent_def Clear_def)

lemma NewLRUCache_ok: "0 \<le> cap \<Longrightarrow> cache_ok vs (NewLRUCache cap)"
  by (simp add: cache_ok_def consistent_def NewLRUCache_def)

lemma Delete_ok:
  assumes "cache_ok vs lru" and "\<And>v. 0 \<le> vs v"
  shows "cache_ok vs (fst (Delete key lru))"
proof (cases "find_entry key lru")
  case (Some e)
  have c: "consistent vs lru"
    using assms(1) by (simp add: cache_ok_def)
  then have d: "distinct (map entry_key (entries lru))"
    by (simp add: consistent_def)
  have e: "e \<in> set (entries lru)" "entry_key e = key"
    using find_entry_Some [OF c] Some by simp_all
  have "entry_size e = vs (entry_value e)"
    using c e(1) by (simp add: consistent_def list_all_iff)
  then have "0 \<le> entry_size e"
    using assms(2) by simp
  then show ?thesis
    using assms(1) Some e filter_other_key [OF d e(1), of entry_size]
    by (auto simp: Delete_def cache_ok_def consistent_def distinct_map_filter list_all_iff)
qed (use assms in \<open>simp add: Delete_def\<close>)

section \<open>Properties\<close>

datatype 'v cache_call =
    CallGet string
  | CallSet string 'v
  | CallSetIfAbsent string 'v
  | CallDelete string
  | CallClear
  | CallSetCapacity int

fun call_step :: "('v \<Rightarrow> int) \<Rightarrow> 'v cache_call \<Rightarrow> 'v LRUCache \<Rightarrow> 'v LRUCache result" where
  "call_step vs (CallGet k) lru = Ok (fst (Get k lru))"
| "call_step vs (CallSet k v) lru = Set vs k v lru"
| "call_step vs (CallSetIfAbsent k v) lru = SetIfAbsent vs k v lru"
| "call_step vs (CallDelete k) lru = Ok (fst (Delete k lru))"
| "call_step vs CallClear lru = Ok (Clear lru)"
| "call_step vs (CallSetCapacity c) lru = SetCapacity c lru"

fun call_run :: "('v \<Rightarrow> int) \<Rightarrow> 'v cache_call list \<Rightarrow> 'v LRUCache \<Rightarrow> 'v LRUCache result" where
  "call_run vs [] lru = Ok lru"
| "call_run vs (op # ops) lru = (case call_step vs op lru of Err e \<Rightarrow> Err e | Ok lru \<Rightarrow> call_run vs ops lru)"

lemma call_step_bound:
  assumes "cache_ok vs lru" and "\<And>v. 0 \<le> vs v" and "\<And>c. op = CallSetCapacity c \<Longrightarrow> 0 \<le> c"
  shows "\<exists>lru'. call_step vs op lru = Ok lru' \<and> cache_ok vs lru'"
proof (cases op)
  case (CallSet k v)
  then show ?thesis
    using Set_ok [OF assms(1), of k v] by auto
next
  case (CallSetIfAbsent k v)
  then show ?thesis
    using SetIfAbsent_ok [OF assms(1), of k v] by auto
next
  case (CallSetCapacity c)
  then show ?thesis
    using SetCapacity_ok [OF assms(1), of c] assms(3) by auto
qed (use assms(1) Get_cached(1) [OF assms(1)] Delete_ok [OF assms(1,2)] Clear_ok in simp_all)

lemma call_run_ok:
  assumes "cache_ok vs lru" and "\<And>v. 0 \<le> vs v" and "\<forall>c. CallSetCapacity c \<in> set ops \<longrightarrow> 0 \<le> c"
  shows "\<exists>lru'. call_run vs ops lru = Ok lru' \<and> cache_ok vs lru'"
  using assms(1,3)
proof (induction ops arbitrary: lru)
  case (Cons op ops)
  obtain l where "call_step vs op lru = Ok l" "cache_ok vs l"
    using call_step_bound [OF Cons.prems(1) assms(2), of op] Cons.prems(2) by auto
  then show ?case
    using Cons.IH [of l] Cons.prems(2) by simp
qed simp



text \<open>The cache as a map that may forget.\<close>

definition Set_Ok :: "('v \<Rightarrow> int) \<Rightarrow> string \<Rightarrow> 'v \<Rightarrow> 'v LRUCache \<Rightarrow> 'v LRUCache" where
  "Set_Ok vs key v lru = (case Set vs key v lru of Ok lru' \<Rightarrow> lru' | Err _ \<Rightarrow> lru)"

interpretation cc: forgetful_map cached Get "Set_Ok vs" "cache_ok vs" for vs :: "'v \<Rightarrow> int"
proof (unfold_locales, goal_cases)
  case (4 s k v)
  then show ?case
    using Set_ok [OF 4, of k v] by (auto simp: Set_Ok_def)
next
  case (5 s k v k' w)
  then show ?case
    using Set_ok [OF 5(1), of k v] by (auto simp: Set_Ok_def stores_def split: if_splits)
qed (simp_all add: Get_cached)

definition as_calls :: "(string, 'v) cache_op list \<Rightarrow> 'v cache_call list" where
  "as_calls = map (\<lambda>op. case op of CSet k v \<Rightarrow> CallSet k v | CGet k \<Rightarrow> CallGet k)"

lemma cache_run_call_run:
  "cache_ok vs lru \<Longrightarrow> call_run vs (as_calls ops) lru = Ok (cc.cache_run vs ops lru)"
proof (induction ops arbitrary: lru)
  case (Cons op ops)
  show ?case
  proof (cases op)
    case (CSet k v)
    have "Set vs k v lru = Ok (Set_Ok vs k v lru)" "cache_ok vs (Set_Ok vs k v lru)"
      using Set_ok [OF Cons.prems, of k v] by (auto simp: Set_Ok_def)
    then show ?thesis
      using Cons.IH [of "Set_Ok vs k v lru"] CSet by (simp add: as_calls_def)
  next
    case (CGet k)
    then show ?thesis
      using Cons.IH [OF Get_cached(1) [OF Cons.prems]] by (simp add: as_calls_def)
  qed
qed (simp add: as_calls_def)

text \<open>The cache never returns a stale value. After any sets and gets on a new cache a
  lookup returns the value last set under its key, or misses if the entry was evicted; so
  the flow manager never reports on a previous run of a flow.\<close>

theorem cache_never_stale:
  assumes "0 \<le> cap" and "call_run vs (as_calls ops) (NewLRUCache cap) = Ok lru" and "snd (Get key lru) = Some v"
  shows "stored ops key = Some v"
proof -
  have ok: "cache_ok vs (NewLRUCache cap)" and none: "cached (NewLRUCache cap) k = None" for k :: string
    using NewLRUCache_ok [OF assms(1)] by (simp_all add: cached_def Peek_def find_entry_def NewLRUCache_def)
  have "lru = cc.cache_run vs ops (NewLRUCache cap)"
    using cache_run_call_run [OF ok, of ops] assms(2) by simp
  then have "cache_ok vs lru" "\<forall>k w. cached lru k = Some w \<longrightarrow> stored ops k = Some w"
    using cc.never_stale [OF ok none, of ops] by simp_all
  then show ?thesis
    using assms(3) Get_cached(2) by metis
qed

end
