(* ===== verification/Flow_Manager.thy ===== *)
theory Flow_Manager
  imports Flows Lru_Cache "HOL-Library.Finite_Map"
begin

text \<open>
  The flow manager of the client, \<^verbatim>\<open>responder/flow_manager.go\<close>, and the stat requests of
  \<^verbatim>\<open>executor/stats.go\<close>. The flow contexts are objects that the map of flows in flight, the
  cache of finished flows and the goroutines of the queries share: \<open>contexts\<close> is the store
  of these objects and a pointer is an index in it. A context that leaves the cache is closed,
  and closing it calls the manager again; \<open>run_tasks\<close> runs these calls in their order.
\<close>

section \<open>Definitions\<close>

record FlowManager =
  contexts :: "FlowContext list"
  in_flight :: "(string, nat) fmap"
  finished :: "nat LRUCache"
  cancelled :: "string set"

definition NewFlowManager :: FlowManager where
  "NewFlowManager = \<lparr>contexts = [], in_flight = fmempty, finished = NewLRUCache 20, cancelled = {}\<rparr>"

definition MONITORING_WELL_KNOWN_FLOW :: string where
  "MONITORING_WELL_KNOWN_FLOW = ''F.'' @ ''Monitoring''"

text \<open>The manager without the flow, and the contexts that the cache of finished flows closes.
  A context has no size of its own.\<close>

definition RemoveFlowContext :: "string \<Rightarrow> FlowManager \<Rightarrow> (FlowManager \<times> nat list) result" where
  "RemoveFlowContext fid self =
     (case fmlookup (in_flight self) fid of
        None \<Rightarrow> Ok (self, [])
      | Some flow_context \<Rightarrow>
          (let self = self\<lparr>in_flight := fmdrop fid (in_flight self)\<rparr>
           in case Set (\<lambda>_. 1) fid flow_context (finished self) of
                Err e \<Rightarrow> Err e
              | Ok lru \<Rightarrow> Ok (self\<lparr>finished := lru\<rparr>, drop (length (released (finished self))) (released lru))))"

definition IsCancelled :: "string \<Rightarrow> FlowManager \<Rightarrow> bool" where
  "IsCancelled fid self \<longleftrightarrow> fid \<in> cancelled self"

definition UnCancel :: "string \<Rightarrow> FlowManager \<Rightarrow> FlowManager" where
  "UnCancel fid self = self\<lparr>cancelled := cancelled self - {fid}\<rparr>"

definition on_context :: "nat \<Rightarrow> (FlowContext \<Rightarrow> FlowContext) \<Rightarrow> FlowManager \<Rightarrow> FlowManager" where
  "on_context r f self = self\<lparr>contexts := (contexts self)[r := f (contexts self ! r)]\<rparr>"

text \<open>Closing a context: the removal from the manager, with the contexts closed by it, then
  the last messages of the flow.\<close>

datatype task = CloseContext nat | FinishClose nat

fun task_weight :: "task \<Rightarrow> nat" where
  "task_weight (CloseContext r) = 2"
| "task_weight (FinishClose r) = 1"

lemma RemoveFlowContext_smaller:
  assumes "RemoveFlowContext fid self = Ok (self', rs)"
  shows "fcard (fmdom (in_flight self')) < fcard (fmdom (in_flight self)) \<or> self' = self \<and> rs = []"
proof (cases "fmlookup (in_flight self) fid")
  case (Some c)
  then have "fid |\<in>| fmdom (in_flight self)"
    by (rule fmdomI)
  then have "fcard (fmdom (in_flight self) |-| {|fid|}) < fcard (fmdom (in_flight self))"
    by (rule fcard_fminus1_less)
  then show ?thesis
    using assms Some by (auto simp: RemoveFlowContext_def Let_def split: sum.splits)
qed (use assms in \<open>simp add: RemoveFlowContext_def\<close>)

function run_tasks :: "u64 \<Rightarrow> task list \<Rightarrow> FlowManager \<Rightarrow> FlowManager result" where
  "run_tasks now [] self = Ok self"
| "run_tasks now (FinishClose r # ts) self = run_tasks now ts (on_context r (context_Close now) self)"
| "run_tasks now (CloseContext r # ts) self =
     (case RemoveFlowContext (flow_id (contexts self ! r)) self of
        Err e \<Rightarrow> Err e
      | Ok (self', rs) \<Rightarrow> run_tasks now (map CloseContext rs @ FinishClose r # ts) self')"
  by pat_completeness auto
termination
proof (relation "measures [\<lambda>(now, ts, self). fcard (fmdom (in_flight self)),
    \<lambda>(now, ts, self). sum_list (map task_weight ts)]", goal_cases)
  case (2 now r ts self)
  then show ?case
    by (simp add: on_context_def)
next
  case (3 now r ts self p self' rs)
  then show ?case
    using RemoveFlowContext_smaller [of _ self self' rs] by auto
qed simp

definition Close :: "u64 \<Rightarrow> nat \<Rightarrow> FlowManager \<Rightarrow> FlowManager result" where
  "Close now r self = run_tasks now [CloseContext r] self"

definition Cancel :: "(string \<Rightarrow> string \<Rightarrow> bytes) \<Rightarrow> u64 \<Rightarrow> string \<Rightarrow> FlowManager \<Rightarrow> FlowManager result" where
  "Cancel row now fid self =
     (if fid = MONITORING_WELL_KNOWN_FLOW then Ok self
      else
        (let self = self\<lparr>cancelled := insert fid (cancelled self)\<rparr>
         in case fmlookup (in_flight self) fid of
              None \<Rightarrow> Ok self
            | Some r \<Rightarrow> Close now r (on_context r (cancel_queries row) self)))"

definition manager_Get :: "string \<Rightarrow> FlowManager \<Rightarrow> FlowManager \<times> nat option" where
  "manager_Get fid self =
     (case fmlookup (in_flight self) fid of
        Some r \<Rightarrow> (self, Some r)
      | None \<Rightarrow> (case Get fid (finished self) of (lru, r) \<Rightarrow> (self\<lparr>finished := lru\<rparr>, r)))"

definition manager_FlowContext :: "u64 \<Rightarrow> u64 \<Rightarrow> string \<Rightarrow> FlowRequest \<Rightarrow> FlowManager \<Rightarrow> FlowManager \<times> nat" where
  "manager_FlowContext DefaultServerFlowStatsUpdate FlowUpdateTime fid r self =
     (case fmlookup (in_flight self) fid of
        Some flow_context \<Rightarrow> (self, flow_context)
      | None \<Rightarrow>
          (self\<lparr>contexts := contexts self @ [newFlowContext DefaultServerFlowStatsUpdate FlowUpdateTime fid r],
                in_flight := fmupd fid (length (contexts self)) (in_flight self)\<rparr>,
           length (contexts self)))"

text \<open>A stat request: the messages sent, each with its flag \<^verbatim>\<open>Urgent\<close>.\<close>

definition unknown_status :: VeloStatus where
  "unknown_status = \<lparr>Status = UNKNOWN_FLOW, ErrorMessage = ''Flow not known - maybe the client crashed?'',
     Backtrace = [], Duration = 0, LastActive = 0, FirstActive = 0, NamesWithResponse = [], LogRows = 0,
     UploadedFiles = 0, UploadedBytes = 0, ExpectedUploadedBytes = 0, ResultRows = 0\<rparr>"

definition unknown_flow :: "string \<Rightarrow> FlowMessage" where
  "unknown_flow fid = (empty_message fid)\<lparr>flow_stats :=
     Some \<lparr>TransactionsOutstanding = 0, QueryStatus = [unknown_status], FlowComplete = True\<rparr>\<rparr>"

fun ProcessStatRequest :: "u64 \<Rightarrow> string list \<Rightarrow> FlowManager \<Rightarrow> FlowManager \<times> (FlowMessage \<times> bool) list" where
  "ProcessStatRequest now [] self = (self, [])"
| "ProcessStatRequest now (fid # ids) self =
     (let (self, flow_context) = manager_Get fid self;
          (self, stats) = (case flow_context of
             None \<Rightarrow> (self, unknown_flow fid)
           | Some r \<Rightarrow> (on_context r (\<lambda>c. fst (GetStats now c)) self, snd (GetStats now (contexts self ! r))));
          (self, sent) = ProcessStatRequest now ids self
      in (self, (stats, True) # sent))"

section \<open>Runs of the manager\<close>

text \<open>A step of the goroutine of a query is an operation of \<open>Flows\<close> on its context. Going over a
  limit also closes the context: such a step is followed by \<open>OpCloseContext\<close>.\<close>

datatype manager_op =
    OpFlowContext u64 u64 string FlowRequest
  | OpCloseContext nat
  | OpCancelFlow string
  | OpUnCancel string
  | OpStatRequest "string list"
  | OpWork nat flow_op

fun manager_step ::
  "(string \<Rightarrow> string \<Rightarrow> bytes) \<Rightarrow> (bytes \<Rightarrow> bytes option) \<Rightarrow> string \<Rightarrow> u64 \<times> manager_op \<Rightarrow> FlowManager \<Rightarrow> FlowManager result" where
  "manager_step row compress stack (now, OpFlowContext d f fid r) m = Ok (fst (manager_FlowContext d f fid r m))"
| "manager_step row compress stack (now, OpCloseContext r) m =
     (if r < length (contexts m) then Close now r m else Ok m)"
| "manager_step row compress stack (now, OpCancelFlow fid) m = Cancel row now fid m"
| "manager_step row compress stack (now, OpUnCancel fid) m = Ok (UnCancel fid m)"
| "manager_step row compress stack (now, OpStatRequest ids) m = Ok (fst (ProcessStatRequest now ids m))"
| "manager_step row compress stack (now, OpWork r op) m =
     Ok (if r < length (contexts m) then on_context r (flow_step row compress stack (now, op)) m else m)"

fun manager_run ::
  "(string \<Rightarrow> string \<Rightarrow> bytes) \<Rightarrow> (bytes \<Rightarrow> bytes option) \<Rightarrow> string \<Rightarrow> (u64 \<times> manager_op) list \<Rightarrow> FlowManager \<Rightarrow> FlowManager result" where
  "manager_run row compress stack [] m = Ok m"
| "manager_run row compress stack (op # ops) m =
     (case manager_step row compress stack op m of Err e \<Rightarrow> Err e | Ok m \<Rightarrow> manager_run row compress stack ops m)"

section \<open>The invariant\<close>

text \<open>The pointers of the manager lead to contexts of the flow they are filed under.\<close>

definition points :: "FlowManager \<Rightarrow> string \<Rightarrow> nat \<Rightarrow> bool" where
  "points m fid r \<longleftrightarrow> r < length (contexts m) \<and> flow_id (contexts m ! r) = fid"

definition manager_typed :: "FlowManager \<Rightarrow> bool" where
  "manager_typed m \<longleftrightarrow>
     (\<forall>fid r. fmlookup (in_flight m) fid = Some r \<longrightarrow> points m fid r) \<and>
     (\<forall>fid r. cached (finished m) fid = Some r \<longrightarrow> points m fid r) \<and>
     cache_ok (\<lambda>_. 1) (finished m) \<and> capacity (finished m) = 20"

lemma points_on_context:
  assumes "\<And>c. flow_id (f c) = flow_id c"
  shows "points (on_context r f m) fid r' = points m fid r'"
  using assms by (cases "r = r'") (auto simp: points_def on_context_def nth_list_update)

lemma on_context_simps [simp]:
  "in_flight (on_context r f m) = in_flight m" "finished (on_context r f m) = finished m"
  "cancelled (on_context r f m) = cancelled m" "length (contexts (on_context r f m)) = length (contexts m)"
  by (simp_all add: on_context_def)

lemma on_context_typed:
  assumes "manager_typed m" and "\<And>c. flow_id (f c) = flow_id c"
  shows "manager_typed (on_context r f m)"
  using assms(1) by (simp add: manager_typed_def points_on_context [of f, OF assms(2)])

lemma RemoveFlowContext_typed:
  assumes "manager_typed m"
  shows "\<exists>m' rs. RemoveFlowContext fid m = Ok (m', rs) \<and> manager_typed m' \<and> contexts m' = contexts m \<and>
    cancelled m' = cancelled m \<and> in_flight m' = fmdrop fid (in_flight m)"
proof (cases "fmlookup (in_flight m) fid")
  case None
  then have "fmdrop fid (in_flight m) = in_flight m"
    by (auto intro!: fmap_ext)
  then show ?thesis
    using assms None by (simp add: RemoveFlowContext_def)
next
  case (Some r)
  have c: "cache_ok (\<lambda>_. 1) (finished m)" "capacity (finished m) = 20" "points m fid r"
    using assms Some by (simp_all add: manager_typed_def)
  obtain lru where l: "Set (\<lambda>_. 1) fid r (finished m) = Ok lru" "cache_ok (\<lambda>_. 1) lru" "capacity lru = 20"
    "stores (finished m) fid r lru"
    using Set_ok [OF c(1), of fid r] c(2) by auto
  define m' where "m' = m\<lparr>in_flight := fmdrop fid (in_flight m), finished := lru\<rparr>"
  have "points m k r'" if "cached lru k = Some r'" for k r'
    using l(4) that c(3) assms by (cases "k = fid") (auto simp: stores_def manager_typed_def)
  then have "manager_typed m'"
    using assms l(2,3) by (auto simp: manager_typed_def m'_def points_def split: if_splits)
  then show ?thesis
    using Some l(1) by (simp add: RemoveFlowContext_def m'_def)
qed

lemma flow_id_flush [simp]: "flow_id (flushLogMessages c) = flow_id c"
  by (simp add: flushLogMessages_def getLogMessages_def offer_def Let_def)

lemma flow_id_getStats [simp]: "flow_id (fst (getStats now c)) = flow_id c"
  by (simp add: getStats_def Let_def)

lemma flow_id_sendStats [simp]: "flow_id (sendStats now c) = flow_id c"
  using flow_id_getStats [of now c] by (cases "getStats now c") (simp add: sendStats_def offer_def)

lemma flow_id_Close [simp]: "flow_id (context_Close now c) = flow_id c"
  by (simp add: context_Close_def)

lemma flow_id_cancel_queries [simp]: "flow_id (cancel_queries row c) = flow_id c"
  by (simp add: cancel_queries_def addLogMessage_def Let_def)

lemma flow_id_AddLogMessage [simp]: "flow_id (AddLogMessage row level msg c) = flow_id c"
  by (simp add: AddLogMessage_def sendAlertMessage_def addLogMessage_def offer_def Let_def)

lemma flow_id_on_responder [simp]: "flow_id (on_responder i f c) = flow_id c"
  by (simp add: on_responder_def)

lemma flow_id_report [simp]: "flow_id (report_turn now c) = flow_id c"
  using flow_id_getStats [of now "c\<lparr>last_stats_timestamp := now\<rparr>"]
  by (cases "getStats now (c\<lparr>last_stats_timestamp := now\<rparr>)")
     (auto simp: report_turn_def MaybeSendStats_def offer_def split: option.splits)

lemma flow_id_charge_file [simp]: "flow_id (charge_file row stack now i f c) = flow_id c"
  by (simp add: charge_file_def ChargeBytes_def exceeded_def context_Cancel_def Let_def split: option.splits)

lemma flow_id_charge_response [simp]: "flow_id (charge_response row stack now i v c) = flow_id c"
  by (simp add: charge_response_def ChargeRows_def ChargeJSONLBytes_def exceeded_def context_Cancel_def Let_def
      split: option.splits)

lemma flow_id_AddResponse:
  "AddResponse row compress stack now i m c = Ok c' \<Longrightarrow> flow_id c' = flow_id c"
  by (cases "file_buffer m"; cases "vql_response m")
     (auto simp: AddResponse_def offer_def Let_def split: sum.splits)

lemma flow_id_step [simp]: "flow_id (flow_step row compress stack (now, op) c) = flow_id c"
  by (cases op) (auto simp: NewResponder_def Log_def Let_def context_Cancel_def GetStats_def
      split: sum.splits dest: flow_id_AddResponse)

lemma run_tasks_typed:
  assumes "manager_typed m"
  shows "\<exists>m'. run_tasks now ts m = Ok m' \<and> manager_typed m' \<and> cancelled m' = cancelled m \<and>
    length (contexts m') = length (contexts m)"
  using assms
proof (induction now ts m rule: run_tasks.induct)
  case (2 now r ts m)
  then show ?case
    using on_context_typed [OF 2(2), of "context_Close now" r] by simp
next
  case (3 now r ts m)
  obtain m' rs where "RemoveFlowContext (flow_id (contexts m ! r)) m = Ok (m', rs)" "manager_typed m'"
    "contexts m' = contexts m" "cancelled m' = cancelled m"
    using RemoveFlowContext_typed [OF 3(2)] by blast
  then show ?case
    using 3(1) [of "(m', rs)" m' rs] by simp
qed simp

lemma Close_typed:
  assumes "manager_typed m"
  shows "\<exists>m'. Close now r m = Ok m' \<and> manager_typed m' \<and> cancelled m' = cancelled m \<and>
    length (contexts m') = length (contexts m)"
  unfolding Close_def by (rule run_tasks_typed [OF assms])

lemma cancelled_typed [simp]: "manager_typed (m\<lparr>cancelled := c\<rparr>) = manager_typed m"
  by (simp add: manager_typed_def points_def)

lemma Cancel_typed:
  assumes "manager_typed m"
  shows "\<exists>m'. Cancel row now fid m = Ok m' \<and> manager_typed m' \<and>
    cancelled m' = (if fid = MONITORING_WELL_KNOWN_FLOW then cancelled m else insert fid (cancelled m))"
proof (cases "fmlookup (in_flight m) fid")
  case (Some r)
  have "manager_typed (on_context r (cancel_queries row) (m\<lparr>cancelled := insert fid (cancelled m)\<rparr>))"
    using assms by (intro on_context_typed) simp_all
  then show ?thesis
    using Close_typed [of _ now r] Some assms by (fastforce simp: Cancel_def Let_def)
qed (use assms in \<open>simp add: Cancel_def Let_def\<close>)

lemma manager_Get_typed:
  assumes "manager_typed m" and "manager_Get fid m = (m', r)"
  shows "manager_typed m'" "contexts m' = contexts m" "in_flight m' = in_flight m" "cancelled m' = cancelled m"
    "cached (finished m') = cached (finished m)"
    "r = (case fmlookup (in_flight m) fid of Some r \<Rightarrow> Some r | None \<Rightarrow> cached (finished m) fid)"
proof -
  have c: "cache_ok (\<lambda>_. 1) (finished m)"
    using assms(1) by (simp add: manager_typed_def)
  have cap: "capacity (fst (Get fid (finished m))) = capacity (finished m)"
    by (simp add: Get_def split: option.splits)
  have m': "m' = m \<or> m' = m\<lparr>finished := fst (Get fid (finished m))\<rparr>"
    using assms(2) by (auto simp: manager_Get_def split: option.splits prod.splits)
  then show "manager_typed m'"
    using assms(1) cap Get_cached(1) [OF c] Get_cached(3) [OF c] by (auto simp: manager_typed_def points_def)
  show "contexts m' = contexts m" "in_flight m' = in_flight m" "cancelled m' = cancelled m"
    using m' by auto
  show "cached (finished m') = cached (finished m)"
    using m' Get_cached(3) [OF c] by auto
  show "r = (case fmlookup (in_flight m) fid of Some r \<Rightarrow> Some r | None \<Rightarrow> cached (finished m) fid)"
    using assms(2) Get_cached(2) [OF c, of fid]
    by (cases "Get fid (finished m)") (auto simp: manager_Get_def split: option.splits)
qed

lemma manager_FlowContext_typed:
  assumes "manager_typed m"
  shows "manager_typed (fst (manager_FlowContext d f fid r m))"
proof (cases "fmlookup (in_flight m) fid")
  case None
  have "points m k p \<Longrightarrow> points (fst (manager_FlowContext d f fid r m)) k p" for k p
    using None by (auto simp: points_def manager_FlowContext_def nth_append)
  moreover have "points (fst (manager_FlowContext d f fid r m)) fid (length (contexts m))"
    using None by (simp add: points_def manager_FlowContext_def newFlowContext_def Let_def)
  ultimately show ?thesis
    using assms None by (auto simp: manager_typed_def) (auto simp: manager_FlowContext_def split: if_splits)
qed (use assms in \<open>simp add: manager_FlowContext_def\<close>)

lemma ProcessStatRequest_typed:
  assumes "manager_typed m"
  shows "manager_typed (fst (ProcessStatRequest now ids m)) \<and> cancelled (fst (ProcessStatRequest now ids m)) = cancelled m"
  using assms
proof (induction ids arbitrary: m)
  case (Cons fid ids)
  obtain m1 r where g: "manager_Get fid m = (m1, r)"
    by (rule prod.exhaust)
  define m2 where "m2 = (case r of None \<Rightarrow> m1 | Some r \<Rightarrow> on_context r (\<lambda>c. fst (GetStats now c)) m1)"
  have "manager_typed m2" "cancelled m2 = cancelled m"
    using manager_Get_typed [OF Cons.prems g] on_context_typed [of m1 "\<lambda>c. fst (GetStats now c)"]
    by (auto simp: m2_def GetStats_def split: option.splits)
  then show ?case
    using Cons.IH [of m2] g by (auto simp: m2_def split: option.splits prod.splits)
qed simp

section \<open>Properties\<close>

text \<open>Whether a run leaves a flow cancelled: its last cancellation or resumption decides.\<close>

fun marked :: "(u64 \<times> manager_op) list \<Rightarrow> string \<Rightarrow> bool \<Rightarrow> bool" where
  "marked [] fid b = b"
| "marked ((_, OpCancelFlow f) # ops) fid b = marked ops fid (f = fid \<and> f \<noteq> MONITORING_WELL_KNOWN_FLOW \<or> b)"
| "marked ((_, OpUnCancel f) # ops) fid b = marked ops fid (f \<noteq> fid \<and> b)"
| "marked (_ # ops) fid b = marked ops fid b"

lemma manager_step_typed:
  assumes "manager_typed m"
  shows "\<exists>m'. manager_step row compress stack op m = Ok m' \<and> manager_typed m' \<and>
    (\<forall>fid. (fid \<in> cancelled m') = marked [op] fid (fid \<in> cancelled m))"
proof -
  obtain now o' where op: "op = (now, o')"
    by (rule prod.exhaust)
  show ?thesis
  proof (cases o')
    case (OpFlowContext d f fid r)
    then show ?thesis
      using manager_FlowContext_typed [OF assms] op by (auto simp: manager_FlowContext_def split: option.splits)
  next
    case (OpCloseContext r)
    then show ?thesis
      using Close_typed [OF assms, of now r] assms op by auto
  next
    case (OpCancelFlow fid)
    then show ?thesis
      using Cancel_typed [OF assms, of row now fid] op by auto
  next
    case (OpUnCancel fid)
    then show ?thesis
      using assms op by (auto simp: UnCancel_def)
  next
    case (OpStatRequest ids)
    then show ?thesis
      using ProcessStatRequest_typed [OF assms, of now ids] op by simp
  next
    case (OpWork r fop)
    then show ?thesis
      using on_context_typed [OF assms, of "flow_step row compress stack (now, fop)" r] assms op by simp
  qed
qed

lemma marked_Cons: "marked (op # ops) fid b = marked ops fid (marked [op] fid b)"
  by (cases op; cases "snd op") auto

lemma manager_run_typed:
  assumes "manager_typed m"
  shows "\<exists>m'. manager_run row compress stack ops m = Ok m' \<and> manager_typed m' \<and>
    (\<forall>fid. (fid \<in> cancelled m') = marked ops fid (fid \<in> cancelled m))"
  using assms
proof (induction ops arbitrary: m)
  case (Cons op ops)
  obtain m1 where m1: "manager_step row compress stack op m = Ok m1" "manager_typed m1"
    "\<forall>fid. (fid \<in> cancelled m1) = marked [op] fid (fid \<in> cancelled m)"
    using manager_step_typed [OF Cons.prems] by blast
  then show ?case
    using Cons.IH [OF m1(2)] marked_Cons [of op ops] by simp
qed simp

lemma NewFlowManager_typed: "manager_typed NewFlowManager"
  by (simp add: manager_typed_def NewFlowManager_def NewLRUCache_ok cached_def Peek_def find_entry_def NewLRUCache_def
      cache_ok_def consistent_def)


text \<open>Messages of cancelled flows. After any run the flow manager, which the client's ring
  buffers ask whether to drop a message, takes a flow for cancelled exactly if the last
  cancellation of the flow came after its last resumption; the flow of the monitoring queries
  is never cancelled.\<close>

lemma IsCancelled_last:
  "\<exists>m. manager_run row compress stack ops NewFlowManager = Ok m \<and>
     (\<forall>fid. IsCancelled fid m = marked ops fid False) \<and> \<not> IsCancelled MONITORING_WELL_KNOWN_FLOW m"
proof -
  have step: "marked [op] MONITORING_WELL_KNOWN_FLOW False = False" for op
    by (cases op; cases "snd op") auto
  have "marked ops MONITORING_WELL_KNOWN_FLOW False = False"
  proof (induction ops)
    case (Cons op ops)
    then show ?case
      by (simp only: marked_Cons [of op ops] step)
  qed simp
  then show ?thesis
    using manager_run_typed [OF NewFlowManager_typed, of row compress stack ops]
    by (auto simp: IsCancelled_def NewFlowManager_def)
qed

definition known :: "FlowManager \<Rightarrow> string \<Rightarrow> nat option" where
  "known m fid = (case fmlookup (in_flight m) fid of Some r \<Rightarrow> Some r | None \<Rightarrow> cached (finished m) fid)"

definition reply :: "u64 \<Rightarrow> FlowManager \<Rightarrow> string \<Rightarrow> FlowMessage" where
  "reply now m fid = (case known m fid of None \<Rightarrow> unknown_flow fid | Some r \<Rightarrow> snd (GetStats now (contexts m ! r)))"

lemma touch_touch [simp]: "touch now (touch now s) = touch now s"
  by (simp add: touch_def)

lemma completed_GetStatus [simp]: "completed (fst (GetStatus now r)) = completed r"
  by (simp add: GetStatus_def Let_def)

lemma GetStatus_idem [simp]: "GetStatus now (fst (GetStatus now r)) = GetStatus now r"
  by (simp add: GetStatus_def Let_def)

lemma all_complete_map [simp]: "all_complete (map (\<lambda>r. fst (GetStatus now r)) rs) = all_complete rs"
  by (induction rs) simp_all

lemma GetStats_idem: "snd (GetStats now (fst (GetStats now c))) = snd (GetStats now c)"
  by (simp add: GetStats_def getStats_def Let_def isFlowComplete_def comp_def)

lemma reply_on_context:
  "reply now (on_context r (\<lambda>c. fst (GetStats now c)) m) fid = reply now m fid"
proof -
  have "snd (GetStats now ((contexts m)[r := fst (GetStats now (contexts m ! r))] ! k)) = snd (GetStats now (contexts m ! k))" for k
    by (cases "k = r"; cases "r < length (contexts m)") (simp_all add: GetStats_idem list_update_beyond)
  then show ?thesis
    by (simp add: reply_def known_def on_context_def split: option.splits)
qed

lemma ProcessStatRequest_replies:
  assumes "manager_typed m"
  shows "snd (ProcessStatRequest now ids m) = map (\<lambda>fid. (reply now m fid, True)) ids"
  using assms
proof (induction ids arbitrary: m)
  case (Cons fid ids)
  obtain m1 r where g: "manager_Get fid m = (m1, r)"
    by (rule prod.exhaust)
  note t = manager_Get_typed [OF Cons.prems g]
  define m2 where "m2 = (case r of None \<Rightarrow> m1 | Some r \<Rightarrow> on_context r (\<lambda>c. fst (GetStats now c)) m1)"
  have m2: "manager_typed m2"
    using t(1) on_context_typed [of m1 "\<lambda>c. fst (GetStats now c)"]
    by (auto simp: m2_def GetStats_def split: option.splits)
  have "reply now m2 k = reply now m1 k" for k
    by (simp add: m2_def reply_on_context split: option.splits)
  moreover have "reply now m1 k = reply now m k" for k
    by (simp only: reply_def known_def t)
  moreover have "reply now m fid = (case r of None \<Rightarrow> unknown_flow fid | Some r \<Rightarrow> snd (GetStats now (contexts m1 ! r)))"
    by (simp only: reply_def known_def t)
  ultimately show ?case
    using Cons.IH [OF m2] g by (auto simp: m2_def split: option.splits prod.splits)
qed simp

lemma reply_SessionId:
  assumes "manager_typed m"
  shows "SessionId (reply now m fid) = fid"
proof (cases "known m fid")
  case (Some r)
  then have "points m fid r"
    using assms by (auto simp: known_def manager_typed_def split: option.splits)
  then show ?thesis
    using Some by (simp add: reply_def points_def GetStats_def getStats_def Let_def empty_message_def)
qed (simp add: reply_def unknown_flow_def empty_message_def)

text \<open>C30: Stat requests. The client answers a request for the state of flows with one
  urgent message per flow, in the order of the request: the progress of the flow if it is in
  flight or among the last twenty finished ones, otherwise a completed flow whose only query
  has the status UNKNOWN_FLOW, by which the server knows that the client has restarted.\<close>

theorem stat_request_answered:
  "\<exists>m. manager_run row compress stack ops NewFlowManager = Ok m \<and>
     snd (ProcessStatRequest now ids m) = map (\<lambda>fid. (reply now m fid, True)) ids \<and>
     map (SessionId \<circ> fst) (snd (ProcessStatRequest now ids m)) = ids"
proof -
  obtain m where m: "manager_run row compress stack ops NewFlowManager = Ok m" "manager_typed m"
    using manager_run_typed [OF NewFlowManager_typed] by blast
  then show ?thesis
    using ProcessStatRequest_replies [OF m(2), of now ids] reply_SessionId [OF m(2)] by (simp add: comp_def)
qed

text \<open>A context closed late. \<^verbatim>\<open>_Close\<close> removes whatever context is in flight under the id of its
  flow. When a cancelled flow is resumed before the goroutine of its first run ends, the deferred
  close of the first context takes the second one out of flight: cancelling the flow again
  leaves the second context running.\<close>

lemma late_close_orphans:
  fixes r :: FlowRequest
  defines "ops \<equiv> [(1, OpFlowContext 0 0 ''F.1'' r), (2, OpCancelFlow ''F.1''), (3, OpUnCancel ''F.1''),
    (4, OpFlowContext 0 0 ''F.1'' r), (5, OpCloseContext 0), (6, OpCancelFlow ''F.1'')]"
  shows "\<exists>m. manager_run row compress stack ops NewFlowManager = Ok m \<and> IsCancelled ''F.1'' m \<and>
    \<not> ctx_done (contexts m ! 1)"
  unfolding ops_def
  by (simp add: NewFlowManager_def manager_FlowContext_def Cancel_def Close_def RemoveFlowContext_def on_context_def
      MONITORING_WELL_KNOWN_FLOW_def newFlowContext_def cancel_queries_def context_Close_def UnCancel_def IsCancelled_def
      Set_def addNew_def updateInplace_def checkCapacity.simps find_entry_def NewLRUCache_def moveToFront_def
      addLogMessage_def flushLogMessages_def getLogMessages_def sendStats_def getStats_def offer_def isFlowComplete_def
      Let_def)

end
