(* ===== verification/Spec2Isabelle.thy ===== *)
theory Spec2Isabelle
  imports Acl_Manager Filestore_Names Sender Queue_Pool Paged_Reader Prefix_Tree File_Access Globs Flow_Manager
begin

text \<open>
  A verification of parts of Velociraptor, an endpoint monitoring tool. A server keeps clients,
  users and collected data in a datastore and a file store; a client runs queries for the
  server, queues what they produce and sends it. The development follows what the two rely
  on: who may do what (access control), under which names data is stored and addressed
  (paths), how the client runs flows and keeps their results until they are sent (flows and
  queues), how the server hands events to its listeners (journal), and which files queries
  may reach (accessors). Names of files and functions below are those of the sources.

  \<^bold>\<open>Conventions.\<close> A Go string is a HOL \<^typ>\<open>string\<close>, a list of bytes; a byte slice is a list of
  words of eight bits. Integers keep their width where it matters: sizes and pointers of the
  queues are integers wrapped to 64 bits or words. A function that can fail returns a sum
  type, a panic included, so that every early return and every panic of the code is a value.
  State is a record that an operation takes and returns. Code that is not part of the
  repository is a parameter: JSON, protobuf and URL coding, compression, regular files'
  contents, hash functions and the Unicode tables beyond ASCII; what a theorem needs of them is
  a hypothesis of the theorem, and its witness instantiates it.

  \<^bold>\<open>Foundations.\<close> \<^verbatim>\<open>Prelude\<close> has the types, the errors and the facts on lists that all theories
  share; \<^verbatim>\<open>Go_Strings\<close> the functions of Go's \<^verbatim>\<open>strings\<close> package; \<^verbatim>\<open>Slices\<close> and \<^verbatim>\<open>Ids\<close> the helpers of
  \<^verbatim>\<open>utils/slice.go\<close>, \<^verbatim>\<open>utils/string.go\<close>, \<^verbatim>\<open>utils/orgs.go\<close>, \<^verbatim>\<open>utils/users.go\<close>, \<^verbatim>\<open>utils/flows.go\<close> and
  \<^verbatim>\<open>utils/hunts.go\<close>; \<^verbatim>\<open>Byte_File\<close> little endian integers and files read and written at offsets.

  \<^bold>\<open>Access control.\<close> \<^verbatim>\<open>Acls\<close> models the token of permissions and the roles of the package \<^verbatim>\<open>acls\<close>:
  expansion of roles grants the union of their permissions, merging is a union, describing a
  token and setting it again is the identity, and a policy read from a dictionary never
  carries the super user flag. \<^verbatim>\<open>Acl_Manager\<close> models \<^verbatim>\<open>services/acl_manager\<close>: the cache of
  policies by lower case name over the datastore, reload, update, grants and the lockdown. Its
  reachable states are an inductive predicate; on them the cache agrees with the datastore (the
  locale \<^verbatim>\<open>policy_store\<close>, interpreted on the manager), and \<^verbatim>\<open>CheckAccess\<close> grants exactly what policy
  and roles confer, nothing of the lockdown, and no administrative permission by accident.

  \<^bold>\<open>Paths.\<close> \<^verbatim>\<open>Components\<close> models parsing and printing of serialised paths (\<^verbatim>\<open>utils/path.go\<close>), with the
  locale \<^verbatim>\<open>path_codec\<close> interpreted for both separators; \<^verbatim>\<open>Sanitize\<close> and \<^verbatim>\<open>Zip_Names\<close> the encodings of
  components as file names and as members of zip files (\<^verbatim>\<open>utils/sanitize.go\<close>); \<^verbatim>\<open>Path_Specs\<close> typed
  paths (\<^verbatim>\<open>file_store/api\<close>, \<^verbatim>\<open>file_store/path_specs\<close>); \<^verbatim>\<open>Filestore_Names\<close> the files they are stored in
  (\<^verbatim>\<open>datastore/filebased_utils.go\<close>). The theorems are round trips with their exact domains,
  injectivity of file names, and that no name escapes the root.

  \<^bold>\<open>Queues of the client.\<close> \<^verbatim>\<open>Ring_Spec\<close> states the contract of \<^verbatim>\<open>IRingBuffer\<close>: committed, leased and
  pending messages, as the locale \<^verbatim>\<open>ring_buffer\<close>. \<^verbatim>\<open>Mem_Ring\<close>, \<^verbatim>\<open>File_Ring\<close> and the sum of both in
  \<^verbatim>\<open>Sender\<close> are interpretations (\<^verbatim>\<open>http_comms/ring_buffer.go\<close>); the file ring is modelled down to the
  bytes of the file and can be opened again at any time. \<^verbatim>\<open>Sender\<close> models \<^verbatim>\<open>http_comms/sender.go\<close>:
  a turn of its loop neither loses nor duplicates a message.

  \<^bold>\<open>Flows of the client.\<close> \<^verbatim>\<open>Flows\<close> models \<^verbatim>\<open>responder/flow_context.go\<close> and \<^verbatim>\<open>responder/responder.go\<close>:
  reports, numbering of log rows, limits. \<^verbatim>\<open>Flow_Manager\<close> models \<^verbatim>\<open>responder/flow_manager.go\<close> and the
  answers to stat requests; it keeps finished flows in the cache of \<^verbatim>\<open>Lru_Cache\<close>
  (\<^verbatim>\<open>third_party/cache/lru_cache.go\<close>). This theory joins it with the queues: the manager decides
  which leased messages a ring buffer drops.

  \<^bold>\<open>Caches.\<close> \<^verbatim>\<open>Cache_Spec\<close> states what a cache promises, the locale \<^verbatim>\<open>forgetful_map\<close>; \<^verbatim>\<open>Lru\<close> (\<^verbatim>\<open>utils/lru.go\<close>) and
  \<^verbatim>\<open>Lru_Cache\<close> interpret it. \<^verbatim>\<open>Paged_Reader\<close> (\<^verbatim>\<open>utils/paged_reader.go\<close>) reads through the page cache, by
  the locale \<^verbatim>\<open>page_cache\<close>, and returns what direct reads return.

  \<^bold>\<open>Events of the server.\<close> \<^verbatim>\<open>Journal_Buffer\<close>, \<^verbatim>\<open>Listener\<close> and \<^verbatim>\<open>Queue_Pool\<close> model the package
  \<^verbatim>\<open>file_store/directory\<close>: the overflow file of a listener, the listener as a step relation over
  all interleavings of senders, pump and \<^verbatim>\<open>Close\<close>, and the pool that broadcasts rows.

  \<^bold>\<open>Accessors.\<close> \<^verbatim>\<open>OS_Paths\<close> models all path manipulators and \<^verbatim>\<open>OSPath\<close> of the package \<^verbatim>\<open>accessors\<close>;
  \<^verbatim>\<open>Prefix_Tree\<close> the tree of prefixes (\<^verbatim>\<open>utils/prefix.go\<close>); \<^verbatim>\<open>File_Access\<close> the rules for file access
  (\<^verbatim>\<open>accessors/file/security.go\<close>, \<^verbatim>\<open>services/sanity/security.go\<close>) and the file store accessor that
  applies them.

  \<^bold>\<open>Loops and fuel.\<close> Loops are structural recursion or recursion with a measure. Two loops read
  a file whose contents are arbitrary, the leases of \<^verbatim>\<open>File_Ring\<close> and \<^verbatim>\<open>Journal_Buffer\<close>, and have
  fuel: the distance from the read pointer to the write pointer and one, since every turn moves
  the pointer forward or ends the loop. That this is enough for every file is the theorem
  \<^verbatim>\<open>File_Ring.Lease_returns\<close> and its counterpart in \<^verbatim>\<open>Journal_Buffer\<close>.

  \<^bold>\<open>Not modelled.\<close> The query language and its several hundred plugins and parsers (\<^verbatim>\<open>vql\<close>) interpret
  foreign formats and operating system interfaces through packages outside the repository. The
  same holds for the accessors of foreign file systems and containers (NTFS, FAT, EXT4, EWF,
  VMDK, registry hives and others), for cryptography and certificates (\<^verbatim>\<open>crypto\<close>), and for HTTP,
  gRPC and the user interface (\<^verbatim>\<open>api\<close>, \<^verbatim>\<open>gui\<close>, \<^verbatim>\<open>server\<close>). The remaining services (notebooks, hunts,
  inventory, indexing, repository of artifacts and others) are mostly calls to one another and
  to the datastore; of these the pieces with a contract of their own are modelled. Generated
  code (protobuf, assets), tests, build files and command line front ends (\<^verbatim>\<open>bin\<close>) are left out. Locks
  and metrics are left out of the modelled components: an operation under a lock is one step,
  and the orders in which concurrent operations take effect are the sequences of steps.
\<close>

section \<open>Properties that span components\<close>

text \<open>C7: Cancelling a flow stops its results. Whatever happened to the flows of the client, an
  item that its ring buffers lease decodes to those messages of the item that carry a log or
  statistics or belong to a flow that was not cancelled since it was last resumed, in order.
  Protobuf serialisation is assumed to decode what it encodes and to encode the messages that
  are left.\<close>

theorem cancelled_messages_dropped:
  assumes "unmarshal item = Some jobs"
    and "\<forall>js b. marshal js = Some b \<longrightarrow> unmarshal b = Some js"
    and "\<forall>P. marshal (filter P jobs) \<noteq> None"
  shows "\<exists>m. manager_run row compress stack ops NewFlowManager = Ok m \<and>
    unmarshal (FilterBlackListedItems unmarshal marshal (\<lambda>fid. IsCancelled fid m) item) =
      Some (filter (\<lambda>msg. Ring_Spec.LogMessage msg \<or> Ring_Spec.FlowStats msg \<or> \<not> marked ops (Ring_Spec.SessionId msg) False) jobs)"
proof -
  obtain m where m: "manager_run row compress stack ops NewFlowManager = Ok m"
    "\<And>fid. IsCancelled fid m = marked ops fid False"
    using IsCancelled_last by blast
  then have "passes (\<lambda>fid. IsCancelled fid m) =
      (\<lambda>msg. Ring_Spec.LogMessage msg \<or> Ring_Spec.FlowStats msg \<or> \<not> marked ops (Ring_Spec.SessionId msg) False)"
    by (simp add: passes_def fun_eq_iff)
  then show ?thesis
    using FilterBlackListedItems_unmarshal [OF assms(1,2), of "\<lambda>fid. IsCancelled fid m"] assms(3) m(1) by simp
qed

theorem cancelled_messages_dropped_witness:
  "let a = \<lparr>VeloMessage.SessionId = ''F.1'', VeloMessage.LogMessage = False, VeloMessage.FlowStats = True, VeloMessage.Body = []\<rparr>;
       b = \<lparr>VeloMessage.SessionId = ''F.1'', VeloMessage.LogMessage = False, VeloMessage.FlowStats = False, VeloMessage.Body = [5]\<rparr>;
       codes = [([], [0]), ([a], [1]), ([b], [2]), ([b, a], [3])];
       marshal = map_of codes; unmarshal = map_of (map prod.swap codes)
   in \<exists>m. manager_run (\<lambda>_ _. []) Some [] [(1, OpUnCancel ''F.1''), (2, OpCancelFlow ''F.1'')] NewFlowManager = Ok m \<and>
        unmarshal (FilterBlackListedItems unmarshal marshal (\<lambda>fid. IsCancelled fid m) [3]) = Some [a]"
proof -
  define a where "a = \<lparr>VeloMessage.SessionId = ''F.1'', VeloMessage.LogMessage = False, VeloMessage.FlowStats = True, VeloMessage.Body = []\<rparr>"
  define b where "b = \<lparr>VeloMessage.SessionId = ''F.1'', VeloMessage.LogMessage = False, VeloMessage.FlowStats = False, VeloMessage.Body = [5]\<rparr>"
  define codes :: "(VeloMessage list \<times> bytes) list" where "codes = [([], [0]), ([a], [1]), ([b], [2]), ([b, a], [3])]"
  define unmarshal where "unmarshal = map_of (map prod.swap codes)"
  define marshal where "marshal = map_of codes"
  have ab: "a \<noteq> b"
    by (simp add: a_def b_def)
  have "unmarshal [3] = Some [b, a]" "\<forall>js b. marshal js = Some b \<longrightarrow> unmarshal b = Some js"
    using ab by (auto simp: unmarshal_def marshal_def codes_def split: if_splits)
  moreover have "\<forall>P. marshal (filter P [b, a]) \<noteq> None"
    using ab by (auto simp: marshal_def codes_def)
  ultimately have "\<exists>m. manager_run (\<lambda>_ _. []) Some [] [(1, OpUnCancel ''F.1''), (2, OpCancelFlow ''F.1'')] NewFlowManager = Ok m \<and>
      unmarshal (FilterBlackListedItems unmarshal marshal (\<lambda>fid. IsCancelled fid m) [3]) =
        Some (filter (\<lambda>msg. Ring_Spec.LogMessage msg \<or> Ring_Spec.FlowStats msg \<or>
          \<not> marked [(1, OpUnCancel ''F.1''), (2, OpCancelFlow ''F.1'')] (Ring_Spec.SessionId msg) False) [b, a])"
    by (rule cancelled_messages_dropped)
  then have "\<exists>m. manager_run (\<lambda>_ _. []) Some [] [(1, OpUnCancel ''F.1''), (2, OpCancelFlow ''F.1'')] NewFlowManager = Ok m \<and>
      unmarshal (FilterBlackListedItems unmarshal marshal (\<lambda>fid. IsCancelled fid m) [3]) = Some [a]"
    by (simp add: a_def b_def MONITORING_WELL_KNOWN_FLOW_def)
  then show ?thesis
    unfolding Let_def unmarshal_def marshal_def codes_def a_def b_def .
qed

end
